(* ===== verification/Committer_Prelude.thy ===== *)
theory Committer_Prelude
  imports Main "HOL-Library.Word" "HOL-Library.AList"
begin

text \<open>
  The shared base of the development: names for the Go types the components use, the fact
  collections their proofs feed to the simplifier, and the generic lemmas about Go maps (association
  lists with one entry per key, so that ranging over a map is ranging over a list), slices used as
  sets, and folds over a state.
\<close>

type_synonym u64 = "64 word"
type_synonym u32 = "32 word"

text \<open>A Go \<open>string\<close> and a Go \<open>[]byte\<close> are both byte sequences; a HOL \<open>char\<close> is a byte.\<close>

type_synonym bytes = string

text \<open>A Go \<open>map[K]V\<close> that the code ranges over.\<close>

type_synonym ('k, 'v) gomap = "('k \<times> 'v) list"

named_theorems gomap_simps \<open>lookups after the operations on Go maps\<close>
named_theorems step_simps \<open>effect of one step of a component on its state\<close>
named_theorems inv_intros \<open>introduction rules for component invariants\<close>

section \<open>Go maps\<close>

definition go_keys :: "('k, 'v) gomap \<Rightarrow> 'k list" where
  "go_keys m = map fst m"

definition wf_gomap :: "('k, 'v) gomap \<Rightarrow> bool" where
  "wf_gomap m \<longleftrightarrow> distinct (map fst m)"

definition go_put :: "'k \<Rightarrow> 'v \<Rightarrow> ('k, 'v) gomap \<Rightarrow> ('k, 'v) gomap" where
  "go_put k v m = AList.update k v m"

definition go_del :: "'k \<Rightarrow> ('k, 'v) gomap \<Rightarrow> ('k, 'v) gomap" where
  "go_del k m = AList.delete k m"

text \<open>\<open>go_get d m k\<close> reads \<open>m[k]\<close>, which is the zero value \<open>d\<close> when the key is absent.\<close>

definition go_get :: "'v \<Rightarrow> ('k, 'v) gomap \<Rightarrow> 'k \<Rightarrow> 'v" where
  "go_get d m k = (case map_of m k of None \<Rightarrow> d | Some v \<Rightarrow> v)"

lemma map_of_go_put [simp, gomap_simps]: "map_of (go_put k v m) = (map_of m)(k \<mapsto> v)"
  by (simp add: go_put_def update_conv')

lemma map_of_go_del [simp, gomap_simps]: "map_of (go_del k m) = (map_of m)(k := None)"
  by (simp add: go_del_def delete_conv')

lemma set_go_keys: "set (go_keys m) = dom (map_of m)"
  by (simp add: go_keys_def dom_map_of_conv_image_fst)

lemma go_keys_put [simp]: "set (go_keys (go_put k v m)) = insert k (set (go_keys m))"
  by (simp add: set_go_keys)

lemma go_keys_del [simp]: "set (go_keys (go_del k m)) = set (go_keys m) - {k}"
  by (simp add: set_go_keys)

lemma wf_gomap_Nil [simp, intro]: "wf_gomap []"
  by (simp add: wf_gomap_def)

lemma wf_gomap_put [simp, intro]: "wf_gomap m \<Longrightarrow> wf_gomap (go_put k v m)"
  by (simp add: wf_gomap_def go_put_def distinct_update)

lemma wf_gomap_del [simp, intro]: "wf_gomap m \<Longrightarrow> wf_gomap (go_del k m)"
  by (simp add: wf_gomap_def go_del_def distinct_delete)

lemma wf_gomap_in: "wf_gomap m \<Longrightarrow> (k, v) \<in> set m \<longleftrightarrow> map_of m k = Some v"
  by (auto simp: wf_gomap_def)

lemma go_get_put [simp, gomap_simps]: "go_get d (go_put k v m) k' = (if k' = k then v else go_get d m k')"
  by (simp add: go_get_def)

lemma go_get_Nil [simp]: "go_get d [] k = d"
  by (simp add: go_get_def)

section \<open>Loops that stop at the first error\<close>

text \<open>
  A Go loop whose body may \<open>return err\<close>: the error ends the loop, the state carries on otherwise.
\<close>

fun loop_err :: "('a \<Rightarrow> 's \<Rightarrow> 'e + 's) \<Rightarrow> 'a list \<Rightarrow> 's \<Rightarrow> 'e + 's" where
  "loop_err f [] s = Inr s"
| "loop_err f (x # xs) s = (case f x s of Inl e \<Rightarrow> Inl e | Inr s' \<Rightarrow> loop_err f xs s')"

lemma loop_err_Cons_Inr:
  "loop_err f (x # xs) s = Inr s' \<longleftrightarrow> (\<exists>s1. f x s = Inr s1 \<and> loop_err f xs s1 = Inr s')"
  by (auto split: sum.splits)

lemma loop_err_append:
  "loop_err f (xs @ ys) s = (case loop_err f xs s of Inl e \<Rightarrow> Inl e | Inr s' \<Rightarrow> loop_err f ys s')"
  by (induction xs arbitrary: s) (auto split: sum.splits)

lemma loop_err_inv:
  assumes "loop_err f xs s = Inr s'" "P s"
    and "\<And>x s s'. x \<in> set xs \<Longrightarrow> P s \<Longrightarrow> f x s = Inr s' \<Longrightarrow> P s'"
  shows "P s'"
  using assms
proof (induction xs arbitrary: s)
  case (Cons x xs)
  then obtain s1 where s1: "f x s = Inr s1" "loop_err f xs s1 = Inr s'"
    by (auto split: sum.splits)
  have "P s1"
    using Cons.prems(2,3) s1(1) by (metis list.set_intros(1))
  moreover have "\<And>y t t'. y \<in> set xs \<Longrightarrow> P t \<Longrightarrow> f y t = Inr t' \<Longrightarrow> P t'"
    using Cons.prems(3) by (metis list.set_intros(2))
  ultimately show ?case
    using Cons.IH s1(2) by blast
qed simp

lemma fold_inv:
  assumes "P s" and "\<And>x s. x \<in> set xs \<Longrightarrow> P s \<Longrightarrow> P (f x s)"
  shows "P (fold f xs s)"
  using assms by (induction xs arbitrary: s) auto

lemma fold_map_upd:
  assumes "distinct (map fst xs)"
  shows "fold (\<lambda>(k, v) t. t(k \<mapsto> f v)) xs t = t ++ map_of (map (\<lambda>(k, v). (k, f v)) xs)"
  using assms
proof (induction xs arbitrary: t)
  case (Cons x xs)
  obtain k v where x: "x = (k, v)" by (cases x)
  let ?m = "map_of (map (\<lambda>(k, v). (k, f v)) xs)"
  have "fst ` set (map (\<lambda>(k, v). (k, f v)) xs) = fst ` set xs" by force
  then have "?m k = None"
    using Cons.prems by (auto simp: x map_of_eq_None_iff)
  then have "t(k \<mapsto> f v) ++ ?m = (t ++ ?m)(k \<mapsto> f v)"
    by (auto simp: map_add_def fun_eq_iff split: option.splits)
  with Cons show ?case
    by (simp add: x map_add_upd del: fun_upd_apply)
qed simp

section \<open>Slices used as sets\<close>

lemma length_eq_1_distinct:
  assumes "distinct xs" "x \<in> set xs" "length xs = 1"
  shows "set xs = {x}"
proof -
  obtain y where "xs = [y]"
    using assms(3) by (cases xs) auto
  with assms(2) show ?thesis by simp
qed

lemma set_fold_insert [simp]: "set (fold List.insert xs ys) = set xs \<union> set ys"
  by (induction xs arbitrary: ys) auto

lemma distinct_fold_insert [simp, intro]: "distinct ys \<Longrightarrow> distinct (fold List.insert xs ys)"
  by (induction xs arbitrary: ys) auto

lemma remove1_distinct_filter: "distinct xs \<Longrightarrow> remove1 x xs = filter (\<lambda>y. y \<noteq> x) xs"
  by (simp add: distinct_remove1_removeAll removeAll_filter_not_eq) (metis)

end
