(* ===== verification/Messages.thy ===== *)
theory Messages
  imports Committer_Prelude
begin

text \<open>
  The messages the services exchange, as records with the fields the code under \<open>src/\<close> reads and
  writes, the transaction statuses it assigns, the reserved namespace identifiers, and the record
  \<open>wire\<close> of the functions that live in packages outside the repository (protobuf marshalling and
  varints, the reserved-namespace predicate). Every definition that calls one of those functions
  takes the record as an argument; what a theorem needs of them is one of the predicates
  \<open>varint_law\<close>, \<open>snapshot_codec_law\<close> and \<open>system_namespace_law\<close> below.
\<close>

section \<open>Statuses and references\<close>

datatype Status =
    STATUS_UNSPECIFIED
  | COMMITTED
  | ABORTED_SIGNATURE_INVALID
  | ABORTED_MVCC_CONFLICT
  | REJECTED_DUPLICATE_TX_ID
  | REJECTED_DUPLICATE_SNAPSHOT_IN_BLOCK
  | REJECTED_SNAPSHOT_IN_PROGRESS
  | REJECTED_SNAPSHOT_NO_CHECKPOINT
  | REJECTED_CHECKPOINT_NO_SUCH_SNAPSHOT
  | MALFORMED_BAD_ENVELOPE
  | MALFORMED_MISSING_TX_ID
  | MALFORMED_UNSUPPORTED_ENVELOPE_PAYLOAD
  | MALFORMED_BAD_ENVELOPE_PAYLOAD
  | MALFORMED_EMPTY_NAMESPACES
  | MALFORMED_DUPLICATE_NAMESPACE
  | MALFORMED_NAMESPACE_ID_INVALID
  | MALFORMED_NAMESPACE_POLICY_INVALID
  | MALFORMED_BLIND_WRITES_NOT_ALLOWED
  | MALFORMED_NO_WRITES
  | MALFORMED_EMPTY_KEY
  | MALFORMED_DUPLICATE_KEY_IN_READ_WRITE_SET
  | MALFORMED_MISSING_SIGNATURE
  | MALFORMED_SYSTEM_TX_NOT_STANDALONE
  | MALFORMED_SNAPSHOT_NOT_MARKER_ONLY
  | MALFORMED_CHECKPOINT_INVALID_KEY
  | MALFORMED_CHECKPOINT_INVALID_VALUE

record TxRef =
  ref_block_num :: u64
  ref_tx_id :: string
  ref_tx_num :: u32

record TxStatus =
  st_ref :: TxRef
  st_status :: Status

section \<open>Transactions\<close>

record Read =
  r_key :: bytes
  r_version :: "u64 option"

record ReadWrite =
  rw_key :: bytes
  rw_version :: "u64 option"
  rw_value :: bytes

record Write =
  w_key :: bytes
  w_value :: bytes

record TxNamespace =
  ns_id :: string
  ns_version :: u64
  ns_reads_only :: "Read list"
  ns_read_writes :: "ReadWrite list"
  ns_blind_writes :: "Write list"

text \<open>
  \<open>tx_endorsements\<close> has one entry per namespace; \<open>None\<close> is a nil pointer, and so is a \<open>None\<close> in
  the list of the endorsements that carry an identity. The identity is a pointer too.
\<close>

record EndorsementWithIdentity =
  ei_endorsement :: bytes
  ei_identity :: "bytes option"

record Tx =
  tx_namespaces :: "TxNamespace list"
  tx_endorsements :: "EndorsementWithIdentity option list option list"
  tx_metadata :: bytes

record TxWithRef =
  twr_ref :: TxRef
  twr_content :: Tx

record VcTx =
  vc_ref :: TxRef
  vc_namespaces :: "TxNamespace list"
  vc_prelim_invalid :: "Status option"

record CoordinatorBatch =
  cb_txs :: "TxWithRef list"
  cb_rejected :: "TxStatus list"

section \<open>Checkpoint feedback\<close>

datatype Signal = SIGNAL_UNSPECIFIED | HOLD | HALT

record CheckpointFeedback =
  cf_signal :: Signal
  cf_ref :: "TxRef option"
  cf_snapshot_block_number :: u64
  cf_reason :: string

record TxStatusBatch =
  tsb_status :: "TxStatus list"
  tsb_feedback :: "CheckpointFeedback option"

section \<open>Snapshot records\<close>

text \<open>\<open>SnapUnknown\<close> is a status number the protobuf enumeration has no name for.\<close>

datatype SnapshotStatus =
    SnapUnspecified | SnapPending | SnapInProgress | SnapCompleted | SnapFailed
  | SnapCheckpointed | SnapAborted | SnapUnknown int

record SnapshotState =
  ss_tx_ref :: "TxRef option"
  ss_status :: SnapshotStatus
  ss_hash :: bytes
  ss_clone_database :: string
  ss_error :: string

section \<open>Reserved names\<close>

definition MetaNamespaceID :: string where "MetaNamespaceID = ''_meta''"
definition ConfigNamespaceID :: string where "ConfigNamespaceID = ''_config''"
definition SnapshotNamespaceID :: string where "SnapshotNamespaceID = ''_snapshot''"
definition CheckpointNamespaceID :: string where "CheckpointNamespaceID = ''_checkpoint''"
definition ConfigKey :: bytes where "ConfigKey = ''_config''"

lemmas reserved_defs =
  MetaNamespaceID_def ConfigNamespaceID_def SnapshotNamespaceID_def CheckpointNamespaceID_def

lemma reserved_distinct [simp]:
  "MetaNamespaceID \<noteq> ConfigNamespaceID" "MetaNamespaceID \<noteq> SnapshotNamespaceID"
  "MetaNamespaceID \<noteq> CheckpointNamespaceID" "ConfigNamespaceID \<noteq> SnapshotNamespaceID"
  "ConfigNamespaceID \<noteq> CheckpointNamespaceID" "SnapshotNamespaceID \<noteq> CheckpointNamespaceID"
  "ConfigNamespaceID \<noteq> MetaNamespaceID" "SnapshotNamespaceID \<noteq> MetaNamespaceID"
  "CheckpointNamespaceID \<noteq> MetaNamespaceID" "SnapshotNamespaceID \<noteq> ConfigNamespaceID"
  "CheckpointNamespaceID \<noteq> ConfigNamespaceID" "CheckpointNamespaceID \<noteq> SnapshotNamespaceID"
  by (simp_all add: reserved_defs)

section \<open>Functions of packages outside the repository\<close>

text \<open>
  \<open>DecodeVarint\<close> returns the value and the number of bytes it consumed. \<open>MarshalSnapshotState\<close> and
  \<open>UnmarshalSnapshotState\<close> are \<open>proto.Marshal\<close> and \<open>proto.Unmarshal\<close> at the snapshot record,
  \<open>None\<close> being the error. \<open>EncodeBigint\<close> is the driver's conversion of a \<open>uint64\<close> query argument to
  an SQL \<open>BIGINT\<close>, which is signed.
\<close>

record wire =
  EncodeVarint :: "nat \<Rightarrow> bytes"
  DecodeVarint :: "bytes \<Rightarrow> nat \<times> nat"
  MarshalSnapshotState :: "SnapshotState \<Rightarrow> bytes option"
  UnmarshalSnapshotState :: "bytes \<Rightarrow> SnapshotState option"
  IsSystemNamespace :: "string \<Rightarrow> bool"
  EncodeBigint :: "u64 \<Rightarrow> nat option"

text \<open>
  The protobuf wire format: a number below 128 is one byte holding it, and a leading byte below 128
  is read back as that one-byte number; a leading byte with its top bit set never ends the varint,
  and no byte at all is a failure, reported as zero bytes consumed.
\<close>

definition varint_law :: "wire \<Rightarrow> bool" where
  "varint_law w \<longleftrightarrow>
     (\<forall>n < 128. EncodeVarint w n = [char_of n]) \<and>
     (\<forall>b bs. of_char b < (128 :: nat) \<longrightarrow> DecodeVarint w (b # bs) = (of_char b, 1)) \<and>
     (\<forall>b bs. of_char b \<ge> (128 :: nat) \<longrightarrow> snd (DecodeVarint w (b # bs)) \<noteq> 1) \<and>
     snd (DecodeVarint w []) = 0"

text \<open>Marshalling a snapshot record succeeds and unmarshalling returns the record.\<close>

definition snapshot_codec_law :: "wire \<Rightarrow> bool" where
  "snapshot_codec_law w \<longleftrightarrow>
     (\<forall>s. \<exists>raw. MarshalSnapshotState w s = Some raw \<and> UnmarshalSnapshotState w raw = Some s)"

text \<open>The driver converts the numbers a signed 64-bit integer can hold, and refuses the others.\<close>

definition bigint_law :: "wire \<Rightarrow> bool" where
  "bigint_law w \<longleftrightarrow> (\<forall>v. EncodeBigint w v = (if unat v < 2 ^ 63 then Some (unat v) else None))"

text \<open>The reserved namespaces are system namespaces.\<close>

definition system_namespace_law :: "wire \<Rightarrow> bool" where
  "system_namespace_law w \<longleftrightarrow>
     IsSystemNamespace w MetaNamespaceID \<and> IsSystemNamespace w ConfigNamespaceID \<and>
     IsSystemNamespace w SnapshotNamespaceID \<and> IsSystemNamespace w CheckpointNamespaceID"

end
