(* ===== verification/Wire_Instance.thy ===== *)
theory Wire_Instance
  imports Messages
begin

text \<open>
  A concrete \<open>wire\<close>: base-128 varints, a self-delimiting encoding of the snapshot record, and the
  four reserved namespaces. It satisfies every law of \<open>Messages\<close>, so the hypotheses the theorems
  make about the external packages can hold together; the witnesses are evaluated on it.
\<close>

section \<open>Varints\<close>

fun leb128 :: "nat \<Rightarrow> bytes" where
  "leb128 n = (if n < 128 then [char_of n] else char_of (128 + n mod 128) # leb128 (n div 128))"

declare leb128.simps [simp del]

fun unleb128 :: "bytes \<Rightarrow> nat \<times> nat" where
  "unleb128 [] = (0, 0)"
| "unleb128 (b # bs) =
     (if of_char b < (128 :: nat) then (of_char b, 1)
      else let (v, k) = unleb128 bs in if k = 0 then (0, 0) else (of_char b - 128 + 128 * v, Suc k))"

section \<open>Snapshot records\<close>

definition put_nat :: "nat \<Rightarrow> bytes" where
  "put_nat n = replicate n CHR 0x01 @ [CHR 0x00]"

fun get_nat :: "bytes \<Rightarrow> nat \<times> bytes" where
  "get_nat [] = (0, [])"
| "get_nat (b # bs) = (if b = CHR 0x01 then (let (n, r) = get_nat bs in (Suc n, r)) else (0, bs))"

definition put_str :: "string \<Rightarrow> bytes" where
  "put_str s = put_nat (length s) @ s"

definition get_str :: "bytes \<Rightarrow> string \<times> bytes" where
  "get_str bs = (let (n, r) = get_nat bs in (take n r, drop n r))"

definition put_ref :: "TxRef option \<Rightarrow> bytes" where
  "put_ref r = (case r of
       None \<Rightarrow> put_nat 0
     | Some t \<Rightarrow> put_nat 1 @ put_nat (unat (ref_block_num t)) @ put_str (ref_tx_id t)
                  @ put_nat (unat (ref_tx_num t)))"

definition get_ref :: "bytes \<Rightarrow> TxRef option \<times> bytes" where
  "get_ref bs =
     (let (tag, r) = get_nat bs
      in if tag = 0 then (None, r)
         else let (b, r1) = get_nat r; (i, r2) = get_str r1; (n, r3) = get_nat r2
              in (Some \<lparr>ref_block_num = word_of_nat b, ref_tx_id = i, ref_tx_num = word_of_nat n\<rparr>, r3))"

fun put_status :: "SnapshotStatus \<Rightarrow> bytes" where
  "put_status SnapUnspecified = put_nat 0"
| "put_status SnapPending = put_nat 1"
| "put_status SnapInProgress = put_nat 2"
| "put_status SnapCompleted = put_nat 3"
| "put_status SnapFailed = put_nat 4"
| "put_status SnapCheckpointed = put_nat 5"
| "put_status SnapAborted = put_nat 6"
| "put_status (SnapUnknown i) =
     (if 0 \<le> i then put_nat 7 @ put_nat (nat i) else put_nat 8 @ put_nat (nat (- i)))"

definition get_status :: "bytes \<Rightarrow> SnapshotStatus \<times> bytes" where
  "get_status bs =
     (let (tag, r) = get_nat bs
      in if tag < 7
         then ([SnapUnspecified, SnapPending, SnapInProgress, SnapCompleted, SnapFailed,
                SnapCheckpointed, SnapAborted] ! tag, r)
         else let (n, r1) = get_nat r
              in (SnapUnknown (if tag = 7 then int n else - int n), r1))"

definition put_snapshot :: "SnapshotState \<Rightarrow> bytes" where
  "put_snapshot s = put_ref (ss_tx_ref s) @ put_status (ss_status s) @ put_str (ss_hash s)
     @ put_str (ss_clone_database s) @ put_str (ss_error s)"

definition get_snapshot :: "bytes \<Rightarrow> SnapshotState" where
  "get_snapshot bs =
     (let (r, b1) = get_ref bs; (st, b2) = get_status b1; (h, b3) = get_str b2;
          (c, b4) = get_str b3; (e, b5) = get_str b4
      in \<lparr>ss_tx_ref = r, ss_status = st, ss_hash = h, ss_clone_database = c, ss_error = e\<rparr>)"

definition ref_wire :: wire where
  "ref_wire =
     \<lparr>EncodeVarint = leb128, DecodeVarint = unleb128,
      MarshalSnapshotState = \<lambda>s. Some (put_snapshot s),
      UnmarshalSnapshotState = \<lambda>bs. Some (get_snapshot bs),
      IsSystemNamespace = \<lambda>ns. ns \<in> set [MetaNamespaceID, ConfigNamespaceID, SnapshotNamespaceID,
        CheckpointNamespaceID],
      EncodeBigint = \<lambda>v. if v < 9223372036854775808 then Some (unat v) else None\<rparr>"

section \<open>The laws hold\<close>

lemma unleb128_high: "of_char b \<ge> (128 :: nat) \<Longrightarrow> snd (unleb128 (b # bs)) \<noteq> 1"
  by (cases "unleb128 bs") auto

lemma get_put_nat [simp]: "get_nat (put_nat n @ r) = (n, r)"
  by (induction n) (simp_all add: put_nat_def)

lemma get_put_str [simp]: "get_str (put_str s @ r) = (s, r)"
  by (simp add: get_str_def put_str_def)

lemma get_put_ref [simp]: "get_ref (put_ref t @ r) = (t, r)"
  by (cases t) (simp_all add: get_ref_def put_ref_def)

lemma get_put_status [simp]: "get_status (put_status s @ r) = (s, r)"
  by (cases s) (simp_all add: get_status_def)

lemma get_put_snapshot [simp]: "get_snapshot (put_snapshot s) = s"
  using get_put_str [of "ss_error s" "[]"] by (simp add: get_snapshot_def put_snapshot_def)

lemma ref_wire_varint [simp]: "varint_law ref_wire"
  using unleb128_high by (simp add: varint_law_def ref_wire_def leb128.simps del: One_nat_def)

lemma ref_wire_snapshot [simp]: "snapshot_codec_law ref_wire"
  by (simp add: snapshot_codec_law_def ref_wire_def)

lemma ref_wire_bigint [simp]: "bigint_law ref_wire"
  by (simp add: bigint_law_def ref_wire_def word_less_nat_alt)

lemma ref_wire_system [simp]: "system_namespace_law ref_wire"
  by (simp add: system_namespace_law_def ref_wire_def)

end
