(* ===== verification/Ordered_Encoding.thy ===== *)
theory Ordered_Encoding
  imports Wire_Instance
begin

text \<open>
  \<open>utils/encoding.go\<close>, \<open>api/servicepb/height.go\<close> and \<open>api/servicepb/checkpoint_key.go\<close>: the
  length-prefixed big-endian encoding of \<open>uint64\<close>, the transaction height built from two of them
  and stored in the \<open>tx_status\<close> table, and the key of a checkpoint transaction. The lemmas give the
  round trips with trailing bytes, that the encoding and the height keep the order of the numbers
  under the byte order of the database, and which keys decode.
\<close>

section \<open>Big-endian bytes\<close>

text \<open>\<open>binary.BigEndian.PutUint64\<close> into eight bytes, and \<open>binary.BigEndian.Uint64\<close> of eight bytes.\<close>

definition PutUint64 :: "u64 \<Rightarrow> bytes" where
  "PutUint64 n = map (\<lambda>i. char_of (unat n div 256 ^ (7 - i))) [0..<8]"

definition be_value :: "bytes \<Rightarrow> nat" where
  "be_value bs = foldl (\<lambda>a b. a * 256 + of_char b) 0 bs"

definition Uint64 :: "bytes \<Rightarrow> u64" where
  "Uint64 bs = word_of_nat (be_value bs)"

section \<open>The encoding\<close>

text \<open>The loop of \<open>EncodeOrderPreservingVarUint64\<close>: (startingIndex, size) at the first nonzero byte.\<close>

fun first_nonzero :: "nat \<Rightarrow> bytes \<Rightarrow> nat \<times> nat" where
  "first_nonzero i [] = (0, 0)"
| "first_nonzero i (b # bs) =
     (if of_char b \<noteq> (0 :: nat) then (i, 8 - i) else first_nonzero (Suc i) bs)"

text \<open>\<open>None\<close> is the panic on a size that does not fit in one byte.\<close>

definition EncodeOrderPreservingVarUint64 :: "wire \<Rightarrow> u64 \<Rightarrow> bytes option" where
  "EncodeOrderPreservingVarUint64 w number =
     (let bs = PutUint64 number;
          (startingIndex, size) = first_nonzero 0 bs;
          sizeBytes = EncodeVarint w size
      in if length sizeBytes > 1 then None
         else case sizeBytes of
             [] \<Rightarrow> None
           | b # _ \<Rightarrow> Some (b # take size (drop startingIndex bs)))"

datatype decode_error = BadVarint nat | SizeTooLarge nat | NotEnoughBytes nat nat | TrailingBytes nat

definition DecodeOrderPreservingVarUint64 :: "wire \<Rightarrow> bytes \<Rightarrow> decode_error + u64 \<times> nat" where
  "DecodeOrderPreservingVarUint64 w bs =
     (let (s, numBytes) = DecodeVarint w bs
      in if numBytes \<noteq> 1 then Inl (BadVarint numBytes)
         else if s > 8 then Inl (SizeTooLarge s)
         else if int s > int (length bs) - 1 then Inl (NotEnoughBytes s (length bs - 1))
         else Inr (Uint64 (replicate (8 - s) (char_of (0 :: nat)) @ take s (drop 1 bs)), s + 1))"

section \<open>Heights\<close>

record Height =
  h_block_num :: u64
  h_tx_num :: u32

definition NewHeight :: "u64 \<Rightarrow> u32 \<Rightarrow> Height" where
  "NewHeight b t = \<lparr>h_block_num = b, h_tx_num = t\<rparr>"

definition NewHeightFromTxRef :: "TxRef \<Rightarrow> Height" where
  "NewHeightFromTxRef ref = NewHeight (ref_block_num ref) (ref_tx_num ref)"

definition NewHeightFromBytes :: "wire \<Rightarrow> bytes \<Rightarrow> decode_error + Height \<times> nat" where
  "NewHeightFromBytes w b =
     (case DecodeOrderPreservingVarUint64 w b of
        Inl e \<Rightarrow> Inl e
      | Inr (blockNum, n1) \<Rightarrow>
          (case DecodeOrderPreservingVarUint64 w (drop n1 b) of
             Inl e \<Rightarrow> Inl e
           | Inr (txNum, n2) \<Rightarrow> Inr (NewHeight blockNum (ucast txNum), n1 + n2)))"

definition WithStatus :: "Height \<Rightarrow> string \<Rightarrow> Status \<Rightarrow> TxStatus" where
  "WithStatus h txID s =
     \<lparr>st_ref = \<lparr>ref_block_num = h_block_num h, ref_tx_id = txID, ref_tx_num = h_tx_num h\<rparr>,
      st_status = s\<rparr>"

definition ToBytes :: "wire \<Rightarrow> Height \<Rightarrow> bytes option" where
  "ToBytes w h =
     (case EncodeOrderPreservingVarUint64 w (h_block_num h) of
        None \<Rightarrow> None
      | Some blockNumBytes \<Rightarrow>
          (case EncodeOrderPreservingVarUint64 w (ucast (h_tx_num h)) of
             None \<Rightarrow> None
           | Some txNumBytes \<Rightarrow> Some (blockNumBytes @ txNumBytes)))"

section \<open>Checkpoint keys and values\<close>

definition CheckpointAbortValue :: bytes where
  "CheckpointAbortValue = ''abort''"

text \<open>\<open>sha256.Size\<close> is 32.\<close>

definition IsValidCheckpointValue :: "bytes \<Rightarrow> bool" where
  "IsValidCheckpointValue v \<longleftrightarrow> v = CheckpointAbortValue \<or> length v = 32"

definition CheckpointKey :: "wire \<Rightarrow> u64 \<Rightarrow> bytes option" where
  "CheckpointKey w blockNum = EncodeOrderPreservingVarUint64 w blockNum"

definition BlockNumFromCheckpointKey :: "wire \<Rightarrow> bytes \<Rightarrow> decode_error + u64" where
  "BlockNumFromCheckpointKey w key =
     (case DecodeOrderPreservingVarUint64 w key of
        Inl e \<Rightarrow> Inl e
      | Inr (blockNum, n) \<Rightarrow>
          if n \<noteq> length key then Inl (TrailingBytes (length key - n)) else Inr blockNum)"

section \<open>The order of byte strings\<close>

text \<open>The comparison of \<open>BYTEA\<close> values: bytewise, a proper prefix being smaller.\<close>

fun bytes_less :: "bytes \<Rightarrow> bytes \<Rightarrow> bool" where
  "bytes_less xs [] = False"
| "bytes_less [] (y # ys) = True"
| "bytes_less (x # xs) (y # ys) =
     (of_char x < (of_char y :: nat) \<or> x = y \<and> bytes_less xs ys)"

section \<open>Facts about the bytes of a number\<close>

lemma of_char_less_256 [simp]: "of_char c < (256 :: nat)"
  by (metis of_char_mod_256 mod_less_divisor zero_less_numeral)

lemma be_value_append: "be_value (xs @ ys) = be_value xs * 256 ^ length ys + be_value ys"
proof (induction ys rule: rev_induct)
  case (snoc y ys)
  have "be_value (zs @ [y]) = be_value zs * 256 + of_char y" for zs
    by (simp add: be_value_def)
  from this [of "xs @ ys"] this [of ys] snoc show ?case
    by (simp add: algebra_simps)
qed (simp add: be_value_def)

lemma be_value_Nil [simp]: "be_value [] = 0"
  by (simp add: be_value_def)

lemma be_value_Cons: "be_value (x # xs) = of_char x * 256 ^ length xs + be_value xs"
  using be_value_append [of "[x]" xs] by (simp add: be_value_def)

lemma be_value_bound: "be_value xs < 256 ^ length xs"
proof (induction xs)
  case (Cons x xs)
  have "of_char x \<le> (255 :: nat)"
    using of_char_less_256 [of x] by linarith
  then have "of_char x * 256 ^ length xs \<le> 255 * (256 ^ length xs :: nat)"
    by (rule mult_le_mono1)
  with Cons have "of_char x * 256 ^ length xs + be_value xs < 256 * 256 ^ length xs"
    by linarith
  then show ?case
    by (simp add: be_value_Cons)
qed simp

lemma be_value_zeros: "be_value (replicate k (char_of (0 :: nat)) @ xs) = be_value xs"
  by (induction k) (simp_all add: be_value_Cons)

lemma length_PutUint64 [simp]: "length (PutUint64 n) = 8"
  by (simp add: PutUint64_def)

lemma be_value_digits:
  "be_value (map (\<lambda>i. char_of (m div 256 ^ (k - Suc i))) [0..<k]) = m mod 256 ^ k"
proof (induction k arbitrary: m)
  case (Suc k)
  have "map (\<lambda>i. char_of (m div 256 ^ (Suc k - Suc i)) :: char) [0..<Suc k]
      = map (\<lambda>i. char_of ((m div 256) div 256 ^ (k - Suc i))) [0..<k] @ [char_of m]"
  proof -
    have "m div 256 ^ (k - i) = m div 256 div 256 ^ (k - Suc i)" if "i < k" for i
      using that by (metis Suc_diff_Suc div_mult2_eq power_Suc)
    then show ?thesis by simp
  qed
  then have "be_value (map (\<lambda>i. char_of (m div 256 ^ (Suc k - Suc i))) [0..<Suc k])
      = (m div 256 mod 256 ^ k) * 256 + m mod 256"
    by (simp only: be_value_append Suc.IH) (simp add: be_value_Cons)
  then show ?case
    by (simp add: mod_mult2_eq mult.commute)
qed simp

lemma be_value_PutUint64 [simp]: "be_value (PutUint64 n) = unat n"
proof -
  have "PutUint64 n = map (\<lambda>i. char_of (unat n div 256 ^ (8 - Suc i))) [0..<8]"
    by (simp add: PutUint64_def)
  then have "be_value (PutUint64 n) = unat n mod 256 ^ 8"
    by (simp only: be_value_digits)
  moreover have "unat n < 256 ^ 8"
    using unsigned_less [of n, where 'a = nat] by simp
  ultimately show ?thesis by simp
qed

lemma Uint64_PutUint64 [simp]: "Uint64 (PutUint64 n) = n"
  by (simp add: Uint64_def)

section \<open>The encoded form\<close>

text \<open>The number of leading zero bytes of a number.\<close>

definition lead :: "u64 \<Rightarrow> nat" where
  "lead n = length (takeWhile (\<lambda>b. b = char_of (0 :: nat)) (PutUint64 n))"

lemma of_char_eq_0: "of_char b = (0 :: nat) \<longleftrightarrow> b = char_of (0 :: nat)"
  by (metis char_of_char of_char_of mod_0)

lemma first_nonzero_lead:
  assumes "i + length bs = 8"
  shows "first_nonzero i bs =
    (let z = length (takeWhile (\<lambda>b. b = char_of (0 :: nat)) bs)
     in if z = length bs then (0, 0) else (i + z, length bs - z))"
  using assms by (induction i bs rule: first_nonzero.induct) (auto simp: of_char_eq_0 Let_def)

lemma lead_le: "lead n \<le> 8"
  using length_takeWhile_le [of _ "PutUint64 n"] by (simp add: lead_def)

lemma PutUint64_lead: "PutUint64 n = replicate (lead n) (char_of (0 :: nat)) @ drop (lead n) (PutUint64 n)"
proof -
  let ?P = "\<lambda>b. b = char_of (0 :: nat)"
  have "takeWhile ?P (PutUint64 n) = replicate (lead n) (char_of (0 :: nat))"
    unfolding lead_def by (rule replicate_eqI) (auto dest: set_takeWhileD)
  moreover have "dropWhile ?P (PutUint64 n) = drop (lead n) (PutUint64 n)"
    by (simp add: lead_def dropWhile_eq_drop)
  ultimately show ?thesis
    using takeWhile_dropWhile_id [of ?P "PutUint64 n"] by simp
qed

lemma encode_lead:
  assumes "varint_law w"
  shows "EncodeOrderPreservingVarUint64 w n = Some (char_of (8 - lead n) # drop (lead n) (PutUint64 n))"
proof -
  have f: "first_nonzero 0 (PutUint64 n) = (if lead n = 8 then (0, 0) else (lead n, 8 - lead n))"
    using first_nonzero_lead [of 0 "PutUint64 n"] by (simp add: lead_def Let_def)
  have e: "EncodeVarint w k = [char_of k]" if "k \<le> 8" for k
    using assms that by (simp add: varint_law_def)
  show ?thesis
    by (simp add: EncodeOrderPreservingVarUint64_def f e)
qed

lemma be_value_drop_lead [simp]: "be_value (drop (lead n) (PutUint64 n)) = unat n"
  using be_value_zeros [of "lead n" "drop (lead n) (PutUint64 n)"] PutUint64_lead [of n] by simp

lemma decode_encode_append:
  assumes "varint_law w" "EncodeOrderPreservingVarUint64 w n = Some e"
  shows "DecodeOrderPreservingVarUint64 w (e @ rest) = Inr (n, length e)"
proof -
  have e: "e = char_of (8 - lead n) # drop (lead n) (PutUint64 n)"
    using assms by (simp add: encode_lead)
  have "of_char (char_of (8 - lead n) :: char) = 8 - lead n"
    by simp
  then have d: "DecodeVarint w (char_of (8 - lead n) # bs) = (8 - lead n, 1)" for bs
    using assms(1) by (auto simp: varint_law_def)
  have "8 - (8 - lead n) = lead n"
    using lead_le [of n] by simp
  moreover have "Uint64 (replicate (lead n) (char_of (0 :: nat)) @ drop (lead n) (PutUint64 n)) = n"
    using PutUint64_lead [of n] by simp
  ultimately show ?thesis
    using lead_le [of n] by (simp add: DecodeOrderPreservingVarUint64_def d e)
qed

section \<open>The order\<close>

lemma bytes_less_irrefl: "\<not> bytes_less xs xs"
  by (induction xs) auto

lemma bytes_less_asym: "bytes_less xs ys \<Longrightarrow> \<not> bytes_less ys xs"
  by (induction xs ys rule: bytes_less.induct) auto

lemma bytes_less_append_same [simp]: "bytes_less (xs @ r) (xs @ s) \<longleftrightarrow> bytes_less r s"
  by (induction xs) auto

lemma bytes_less_be_value:
  assumes "length xs = length ys" "be_value xs < be_value ys"
  shows "bytes_less (xs @ r) (ys @ s)"
  using assms
proof (induction xs ys rule: list_induct2)
  case (Cons x xs y ys)
  show ?case
  proof (cases "x = y")
    case True
    with Cons show ?thesis by (simp add: be_value_Cons)
  next
    case False
    have "of_char x * 256 ^ length ys < (of_char y + 1) * (256 ^ length ys :: nat)"
      using Cons.prems Cons.hyps be_value_bound [of ys] by (simp add: be_value_Cons)
    then have "of_char x < of_char y + (1 :: nat)"
      using mult_less_cancel2 by blast
    moreover have "of_char x \<noteq> (of_char y :: nat)"
      using False by simp
    ultimately have "of_char x < (of_char y :: nat)"
      by linarith
    then show ?thesis by simp
  qed
qed simp

lemma lead_lower:
  assumes "lead n < 8"
  shows "256 ^ (7 - lead n) \<le> unat n"
proof -
  let ?d = "drop (lead n) (PutUint64 n)"
  obtain b bs where d: "?d = b # bs"
    using assms by (cases ?d) auto
  have "b \<noteq> char_of (0 :: nat)"
    using nth_length_takeWhile [of "\<lambda>b. b = char_of (0 :: nat)" "PutUint64 n"] assms d
    by (simp add: lead_def drop_Suc) (metis d drop_Suc hd_drop_conv_nth lead_def length_PutUint64 list.sel(1))
  then have "1 \<le> (of_char b :: nat)"
    using of_char_eq_0 [of b] by linarith
  moreover have "length bs = 7 - lead n"
    using arg_cong [OF d, of length] assms by simp
  ultimately have "1 * 256 ^ (7 - lead n) \<le> be_value ?d"
    unfolding d be_value_Cons by (intro trans_le_add1) (metis mult_le_mono1)
  then show ?thesis by simp
qed

lemma lead_upper: "unat n < 256 ^ (8 - lead n)"
  using be_value_bound [of "drop (lead n) (PutUint64 n)"] by simp

lemma encode_less:
  assumes "varint_law w" "EncodeOrderPreservingVarUint64 w a = Some ea"
    "EncodeOrderPreservingVarUint64 w b = Some eb" "a < b"
  shows "bytes_less (ea @ r) (eb @ s)"
proof -
  have ea: "ea = char_of (8 - lead a) # drop (lead a) (PutUint64 a)"
    and eb: "eb = char_of (8 - lead b) # drop (lead b) (PutUint64 b)"
    using assms by (simp_all add: encode_lead)
  have ab: "unat a < unat b"
    using assms(4) by (simp add: word_less_nat_alt)
  have "\<not> lead a < lead b"
  proof
    assume l: "lead a < lead b"
    then have "lead a < 8"
      using lead_le [of b] by linarith
    then have "256 ^ (7 - lead a) \<le> unat a"
      by (rule lead_lower)
    moreover have "(256 :: nat) ^ (8 - lead b) \<le> 256 ^ (7 - lead a)"
      using l by (intro power_increasing) auto
    ultimately show False
      using ab lead_upper [of b] by linarith
  qed
  then consider "lead b < lead a" | "lead a = lead b"
    by linarith
  then show ?thesis
  proof cases
    case 1
    then have "8 - lead a < 8 - lead b"
      using lead_le [of a] by linarith
    then show ?thesis
      by (simp add: ea eb)
  next
    case 2
    then have "length (drop (lead a) (PutUint64 a)) = length (drop (lead b) (PutUint64 b))"
      by simp
    then have "bytes_less (drop (lead a) (PutUint64 a) @ r) (drop (lead b) (PutUint64 b) @ s)"
      by (rule bytes_less_be_value) (simp only: be_value_drop_lead ab)
    with 2 show ?thesis
      by (simp add: ea eb)
  qed
qed

lemma encode_order:
  assumes "varint_law w" "EncodeOrderPreservingVarUint64 w a = Some ea"
    "EncodeOrderPreservingVarUint64 w b = Some eb"
  shows "bytes_less (ea @ r) (eb @ s) \<longleftrightarrow> a < b \<or> a = b \<and> bytes_less r s"
proof (cases a b rule: linorder_cases)
  case less
  then show ?thesis using encode_less [OF assms] by blast
next
  case equal
  with assms show ?thesis by simp
next
  case greater
  then have "bytes_less (eb @ s) (ea @ r)"
    using encode_less [OF assms(1,3,2)] by blast
  with greater show ?thesis
    using bytes_less_asym by auto
qed

section \<open>Heights and checkpoint keys\<close>

lemma encode_total: "varint_law w \<Longrightarrow> \<exists>e. EncodeOrderPreservingVarUint64 w n = Some e"
  by (simp add: encode_lead)

lemma unat_ucast_u32: "unat (ucast (t :: u32) :: u64) = unat t"
  using unsigned_less [of t, where 'a = nat] by (simp add: unsigned_ucast_eq take_bit_nat_eq_self)

lemma ucast_u32_u64 [simp]: "ucast (ucast (t :: u32) :: u64) = t"
proof -
  have "unat (ucast (ucast t :: u64) :: u32) = take_bit 32 (unat t)"
    by (simp add: unsigned_ucast_eq [of "ucast t :: u64"] unat_ucast_u32)
  also have "\<dots> = unat t"
    using unsigned_less [of t, where 'a = nat] by (simp add: take_bit_nat_eq_self)
  finally show ?thesis by (simp add: word_unat_eq_iff)
qed

lemma ucast_u64_less [simp]: "(ucast (s :: u32) :: u64) < ucast t \<longleftrightarrow> s < t"
  by (simp add: word_less_nat_alt unat_ucast_u32)

lemma ToBytes_encode:
  assumes "varint_law w" "ToBytes w h = Some b"
  obtains e1 e2 where "EncodeOrderPreservingVarUint64 w (h_block_num h) = Some e1"
    "EncodeOrderPreservingVarUint64 w (ucast (h_tx_num h)) = Some e2" "b = e1 @ e2"
  using assms by (auto simp: ToBytes_def split: option.splits)

lemma NewHeightFromBytes_ToBytes:
  assumes "varint_law w" "ToBytes w h = Some b"
  shows "NewHeightFromBytes w (b @ rest) = Inr (h, length b)"
proof -
  obtain e1 e2 where e: "EncodeOrderPreservingVarUint64 w (h_block_num h) = Some e1"
    "EncodeOrderPreservingVarUint64 w (ucast (h_tx_num h)) = Some e2" "b = e1 @ e2"
    using assms by (rule ToBytes_encode)
  show ?thesis
    using decode_encode_append [OF assms(1) e(1), of "e2 @ rest"]
      decode_encode_append [OF assms(1) e(2), of rest]
    by (simp add: NewHeightFromBytes_def NewHeight_def e(3))
qed

lemma ToBytes_total: "varint_law w \<Longrightarrow> \<exists>b. ToBytes w h = Some b"
  by (simp add: ToBytes_def encode_lead)

lemma ToBytes_inject:
  assumes "varint_law w" "ToBytes w h = ToBytes w h'"
  shows "h = h'"
  using ToBytes_total [OF assms(1), of h] NewHeightFromBytes_ToBytes [OF assms(1), of h _ "[]"]
    NewHeightFromBytes_ToBytes [OF assms(1), of h' _ "[]"] assms(2)
  by auto

lemma BlockNumFromCheckpointKey_CheckpointKey:
  "varint_law w \<Longrightarrow> CheckpointKey w n = Some k \<Longrightarrow> BlockNumFromCheckpointKey w k = Inr n"
  using decode_encode_append [of w n k "[]"] by (simp add: BlockNumFromCheckpointKey_def CheckpointKey_def)

lemma WithStatus_simps [simp]:
  "st_status (WithStatus h i s) = s" "ref_tx_id (st_ref (WithStatus h i s)) = i"
  "ref_block_num (st_ref (WithStatus h i s)) = h_block_num h"
  "ref_tx_num (st_ref (WithStatus h i s)) = h_tx_num h"
  by (simp_all add: WithStatus_def)

section \<open>Properties\<close>

text \<open>
  C9: every transaction height has a byte form, and reading it back, whatever bytes follow, returns
  the height and the number of bytes it occupies.
\<close>

theorem height_bytes_roundtrip:
  assumes "varint_law w"
  shows "\<exists>b. ToBytes w h = Some b \<and> (\<forall>rest. NewHeightFromBytes w (b @ rest) = Inr (h, length b))"
  using ToBytes_total [OF assms, of h] NewHeightFromBytes_ToBytes [OF assms, of h] by blast

theorem height_bytes_roundtrip_witness:
  "varint_law ref_wire \<and>
   (\<exists>b. ToBytes ref_wire \<lparr>h_block_num = 700, h_tx_num = 3\<rparr> = Some b \<and>
     (\<forall>rest. NewHeightFromBytes ref_wire (b @ rest) = Inr (\<lparr>h_block_num = 700, h_tx_num = 3\<rparr>, length b)))"
  using height_bytes_roundtrip [OF ref_wire_varint, of "\<lparr>h_block_num = 700, h_tx_num = 3\<rparr>"] by simp

text \<open>
  C10: the byte order of the database on stored heights is the order of the blockchain: block numbers
  first, then the transaction numbers inside a block.
\<close>

theorem height_bytes_order:
  assumes "varint_law w" "ToBytes w h1 = Some b1" "ToBytes w h2 = Some b2"
  shows "bytes_less b1 b2 \<longleftrightarrow>
    h_block_num h1 < h_block_num h2 \<or>
    h_block_num h1 = h_block_num h2 \<and> h_tx_num h1 < h_tx_num h2"
proof -
  obtain e1 e2 where e: "EncodeOrderPreservingVarUint64 w (h_block_num h1) = Some e1"
    "EncodeOrderPreservingVarUint64 w (ucast (h_tx_num h1)) = Some e2" "b1 = e1 @ e2"
    using assms(1,2) by (rule ToBytes_encode)
  obtain f1 f2 where f: "EncodeOrderPreservingVarUint64 w (h_block_num h2) = Some f1"
    "EncodeOrderPreservingVarUint64 w (ucast (h_tx_num h2)) = Some f2" "b2 = f1 @ f2"
    using assms(1,3) by (rule ToBytes_encode)
  show ?thesis
    using encode_order [OF assms(1) e(1) f(1), of e2 f2]
      encode_order [OF assms(1) e(2) f(2), of "[]" "[]"]
    by (simp add: e(3) f(3))
qed

theorem height_bytes_order_witness:
  "\<exists>b1 b2. ToBytes ref_wire \<lparr>h_block_num = 255, h_tx_num = 9\<rparr> = Some b1 \<and>
     ToBytes ref_wire \<lparr>h_block_num = 256, h_tx_num = 0\<rparr> = Some b2 \<and> bytes_less b1 b2"
proof -
  obtain b1 b2 where b: "ToBytes ref_wire \<lparr>h_block_num = 255, h_tx_num = 9\<rparr> = Some b1"
    "ToBytes ref_wire \<lparr>h_block_num = 256, h_tx_num = 0\<rparr> = Some b2"
    using ToBytes_total [OF ref_wire_varint] by blast
  then show ?thesis
    using height_bytes_order [OF ref_wire_varint b] by simp
qed

text \<open>
  C11: a checkpoint key is not the only key of its block. For every block number below two to the 56
  there is a second key, longer than the canonical one, that the code accepts and decodes to the same
  block, so two checkpoint transactions for one snapshot can be written under different keys.
\<close>

theorem checkpoint_key_not_unique:
  assumes "varint_law w" "unat n < 2 ^ 56"
  shows "\<exists>k k'. CheckpointKey w n = Some k \<and> k' \<noteq> k \<and>
    BlockNumFromCheckpointKey w k = Inr n \<and> BlockNumFromCheckpointKey w k' = Inr n"
proof -
  let ?k = "char_of (8 - lead n) # drop (lead n) (PutUint64 n)"
  let ?k' = "char_of (8 :: nat) # PutUint64 n"
  have k: "CheckpointKey w n = Some ?k"
    using assms(1) by (simp add: CheckpointKey_def encode_lead)
  have "lead n \<noteq> 0"
  proof
    assume "lead n = 0"
    then have "256 ^ 7 \<le> unat n"
      using lead_lower [of n] by simp
    with assms(2) show False by simp
  qed
  then have "length ?k' \<noteq> length ?k"
    using lead_le [of n] by simp
  then have ne: "?k' \<noteq> ?k"
    by fastforce
  have "DecodeVarint w ?k' = (8, 1)"
    using assms(1) by (auto simp: varint_law_def)
  then have "BlockNumFromCheckpointKey w ?k' = Inr n"
    by (simp add: BlockNumFromCheckpointKey_def DecodeOrderPreservingVarUint64_def)
  with k ne BlockNumFromCheckpointKey_CheckpointKey [OF assms(1) k] show ?thesis
    by blast
qed

theorem checkpoint_key_not_unique_witness:
  "\<exists>k k'. CheckpointKey ref_wire 5 = Some k \<and> k' \<noteq> k \<and>
     BlockNumFromCheckpointKey ref_wire k = Inr 5 \<and> BlockNumFromCheckpointKey ref_wire k' = Inr 5"
  by (rule checkpoint_key_not_unique) simp_all

end
