(* ===== verification/Dep_Detector.thy ===== *)
theory Dep_Detector
  imports Ordered_Encoding
begin

text \<open>
  The keys of a transaction (\<open>readAndWriteKeys\<close> and \<open>constructCompositeKey\<close> of
  \<open>dependencygraph/transaction_node.go\<close>) and the dependency detector
  (\<open>dependencygraph/dependency_detector.go\<close>). A transaction node is an address (a \<open>nat\<close>); a
  \<open>transactionMap\<close>, a Go map used as a set of node pointers, is a list without repetition.
  The locale \<open>conflict_index\<close> states what the graph relies on: a query returns exactly the tracked
  nodes that conflict with the given keys. The detector is an interpretation of it.
\<close>

section \<open>Keys\<close>

definition constructCompositeKey :: "string \<Rightarrow> bytes \<Rightarrow> string" where
  "constructCompositeKey ns key = char_of (length ns) # ns @ key"

record readWriteKeys =
  readsOnly :: "string list"
  writesOnly :: "string list"
  readsAndWrites :: "string list"

definition noKeys :: readWriteKeys where
  "noKeys = \<lparr>readsOnly = [], writesOnly = [], readsAndWrites = []\<rparr>"

text \<open>One round of the loop over the namespaces of a transaction.\<close>

definition addNamespaceKeys :: "wire \<Rightarrow> TxNamespace \<Rightarrow> readWriteKeys \<Rightarrow> readWriteKeys" where
  "addNamespaceKeys w ns k =
     \<lparr>readsOnly = readsOnly k
        @ (if \<not> IsSystemNamespace w (ns_id ns)
           then [constructCompositeKey MetaNamespaceID (ns_id ns)] else [])
        @ map (\<lambda>ro. constructCompositeKey (ns_id ns) (r_key ro)) (ns_reads_only ns),
      writesOnly = writesOnly k
        @ map (\<lambda>wr. constructCompositeKey (ns_id ns) (w_key wr)) (ns_blind_writes ns),
      readsAndWrites = readsAndWrites k
        @ map (\<lambda>rw. constructCompositeKey (ns_id ns) (rw_key rw)) (ns_read_writes ns)\<rparr>"

definition readAndWriteKeys :: "wire \<Rightarrow> TxNamespace list \<Rightarrow> readWriteKeys" where
  "readAndWriteKeys w nss = fold (addNamespaceKeys w) nss noKeys"

definition rwKeysSize :: "readWriteKeys \<Rightarrow> nat" where
  "rwKeysSize rw = length (readsOnly rw) + length (readsAndWrites rw) + length (writesOnly rw)"

section \<open>The detector\<close>

type_synonym keyToTransactions = "string \<rightharpoonup> nat list"

record dependencyDetector =
  readOnlyKeyToWaitingTxs :: keyToTransactions
  writeOnlyKeyToWaitingTxs :: keyToTransactions
  readWriteKeyToWaitingTxs :: keyToTransactions

definition newDependencyDetector :: dependencyDetector where
  "newDependencyDetector =
     \<lparr>readOnlyKeyToWaitingTxs = Map.empty, writeOnlyKeyToWaitingTxs = Map.empty,
      readWriteKeyToWaitingTxs = Map.empty\<rparr>"

text \<open>\<open>keyToTx[k]\<close>: the nil map, with no element, when the key is absent.\<close>

definition txsAt :: "keyToTransactions \<Rightarrow> string \<Rightarrow> nat list" where
  "txsAt m k = (case m k of None \<Rightarrow> [] | Some l \<Rightarrow> l)"

definition copyTxs :: "nat list \<Rightarrow> nat list \<Rightarrow> nat list" where
  "copyTxs dest src = fold List.insert src dest"

definition getDependenciesOf :: "dependencyDetector \<Rightarrow> readWriteKeys \<Rightarrow> nat list" where
  "getDependenciesOf d rk =
     (let readDeps = fold (\<lambda>k deps.
            copyTxs (copyTxs deps (txsAt (writeOnlyKeyToWaitingTxs d) k))
              (txsAt (readWriteKeyToWaitingTxs d) k)) (readsOnly rk) [];
          writeDeps = fold (\<lambda>k deps.
            copyTxs (copyTxs (copyTxs deps (txsAt (readOnlyKeyToWaitingTxs d) k))
              (txsAt (writeOnlyKeyToWaitingTxs d) k)) (txsAt (readWriteKeyToWaitingTxs d) k))
      in writeDeps (readsAndWrites rk) (writeDeps (writesOnly rk) readDeps))"

definition keyToTx_add :: "string list \<Rightarrow> nat \<Rightarrow> keyToTransactions \<Rightarrow> keyToTransactions" where
  "keyToTx_add keys tx m = fold (\<lambda>k m. m(k \<mapsto> List.insert tx (txsAt m k))) keys m"

definition keyToTx_remove1 :: "nat \<Rightarrow> string \<Rightarrow> keyToTransactions \<Rightarrow> keyToTransactions" where
  "keyToTx_remove1 tx k m =
     (if length (txsAt m k) = 1 then m(k := None)
      else if length (txsAt m k) = 0 then m
      else m(k \<mapsto> remove1 tx (txsAt m k)))"

definition keyToTx_remove :: "string list \<Rightarrow> nat \<Rightarrow> keyToTransactions \<Rightarrow> keyToTransactions" where
  "keyToTx_remove keys tx m = fold (keyToTx_remove1 tx) keys m"

text \<open>The entries of the input map are independent of each other, so their order plays no role.\<close>

definition keyToTx_merge :: "keyToTransactions \<Rightarrow> keyToTransactions \<Rightarrow> keyToTransactions" where
  "keyToTx_merge m inputKeyToTx = (\<lambda>k.
     case inputKeyToTx k of
       None \<Rightarrow> m k
     | Some srcTxList \<Rightarrow>
         (case m k of
            None \<Rightarrow> Some srcTxList
          | Some destTxList \<Rightarrow> Some (fold List.insert srcTxList destTxList)))"

definition addWaitingTx :: "nat \<Rightarrow> readWriteKeys \<Rightarrow> dependencyDetector \<Rightarrow> dependencyDetector" where
  "addWaitingTx tx rk d =
     \<lparr>readOnlyKeyToWaitingTxs = keyToTx_add (readsOnly rk) tx (readOnlyKeyToWaitingTxs d),
      writeOnlyKeyToWaitingTxs = keyToTx_add (writesOnly rk) tx (writeOnlyKeyToWaitingTxs d),
      readWriteKeyToWaitingTxs = keyToTx_add (readsAndWrites rk) tx (readWriteKeyToWaitingTxs d)\<rparr>"

definition mergeWaitingTx :: "dependencyDetector \<Rightarrow> dependencyDetector \<Rightarrow> dependencyDetector" where
  "mergeWaitingTx d i =
     \<lparr>readOnlyKeyToWaitingTxs =
        keyToTx_merge (readOnlyKeyToWaitingTxs d) (readOnlyKeyToWaitingTxs i),
      writeOnlyKeyToWaitingTxs =
        keyToTx_merge (writeOnlyKeyToWaitingTxs d) (writeOnlyKeyToWaitingTxs i),
      readWriteKeyToWaitingTxs =
        keyToTx_merge (readWriteKeyToWaitingTxs d) (readWriteKeyToWaitingTxs i)\<rparr>"

definition removeWaitingTx1 :: "(nat \<Rightarrow> readWriteKeys) \<Rightarrow> nat \<Rightarrow> dependencyDetector \<Rightarrow> dependencyDetector" where
  "removeWaitingTx1 ks tx d =
     \<lparr>readOnlyKeyToWaitingTxs = keyToTx_remove (readsOnly (ks tx)) tx (readOnlyKeyToWaitingTxs d),
      writeOnlyKeyToWaitingTxs = keyToTx_remove (writesOnly (ks tx)) tx (writeOnlyKeyToWaitingTxs d),
      readWriteKeyToWaitingTxs =
        keyToTx_remove (readsAndWrites (ks tx)) tx (readWriteKeyToWaitingTxs d)\<rparr>"

text \<open>\<open>ks\<close> gives the keys held by the node at an address.\<close>

definition removeWaitingTx :: "(nat \<Rightarrow> readWriteKeys) \<Rightarrow> nat list \<Rightarrow> dependencyDetector \<Rightarrow> dependencyDetector" where
  "removeWaitingTx ks txs d = fold (removeWaitingTx1 ks) txs d"

section \<open>What the detector promises\<close>

text \<open>
  Two transactions conflict when one writes a key the other reads or writes. The graph serialises
  every such pair; two reads of one key do not conflict.
\<close>

definition key_reads :: "readWriteKeys \<Rightarrow> string set" where
  "key_reads rk = set (readsOnly rk) \<union> set (readsAndWrites rk)"

definition key_writes :: "readWriteKeys \<Rightarrow> string set" where
  "key_writes rk = set (writesOnly rk) \<union> set (readsAndWrites rk)"

definition conflicts :: "readWriteKeys \<Rightarrow> readWriteKeys \<Rightarrow> bool" where
  "conflicts a b \<longleftrightarrow>
     key_writes a \<inter> (key_reads b \<union> key_writes b) \<noteq> {} \<or> key_reads a \<inter> key_writes b \<noteq> {}"

text \<open>No list of keys of the transaction holds a key twice.\<close>

definition distinct_keys :: "readWriteKeys \<Rightarrow> bool" where
  "distinct_keys rk \<longleftrightarrow>
     distinct (readsOnly rk) \<and> distinct (writesOnly rk) \<and> distinct (readsAndWrites rk)"

lemma conflicts_sym: "conflicts a b \<longleftrightarrow> conflicts b a"
  by (auto simp: conflicts_def)

text \<open>
  The interface: \<open>tracks d N ks\<close> says that the index \<open>d\<close> holds the nodes \<open>N\<close> with the keys \<open>ks\<close>.
\<close>

locale conflict_index =
  fixes empty :: 'd
    and deps :: "'d \<Rightarrow> readWriteKeys \<Rightarrow> nat list"
    and add :: "nat \<Rightarrow> readWriteKeys \<Rightarrow> 'd \<Rightarrow> 'd"
    and merge :: "'d \<Rightarrow> 'd \<Rightarrow> 'd"
    and remove :: "(nat \<Rightarrow> readWriteKeys) \<Rightarrow> nat list \<Rightarrow> 'd \<Rightarrow> 'd"
    and tracks :: "'d \<Rightarrow> nat set \<Rightarrow> (nat \<Rightarrow> readWriteKeys) \<Rightarrow> bool"
  assumes tracks_empty: "tracks empty {} ks"
    and deps_set: "tracks d N ks \<Longrightarrow> set (deps d rk) = {n \<in> N. conflicts (ks n) rk}"
    and deps_distinct: "tracks d N ks \<Longrightarrow> distinct (deps d rk)"
    and tracks_add: "tracks d N ks \<Longrightarrow> n \<notin> N \<Longrightarrow> tracks (add n (ks n) d) (insert n N) ks"
    and tracks_merge: "tracks d N ks \<Longrightarrow> tracks i M ks \<Longrightarrow> N \<inter> M = {} \<Longrightarrow> tracks (merge d i) (N \<union> M) ks"
    and tracks_remove: "tracks d N ks \<Longrightarrow> set ns \<subseteq> N \<Longrightarrow> distinct ns \<Longrightarrow>
      \<forall>n \<in> set ns. distinct_keys (ks n) \<Longrightarrow> tracks (remove ks ns d) (N - set ns) ks"
    and tracks_cong: "tracks d N ks \<Longrightarrow> (\<And>n. n \<in> N \<Longrightarrow> ks' n = ks n) \<Longrightarrow> tracks d N ks'"
begin

lemma tracks_add_list:
  "tracks d N ks \<Longrightarrow> distinct ns \<Longrightarrow> N \<inter> set ns = {} \<Longrightarrow>
   tracks (fold (\<lambda>n. add n (ks n)) ns d) (N \<union> set ns) ks"
proof (induction ns arbitrary: d N)
  case (Cons n ns)
  have "tracks (add n (ks n) d) (insert n N) ks"
    using Cons.prems by (intro tracks_add) auto
  with Cons.prems Cons.IH [of "add n (ks n) d" "insert n N"] show ?case
    by simp
qed simp

text \<open>A batch indexed on its own and merged is tracked as if its nodes had been added one by one.\<close>

lemma tracks_merge_batch:
  "tracks d N ks \<Longrightarrow> distinct ns \<Longrightarrow> N \<inter> set ns = {} \<Longrightarrow>
   tracks (merge d (fold (\<lambda>n. add n (ks n)) ns empty)) (N \<union> set ns) ks"
  using tracks_add_list [OF tracks_empty, of ns ks] by (intro tracks_merge) simp_all

lemma deps_none_iff: "tracks d N ks \<Longrightarrow> deps d rk = [] \<longleftrightarrow> (\<forall>n \<in> N. \<not> conflicts (ks n) rk)"
  using deps_set [of d N ks rk] by (metis (mono_tags, lifting) empty_Collect_eq set_empty)

end

section \<open>Correctness of one key map\<close>

text \<open>
  \<open>key_map_ok m N f\<close>: at every key the map holds exactly the nodes of \<open>N\<close> that have the key in
  their list \<open>f\<close>, without repetition, and no key is kept for an empty set.
\<close>

definition key_map_ok :: "keyToTransactions \<Rightarrow> nat set \<Rightarrow> (nat \<Rightarrow> string list) \<Rightarrow> bool" where
  "key_map_ok m N f \<longleftrightarrow>
     (\<forall>k. set (txsAt m k) = {n \<in> N. k \<in> set (f n)} \<and> distinct (txsAt m k) \<and> m k \<noteq> Some [])"

lemma key_map_ok_cong:
  assumes "key_map_ok m N f" "\<And>n. n \<in> N \<Longrightarrow> f n = g n"
  shows "key_map_ok m N g"
proof -
  have "{n \<in> N. k \<in> set (g n)} = {n \<in> N. k \<in> set (f n)}" for k
    using assms(2) by auto
  with assms(1) show ?thesis
    by (simp add: key_map_ok_def)
qed

lemma txsAt_upd [simp]: "txsAt (m(k \<mapsto> l)) k' = (if k' = k then l else txsAt m k')"
  by (simp add: txsAt_def)

lemma txsAt_del [simp]: "txsAt (m(k := None)) k' = (if k' = k then [] else txsAt m k')"
  by (simp add: txsAt_def)

lemma txsAt_empty [simp]: "txsAt Map.empty k = []"
  by (simp add: txsAt_def)

lemma txsAt_keyToTx_add:
  "txsAt (keyToTx_add keys tx m) k = (if k \<in> set keys then List.insert tx (txsAt m k) else txsAt m k)"
  by (induction keys arbitrary: m) (auto simp: keyToTx_add_def)

lemma keyToTx_add_nonempty:
  "(\<And>k. m k \<noteq> Some []) \<Longrightarrow> keyToTx_add keys tx m k \<noteq> Some []"
proof (induction keys arbitrary: m)
  case (Cons k' keys)
  have "(m(k' \<mapsto> List.insert tx (txsAt m k'))) k \<noteq> Some []" for k
    using Cons.prems [of k] by (auto simp: List.insert_def split: if_splits)
  then have "keyToTx_add keys tx (m(k' \<mapsto> List.insert tx (txsAt m k'))) k \<noteq> Some []"
    by (rule Cons.IH)
  then show ?case
    by (simp add: keyToTx_add_def)
qed (simp add: keyToTx_add_def)

lemma key_map_ok_add:
  assumes "key_map_ok m N f" "n \<notin> N"
  shows "key_map_ok (keyToTx_add (f n) n m) (insert n N) f"
  using assms keyToTx_add_nonempty [of m] by (auto simp: key_map_ok_def txsAt_keyToTx_add)

lemma key_map_ok_merge:
  assumes "key_map_ok m N f" "key_map_ok i M f"
  shows "key_map_ok (keyToTx_merge m i) (N \<union> M) f"
proof -
  have "set (txsAt (keyToTx_merge m i) k) = set (txsAt m k) \<union> set (txsAt i k)" for k
    by (cases "m k"; cases "i k") (auto simp: txsAt_def keyToTx_merge_def)
  moreover have "distinct (txsAt (keyToTx_merge m i) k)"
    if "distinct (txsAt m k)" "distinct (txsAt i k)" for k
    using that by (cases "m k"; cases "i k") (auto simp: txsAt_def keyToTx_merge_def)
  moreover have "keyToTx_merge m i k \<noteq> Some []" if "m k \<noteq> Some []" "i k \<noteq> Some []" for k
  proof (cases "m k"; cases "i k")
    fix a b assume "m k = Some a" "i k = Some b"
    moreover have "fold List.insert b a \<noteq> []"
      using that calculation set_fold_insert [of b a] by (metis Un_empty option.inject set_empty)
    ultimately show ?thesis by (simp add: keyToTx_merge_def)
  qed (use that in \<open>auto simp: keyToTx_merge_def\<close>)
  ultimately show ?thesis
    using assms by (auto simp: key_map_ok_def)
qed

lemma txsAt_keyToTx_remove1:
  "txsAt (keyToTx_remove1 tx k m) k' =
     (if k' = k then if length (txsAt m k) = 1 then [] else remove1 tx (txsAt m k) else txsAt m k')"
  by (auto simp: keyToTx_remove1_def)

lemma keyToTx_remove1_nonempty:
  assumes "\<And>k. m k \<noteq> Some []" "distinct (txsAt m k)"
  shows "keyToTx_remove1 tx k m k' \<noteq> Some []"
proof (cases "k' = k \<and> 2 \<le> length (txsAt m k)")
  case True
  have "length (remove1 tx (txsAt m k)) \<ge> length (txsAt m k) - 1"
    by (simp add: length_remove1)
  with True show ?thesis
    by (auto simp: keyToTx_remove1_def)
next
  case False
  then have "k' \<noteq> k \<or> length (txsAt m k) = 0 \<or> length (txsAt m k) = 1"
    by linarith
  with assms(1) show ?thesis
    by (auto simp: keyToTx_remove1_def)
qed

lemma txsAt_keyToTx_remove:
  "distinct keys \<Longrightarrow> txsAt (keyToTx_remove keys tx m) k =
     (if k \<in> set keys then if length (txsAt m k) = 1 then [] else remove1 tx (txsAt m k) else txsAt m k)"
  by (induction keys arbitrary: m) (auto simp: keyToTx_remove_def txsAt_keyToTx_remove1)

lemma keyToTx_remove_nonempty:
  "(\<And>k. m k \<noteq> Some []) \<Longrightarrow> (\<And>k. distinct (txsAt m k)) \<Longrightarrow> keyToTx_remove keys tx m k \<noteq> Some []"
proof (induction keys arbitrary: m)
  case (Cons k' keys)
  let ?m = "keyToTx_remove1 tx k' m"
  have "?m k \<noteq> Some []" "distinct (txsAt ?m k)" for k
    using Cons.prems keyToTx_remove1_nonempty [of m k' tx k] by (auto simp: txsAt_keyToTx_remove1)
  with Cons.IH [of ?m] show ?case
    by (simp add: keyToTx_remove_def)
qed (simp add: keyToTx_remove_def)

lemma key_map_ok_remove:
  assumes ok: "key_map_ok m N f" and "n \<in> N" "distinct (f n)"
  shows "key_map_ok (keyToTx_remove (f n) n m) (N - {n}) f"
proof -
  have "set (txsAt (keyToTx_remove (f n) n m) k) = {x \<in> N - {n}. k \<in> set (f x)}" for k
  proof (cases "k \<in> set (f n)")
    case True
    then have mem: "n \<in> set (txsAt m k)" and d: "distinct (txsAt m k)"
      and s: "set (txsAt m k) = {x \<in> N. k \<in> set (f x)}"
      using ok assms(2) by (auto simp: key_map_ok_def)
    show ?thesis
    proof (cases "length (txsAt m k) = 1")
      case one: True
      with length_eq_1_distinct [OF d mem] have "set (txsAt m k) = {n}" by simp
      with s have "{x \<in> N - {n}. k \<in> set (f x)} = {}" by blast
      with one True assms(3) show ?thesis by (simp add: txsAt_keyToTx_remove)
    next
      case False
      with True assms(3) d s show ?thesis by (auto simp: txsAt_keyToTx_remove)
    qed
  next
    case False
    with ok assms(3) show ?thesis by (auto simp: txsAt_keyToTx_remove key_map_ok_def)
  qed
  with ok assms(3) keyToTx_remove_nonempty [of m "f n" n] show ?thesis
    by (simp add: key_map_ok_def txsAt_keyToTx_remove)
qed

section \<open>Correctness of the detector\<close>

definition tracks :: "dependencyDetector \<Rightarrow> nat set \<Rightarrow> (nat \<Rightarrow> readWriteKeys) \<Rightarrow> bool" where
  "tracks d N ks \<longleftrightarrow>
     key_map_ok (readOnlyKeyToWaitingTxs d) N (\<lambda>n. readsOnly (ks n)) \<and>
     key_map_ok (writeOnlyKeyToWaitingTxs d) N (\<lambda>n. writesOnly (ks n)) \<and>
     key_map_ok (readWriteKeyToWaitingTxs d) N (\<lambda>n. readsAndWrites (ks n))"

lemma set_copyTxs [simp]: "set (copyTxs a b) = set a \<union> set b"
  by (auto simp: copyTxs_def)

lemma distinct_copyTxs [simp]: "distinct a \<Longrightarrow> distinct (copyTxs a b)"
  by (simp add: copyTxs_def)

lemma set_fold_copy:
  assumes "\<And>k l. set (f k l) = set l \<union> g k"
  shows "set (fold f ks l) = set l \<union> (\<Union>k \<in> set ks. g k)"
  using assms by (induction ks arbitrary: l) auto

lemma set_getDependenciesOf:
  "set (getDependenciesOf d rk) =
     (\<Union>k \<in> set (readsOnly rk). set (txsAt (writeOnlyKeyToWaitingTxs d) k)
        \<union> set (txsAt (readWriteKeyToWaitingTxs d) k)) \<union>
     (\<Union>k \<in> key_writes rk. set (txsAt (readOnlyKeyToWaitingTxs d) k)
        \<union> set (txsAt (writeOnlyKeyToWaitingTxs d) k) \<union> set (txsAt (readWriteKeyToWaitingTxs d) k))"
proof -
  let ?R = "\<lambda>k. set (txsAt (writeOnlyKeyToWaitingTxs d) k) \<union> set (txsAt (readWriteKeyToWaitingTxs d) k)"
  let ?W = "\<lambda>k. set (txsAt (readOnlyKeyToWaitingTxs d) k) \<union> ?R k"
  let ?fr = "\<lambda>k deps. copyTxs (copyTxs deps (txsAt (writeOnlyKeyToWaitingTxs d) k))
              (txsAt (readWriteKeyToWaitingTxs d) k)"
  let ?fw = "\<lambda>k deps. copyTxs (copyTxs (copyTxs deps (txsAt (readOnlyKeyToWaitingTxs d) k))
              (txsAt (writeOnlyKeyToWaitingTxs d) k)) (txsAt (readWriteKeyToWaitingTxs d) k)"
  have "set (fold ?fr ks l) = set l \<union> (\<Union>k \<in> set ks. ?R k)" for ks l
    by (rule set_fold_copy) auto
  moreover have "set (fold ?fw ks l) = set l \<union> (\<Union>k \<in> set ks. ?W k)" for ks l
    by (rule set_fold_copy) auto
  ultimately show ?thesis
    by (auto simp: getDependenciesOf_def Let_def key_writes_def)
qed

lemma distinct_getDependenciesOf: "distinct (getDependenciesOf d rk)"
proof -
  have "distinct l \<Longrightarrow> distinct (fold f ks l)"
    if "\<And>k l. distinct l \<Longrightarrow> distinct (f k l)" for f :: "string \<Rightarrow> nat list \<Rightarrow> nat list" and ks l
    using that by (induction ks arbitrary: l) auto
  then show ?thesis
    by (simp add: getDependenciesOf_def Let_def)
qed

lemma tracks_getDependenciesOf:
  assumes "tracks d N ks"
  shows "set (getDependenciesOf d rk) = {n \<in> N. conflicts (ks n) rk}"
  using assms unfolding set_getDependenciesOf
  by (auto simp: tracks_def key_map_ok_def conflicts_def key_reads_def key_writes_def)

lemma tracks_removeWaitingTx1:
  assumes "tracks d N ks" "n \<in> N" "distinct_keys (ks n)"
  shows "tracks (removeWaitingTx1 ks n d) (N - {n}) ks"
  using assms key_map_ok_remove [of _ N "\<lambda>n. readsOnly (ks n)" n]
    key_map_ok_remove [of _ N "\<lambda>n. writesOnly (ks n)" n]
    key_map_ok_remove [of _ N "\<lambda>n. readsAndWrites (ks n)" n]
  by (auto simp: tracks_def removeWaitingTx1_def distinct_keys_def)

lemma tracks_removeWaitingTx:
  "tracks d N ks \<Longrightarrow> set ns \<subseteq> N \<Longrightarrow> distinct ns \<Longrightarrow> \<forall>n \<in> set ns. distinct_keys (ks n) \<Longrightarrow>
   tracks (removeWaitingTx ks ns d) (N - set ns) ks"
proof (induction ns arbitrary: d N)
  case (Cons n ns)
  have "tracks (removeWaitingTx1 ks n d) (N - {n}) ks"
    using Cons.prems by (intro tracks_removeWaitingTx1) auto
  moreover have "set ns \<subseteq> N - {n}"
    using Cons.prems by auto
  ultimately have "tracks (removeWaitingTx ks ns (removeWaitingTx1 ks n d)) (N - {n} - set ns) ks"
    using Cons.prems by (intro Cons.IH) auto
  moreover have "N - {n} - set ns = N - set (n # ns)"
    by auto
  ultimately show ?case
    by (simp add: removeWaitingTx_def)
qed (simp add: removeWaitingTx_def)

interpretation dd: conflict_index newDependencyDetector getDependenciesOf addWaitingTx mergeWaitingTx
  removeWaitingTx tracks
proof unfold_locales
  fix d i :: dependencyDetector and N M :: "nat set" and ks ks' :: "nat \<Rightarrow> readWriteKeys"
    and rk :: readWriteKeys and n :: nat and ns :: "nat list"
  show "tracks newDependencyDetector {} ks"
    by (simp add: tracks_def key_map_ok_def newDependencyDetector_def)
  show "tracks d N ks \<Longrightarrow> set (getDependenciesOf d rk) = {n \<in> N. conflicts (ks n) rk}"
    by (rule tracks_getDependenciesOf)
  show "distinct (getDependenciesOf d rk)"
    by (rule distinct_getDependenciesOf)
  show "tracks d N ks \<Longrightarrow> n \<notin> N \<Longrightarrow> tracks (addWaitingTx n (ks n) d) (insert n N) ks"
    using key_map_ok_add [of _ N "\<lambda>n. readsOnly (ks n)" n]
      key_map_ok_add [of _ N "\<lambda>n. writesOnly (ks n)" n]
      key_map_ok_add [of _ N "\<lambda>n. readsAndWrites (ks n)" n]
    by (auto simp: tracks_def addWaitingTx_def)
  show "tracks d N ks \<Longrightarrow> tracks i M ks \<Longrightarrow> tracks (mergeWaitingTx d i) (N \<union> M) ks"
    by (auto simp: tracks_def mergeWaitingTx_def intro: key_map_ok_merge)
  show "tracks d N ks \<Longrightarrow> set ns \<subseteq> N \<Longrightarrow> distinct ns \<Longrightarrow> \<forall>n \<in> set ns. distinct_keys (ks n) \<Longrightarrow>
      tracks (removeWaitingTx ks ns d) (N - set ns) ks"
    by (rule tracks_removeWaitingTx)
  show "tracks d N ks \<Longrightarrow> (\<And>n. n \<in> N \<Longrightarrow> ks' n = ks n) \<Longrightarrow> tracks d N ks'"
    by (auto simp: tracks_def intro: key_map_ok_cong)
qed

lemma tracks_none:
  assumes "tracks d {} ks"
  shows "d = newDependencyDetector"
proof -
  have "m = Map.empty" if "key_map_ok m {} f" for m f
  proof
    fix k
    have "txsAt m k = []" "m k \<noteq> Some []"
      using that by (simp_all add: key_map_ok_def)
    then show "m k = None"
      by (cases "m k") (auto simp: txsAt_def)
  qed
  with assms have "readOnlyKeyToWaitingTxs d = Map.empty" "writeOnlyKeyToWaitingTxs d = Map.empty"
    "readWriteKeyToWaitingTxs d = Map.empty"
    by (auto simp: tracks_def)
  then show ?thesis
    by (cases d) (simp add: newDependencyDetector_def)
qed

section \<open>Composite keys\<close>

lemma constructCompositeKey_inject:
  assumes "length ns < 256" "length ns' < 256"
  shows "constructCompositeKey ns k = constructCompositeKey ns' k' \<longleftrightarrow> ns = ns' \<and> k = k'"
proof
  assume eq: "constructCompositeKey ns k = constructCompositeKey ns' k'"
  then have "of_char (char_of (length ns) :: char) = (of_char (char_of (length ns') :: char) :: nat)"
    by (simp add: constructCompositeKey_def)
  with assms have "length ns = length ns'" by simp
  with eq show "ns = ns' \<and> k = k'"
    by (simp add: constructCompositeKey_def)
qed simp

end
