(* ===== verification/Slots.thy ===== *)
theory Slots
  imports Committer_Prelude
begin

text \<open>
  \<open>utils/slots.go\<close>: the counting semaphore that bounds the transactions in flight. An acquisition
  waits only while no slot at all is free, then takes as many as it asks for, so \<open>available\<close> may go
  below zero. A wait is modelled by \<open>None\<close>: the operation cannot run in that state.
\<close>

record Slots =
  available :: int
  slots_size :: int

definition NewSlots :: "int \<Rightarrow> Slots" where
  "NewSlots sz = \<lparr>available = sz, slots_size = sz\<rparr>"

definition Acquire :: "int \<Rightarrow> Slots \<Rightarrow> Slots option" where
  "Acquire n w = (if available w < 1 then None else Some (w\<lparr>available := available w - n\<rparr>))"

definition Release :: "int \<Rightarrow> Slots \<Rightarrow> Slots" where
  "Release n w = w\<lparr>available := available w + n\<rparr>"

definition WaitTillEmpty :: "Slots \<Rightarrow> Slots option" where
  "WaitTillEmpty w = (if available w < slots_size w then None else Some w)"

text \<open>The slots that are taken.\<close>

definition in_use :: "Slots \<Rightarrow> int" where
  "in_use w = slots_size w - available w"

lemma in_use_simps [simp, step_simps]:
  "in_use (NewSlots sz) = 0"
  "Acquire n w = Some w' \<Longrightarrow> in_use w' = in_use w + n"
  "in_use (Release n w) = in_use w - n"
  by (auto simp: in_use_def NewSlots_def Acquire_def Release_def split: if_splits)

lemma slots_size_simps [simp, step_simps]:
  "slots_size (NewSlots sz) = sz"
  "Acquire n w = Some w' \<Longrightarrow> slots_size w' = slots_size w"
  "slots_size (Release n w) = slots_size w"
  by (auto simp: NewSlots_def Acquire_def Release_def split: if_splits)

lemma Acquire_bound: "Acquire n w = Some w' \<Longrightarrow> in_use w < slots_size w"
  by (auto simp: Acquire_def in_use_def split: if_splits)

lemma WaitTillEmpty_iff: "WaitTillEmpty w = Some w' \<longleftrightarrow> w' = w \<and> in_use w \<le> 0"
  by (auto simp: WaitTillEmpty_def in_use_def)

end
