(* ===== verification/Dep_Graph.thy ===== *)
theory Dep_Graph
  imports Dep_Detector Slots
begin

text \<open>
  The dependency graph of the coordinator: the nodes of \<open>transaction_node.go\<close>, the batch
  construction of \<open>local_dependency_constructor.go\<close> and the manager of
  \<open>global_dependency_manager.go\<close>, composed as \<open>manager.go\<close> composes them. Nodes are shared between
  the batches, the detector and the dependency lists of other nodes, so they live in an explicit
  store indexed by address. Each goroutine is a program counter of the system state, one critical
  section, channel operation or atomic flag operation is one step, and the steps of the goroutines
  interleave freely (\<open>dg_step\<close>). Three components of the state are history: the batches in the order
  they were passed on, the nodes in the order the manager added them, and the nodes whose validation
  has been processed.
\<close>

section \<open>Transaction nodes\<close>

record TransactionNode =
  VCTx :: VcTx
  VerifierTx :: "TxWithRef option"
  dependsOnTxs :: "nat list"
  dependentTxs :: "nat list"
  rwKeys :: readWriteKeys

type_synonym node_store = "nat \<Rightarrow> TransactionNode"

definition newTransactionNode :: "wire \<Rightarrow> TxWithRef \<Rightarrow> TransactionNode" where
  "newTransactionNode w tx =
     \<lparr>VCTx = \<lparr>vc_ref = twr_ref tx, vc_namespaces = tx_namespaces (twr_content tx),
              vc_prelim_invalid = None\<rparr>,
      VerifierTx = Some tx, dependsOnTxs = [], dependentTxs = [],
      rwKeys = readAndWriteKeys w (tx_namespaces (twr_content tx))\<rparr>"

definition NewRejectedTransactionNode :: "TxStatus \<Rightarrow> TransactionNode" where
  "NewRejectedTransactionNode tx =
     \<lparr>VCTx = \<lparr>vc_ref = st_ref tx, vc_namespaces = [], vc_prelim_invalid = Some (st_status tx)\<rparr>,
      VerifierTx = None, dependsOnTxs = [], dependentTxs = [], rwKeys = noKeys\<rparr>"

definition storeDependent :: "nat \<Rightarrow> nat \<Rightarrow> node_store \<Rightarrow> node_store" where
  "storeDependent n depOnTx h =
     h(depOnTx := (h depOnTx)\<lparr>dependentTxs := List.insert n (dependentTxs (h depOnTx))\<rparr>)"

definition addDependenciesAndUpdateDependents :: "nat \<Rightarrow> nat list \<Rightarrow> node_store \<Rightarrow> node_store" where
  "addDependenciesAndUpdateDependents n deps h =
     (if length deps = 0 then h
      else fold (storeDependent n) deps (h(n := (h n)\<lparr>dependsOnTxs := dependsOnTxs (h n) @ deps\<rparr>)))"

definition isDependencyFree :: "nat \<Rightarrow> node_store \<Rightarrow> bool" where
  "isDependencyFree n h \<longleftrightarrow> length (dependsOnTxs (h n)) = 0"

text \<open>
  One round of the loop of \<open>freeDependents\<close>: the first occurrence of \<open>n\<close> leaves the dependent's list.
  The concurrent map yields its keys in some order; the list fixes one.
\<close>

definition freeDependent :: "nat \<Rightarrow> nat \<Rightarrow> nat list \<times> node_store \<Rightarrow> nat list \<times> node_store" where
  "freeDependent n dep = (\<lambda>(freedTxs, h).
     let h' = h(dep := (h dep)\<lparr>dependsOnTxs := remove1 n (dependsOnTxs (h dep))\<rparr>)
     in (if isDependencyFree dep h' then freedTxs @ [dep] else freedTxs, h'))"

definition freeDependents :: "nat \<Rightarrow> node_store \<Rightarrow> nat list \<times> node_store" where
  "freeDependents n h = fold (freeDependent n) (dependentTxs (h n)) ([], h)"

section \<open>Local construction\<close>

record transactionNodeBatch =
  txsNode :: "nat list"
  localDepDetector :: dependencyDetector

text \<open>The loop body of \<open>construct\<close> over a store whose next free address is \<open>nxt\<close>.\<close>

definition construct_tx :: "wire \<Rightarrow> TxWithRef \<Rightarrow> node_store \<times> nat \<times> dependencyDetector \<times> nat list
    \<Rightarrow> node_store \<times> nat \<times> dependencyDetector \<times> nat list" where
  "construct_tx w tx = (\<lambda>(h, nxt, depDetector, nodes).
     let h1 = h(nxt := newTransactionNode w tx);
         deps = getDependenciesOf depDetector (rwKeys (h1 nxt));
         h2 = (if length deps > 0 then addDependenciesAndUpdateDependents nxt deps h1 else h1)
     in (h2, Suc nxt, addWaitingTx nxt (rwKeys (h1 nxt)) depDetector, nodes @ [nxt]))"

definition construct :: "wire \<Rightarrow> TxWithRef list \<Rightarrow> node_store \<Rightarrow> nat \<Rightarrow> node_store \<times> nat \<times> transactionNodeBatch" where
  "construct w txs h nxt =
     (let (h', nxt', depDetector, nodes) = fold (construct_tx w) txs (h, nxt, newDependencyDetector, [])
      in (h', nxt', \<lparr>txsNode = nodes, localDepDetector = depDetector\<rparr>))"

section \<open>The global manager\<close>

record globalDependencyManager =
  dependencyDetector :: Dep_Detector.dependencyDetector
  freedTxsNode :: "nat list"
  freedNonEmpty :: bool
  waitingTxsSlots :: Slots

definition newGlobalDependencyManager :: "nat \<Rightarrow> globalDependencyManager" where
  "newGlobalDependencyManager waitingTxsLimit =
     \<lparr>dependencyDetector = newDependencyDetector, freedTxsNode = [], freedNonEmpty = False,
      waitingTxsSlots = NewSlots (int waitingTxsLimit)\<rparr>"

text \<open>Step 1 of \<open>constructDependencyGraph\<close> for one node.\<close>

definition addTxToGraph :: "Dep_Detector.dependencyDetector \<Rightarrow> nat \<Rightarrow> node_store \<times> nat list \<Rightarrow> node_store \<times> nat list" where
  "addTxToGraph det n = (\<lambda>(h, depFreeTxs).
     let dependsOnTx = getDependenciesOf det (rwKeys (h n))
     in if length dependsOnTx > 0 then (addDependenciesAndUpdateDependents n dependsOnTx h, depFreeTxs)
        else if length (dependsOnTxs (h n)) = 0 then (h, depFreeTxs @ [n])
        else (h, depFreeTxs))"

text \<open>The first half of an iteration of \<open>constructDependencyGraph\<close>: the slots. \<open>None\<close>: no slot is free.\<close>

definition acquireSlots :: "transactionNodeBatch \<Rightarrow> globalDependencyManager \<Rightarrow> globalDependencyManager option" where
  "acquireSlots b dm =
     map_option (\<lambda>slots. dm\<lparr>waitingTxsSlots := slots\<rparr>)
       (Acquire (int (length (txsNode b))) (waitingTxsSlots dm))"

text \<open>
  The critical section of the iteration: the new edges, then the merge of the local detector. The
  last component is the list of dependency-free nodes.
\<close>

definition constructDependencyGraph ::
    "transactionNodeBatch \<Rightarrow> node_store \<Rightarrow> globalDependencyManager
     \<Rightarrow> node_store \<times> globalDependencyManager \<times> nat list" where
  "constructDependencyGraph b h dm =
     (let (h', depFreeTxs) = fold (addTxToGraph (dependencyDetector dm)) (txsNode b) (h, [])
      in (h', dm\<lparr>dependencyDetector := mergeWaitingTx (dependencyDetector dm) (localDepDetector b)\<rparr>,
          depFreeTxs))"

text \<open>\<open>processValidatedTransactions\<close>: the slots, then the critical section.\<close>

definition releaseSlots :: "nat list \<Rightarrow> globalDependencyManager \<Rightarrow> globalDependencyManager" where
  "releaseSlots txs dm = dm\<lparr>waitingTxsSlots := Release (int (length txs)) (waitingTxsSlots dm)\<rparr>"

definition freeValidated :: "nat \<Rightarrow> nat list \<times> node_store \<Rightarrow> nat list \<times> node_store" where
  "freeValidated n = (\<lambda>(fullyFreedDependents, h).
     let (freedTxs, h') = freeDependents n h in (fullyFreedDependents @ freedTxs, h'))"

definition processValidatedTransactions ::
    "nat list \<Rightarrow> node_store \<Rightarrow> globalDependencyManager
     \<Rightarrow> node_store \<times> globalDependencyManager \<times> nat list" where
  "processValidatedTransactions txs h dm =
     (let (fullyFreedDependents, h') = fold freeValidated txs ([], h)
      in (h', dm\<lparr>dependencyDetector :=
                    removeWaitingTx (\<lambda>n. rwKeys (h' n)) txs (dependencyDetector dm)\<rparr>,
          fullyFreedDependents))"

text \<open>The two critical sections of \<open>add\<close> and of \<open>waitAndRemove\<close>: the list, and the flag.\<close>

definition addFreed :: "nat list \<Rightarrow> globalDependencyManager \<Rightarrow> globalDependencyManager" where
  "addFreed txs dm = dm\<lparr>freedTxsNode := freedTxsNode dm @ txs\<rparr>"

definition signalFreed :: "globalDependencyManager \<Rightarrow> globalDependencyManager" where
  "signalFreed dm = dm\<lparr>freedNonEmpty := True\<rparr>"

definition waitFreed :: "globalDependencyManager \<Rightarrow> globalDependencyManager option" where
  "waitFreed dm = (if freedNonEmpty dm then Some (dm\<lparr>freedNonEmpty := False\<rparr>) else None)"

definition removeFreed :: "globalDependencyManager \<Rightarrow> nat list \<times> globalDependencyManager" where
  "removeFreed dm = (freedTxsNode dm, dm\<lparr>freedTxsNode := []\<rparr>)"

section \<open>The module\<close>

text \<open>
  Where the three goroutines of the manager stand: \<open>constructDependencyGraph\<close> (waiting for a batch,
  holding the slots of a batch, about to write the free nodes), \<open>processValidatedTransactions\<close>
  (waiting, slots released, about to add the freed nodes, about to signal) and
  \<open>outputFreedExistingTransactions\<close> (waiting for the flag, about to take the list, about to write).
\<close>

datatype constructor_pc = CIdle | CAcquired transactionNodeBatch | CSend "nat list"
datatype validated_pc = VIdle | VReleased "nat list" | VFreed "nat list" | VSignal
datatype output_pc = OIdle | OTake | OSend "nat list"

record dep_graph =
  dg_store :: node_store
  dg_next :: nat
  dg_last_id :: u64
  dg_built :: "(u64 \<times> transactionNodeBatch) list"
  dg_queue :: "transactionNodeBatch list"
  dg_mgr :: globalDependencyManager
  dg_cpc :: constructor_pc
  dg_vpc :: validated_pc
  dg_opc :: output_pc
  dg_out :: "nat list list"
  dg_order :: "(u64 \<times> transactionNodeBatch) list"
  dg_arrived :: "nat list"
  dg_validated :: "nat list"

definition NewManager :: "nat \<Rightarrow> dep_graph" where
  "NewManager waitingTxsLimit =
     \<lparr>dg_store = (\<lambda>_. NewRejectedTransactionNode
        \<lparr>st_ref = \<lparr>ref_block_num = 0, ref_tx_id = [], ref_tx_num = 0\<rparr>, st_status = STATUS_UNSPECIFIED\<rparr>),
      dg_next = 0, dg_last_id = 0, dg_built = [], dg_queue = [],
      dg_mgr = newGlobalDependencyManager waitingTxsLimit, dg_cpc = CIdle, dg_vpc = VIdle,
      dg_opc = OIdle, dg_out = [], dg_order = [], dg_arrived = [], dg_validated = []\<rparr>"

text \<open>
  The steps. \<open>ok\<close> restricts the batches the coordinator submits; a batch of validated nodes is
  any batch of distinct nodes that were sent out and not yet reported back.
\<close>

inductive dg_step :: "wire \<Rightarrow> (TxWithRef list \<Rightarrow> bool) \<Rightarrow> dep_graph \<Rightarrow> dep_graph \<Rightarrow> bool" for w ok where
  local_construct: "ok txs \<Longrightarrow> construct w txs (dg_store s) (dg_next s) = (h, nxt, b) \<Longrightarrow>
    dg_step w ok s (s\<lparr>dg_store := h, dg_next := nxt, dg_built := dg_built s @ [(i, b)]\<rparr>)"
| local_output: "dg_built s = xs @ (i, b) # ys \<Longrightarrow> dg_last_id s = i - 1 \<Longrightarrow>
    dg_step w ok s (s\<lparr>dg_last_id := i, dg_built := xs @ ys, dg_queue := dg_queue s @ [b],
                      dg_order := dg_order s @ [(i, b)]\<rparr>)"
| global_acquire: "dg_cpc s = CIdle \<Longrightarrow> dg_queue s = b # q \<Longrightarrow> acquireSlots b (dg_mgr s) = Some dm \<Longrightarrow>
    dg_step w ok s (s\<lparr>dg_mgr := dm, dg_queue := q, dg_cpc := CAcquired b\<rparr>)"
| global_add: "dg_cpc s = CAcquired b \<Longrightarrow>
    constructDependencyGraph b (dg_store s) (dg_mgr s) = (h, dm, depFree) \<Longrightarrow>
    dg_step w ok s (s\<lparr>dg_store := h, dg_mgr := dm, dg_arrived := dg_arrived s @ txsNode b,
                      dg_cpc := if length depFree > 0 then CSend depFree else CIdle\<rparr>)"
| global_send: "dg_cpc s = CSend txs \<Longrightarrow>
    dg_step w ok s (s\<lparr>dg_out := dg_out s @ [txs], dg_cpc := CIdle\<rparr>)"
| validated_read: "dg_vpc s = VIdle \<Longrightarrow> distinct txs \<Longrightarrow>
    set txs \<subseteq> set (concat (dg_out s)) - set (dg_validated s) \<Longrightarrow>
    dg_step w ok s (s\<lparr>dg_mgr := releaseSlots txs (dg_mgr s), dg_vpc := VReleased txs\<rparr>)"
| validated_remove: "dg_vpc s = VReleased txs \<Longrightarrow>
    processValidatedTransactions txs (dg_store s) (dg_mgr s) = (h, dm, freed) \<Longrightarrow>
    dg_step w ok s (s\<lparr>dg_store := h, dg_mgr := dm, dg_validated := dg_validated s @ txs,
                      dg_vpc := if length freed > 0 then VFreed freed else VIdle\<rparr>)"
| validated_add: "dg_vpc s = VFreed freed \<Longrightarrow>
    dg_step w ok s (s\<lparr>dg_mgr := addFreed freed (dg_mgr s), dg_vpc := VSignal\<rparr>)"
| validated_signal: "dg_vpc s = VSignal \<Longrightarrow>
    dg_step w ok s (s\<lparr>dg_mgr := signalFreed (dg_mgr s), dg_vpc := VIdle\<rparr>)"
| freed_wait: "dg_opc s = OIdle \<Longrightarrow> waitFreed (dg_mgr s) = Some dm \<Longrightarrow>
    dg_step w ok s (s\<lparr>dg_mgr := dm, dg_opc := OTake\<rparr>)"
| freed_take: "dg_opc s = OTake \<Longrightarrow> removeFreed (dg_mgr s) = (txs, dm) \<Longrightarrow>
    dg_step w ok s (s\<lparr>dg_mgr := dm, dg_opc := if length txs > 0 then OSend txs else OIdle\<rparr>)"
| freed_send: "dg_opc s = OSend txs \<Longrightarrow>
    dg_step w ok s (s\<lparr>dg_out := dg_out s @ [txs], dg_opc := OIdle\<rparr>)"

inductive dg_reachable :: "wire \<Rightarrow> (TxWithRef list \<Rightarrow> bool) \<Rightarrow> nat \<Rightarrow> dep_graph \<Rightarrow> bool" for w ok limit where
  dg_init: "dg_reachable w ok limit (NewManager limit)"
| dg_next: "dg_reachable w ok limit s \<Longrightarrow> dg_step w ok s t \<Longrightarrow> dg_reachable w ok limit t"

section \<open>Observations\<close>

text \<open>The nodes the manager has added and not yet removed, in order of arrival.\<close>

definition waiting_nodes :: "dep_graph \<Rightarrow> nat list" where
  "waiting_nodes s = filter (\<lambda>n. n \<notin> set (dg_validated s)) (dg_arrived s)"

text \<open>The nodes handed out for validation, and those on their way out.\<close>

definition outputted :: "dep_graph \<Rightarrow> nat list" where
  "outputted s = concat (dg_out s)"

definition released :: "dep_graph \<Rightarrow> nat list" where
  "released s = outputted s @ freedTxsNode (dg_mgr s)
     @ (case dg_cpc s of CSend txs \<Rightarrow> txs | _ \<Rightarrow> [])
     @ (case dg_vpc s of VFreed txs \<Rightarrow> txs | _ \<Rightarrow> [])
     @ (case dg_opc s of OSend txs \<Rightarrow> txs | _ \<Rightarrow> [])"

text \<open>The batches the manager has not added yet, and the nodes whose slots alone are released.\<close>

definition acquired_batch :: "dep_graph \<Rightarrow> transactionNodeBatch list" where
  "acquired_batch s = (case dg_cpc s of CAcquired b \<Rightarrow> [b] | _ \<Rightarrow> [])"

definition pending_batches :: "dep_graph \<Rightarrow> transactionNodeBatch list" where
  "pending_batches s = acquired_batch s @ dg_queue s @ map snd (dg_built s)"

definition releasing :: "dep_graph \<Rightarrow> nat list" where
  "releasing s = (case dg_vpc s of VReleased txs \<Rightarrow> txs | _ \<Rightarrow> [])"

definition node_keys :: "dep_graph \<Rightarrow> nat \<Rightarrow> readWriteKeys" where
  "node_keys s n = rwKeys (dg_store s n)"

text \<open>\<open>m\<close> stands before \<open>n\<close> in a list.\<close>

fun precedes :: "'a list \<Rightarrow> 'a \<Rightarrow> 'a \<Rightarrow> bool" where
  "precedes [] m n = False"
| "precedes (x # xs) m n = (m = x \<and> n \<in> set xs \<or> precedes xs m n)"

end
