(* ===== verification/Dep_Graph_Correct.thy ===== *)
theory Dep_Graph_Correct
  imports Dep_Graph "HOL-Library.Multiset"
begin

text \<open>
  Correctness of the dependency graph. \<open>graph_ok h L\<close> says that the edges stored in the nodes of \<open>L\<close>
  are exactly the conflicts between a node and the earlier nodes of \<open>L\<close>; local construction
  establishes it for a batch, adding a batch and removing validated nodes keep it for the waiting
  nodes. Lifted to the reachable states of \<open>dg_step\<close> this gives isolation, order, single release,
  progress and the slot accounting. The interface of the detector is used through its
  interpretation \<open>dd\<close>.
\<close>

section \<open>Order in a list\<close>

lemma precedes_append [simp]:
  "precedes (xs @ ys) m n \<longleftrightarrow> precedes xs m n \<or> precedes ys m n \<or> m \<in> set xs \<and> n \<in> set ys"
  by (induction xs) auto

lemma precedes_in: "precedes xs m n \<Longrightarrow> m \<in> set xs \<and> n \<in> set xs"
  by (induction xs) auto

lemma precedes_irrefl: "distinct xs \<Longrightarrow> \<not> precedes xs n n"
  by (induction xs) (auto dest: precedes_in)

lemma precedes_antisym: "distinct xs \<Longrightarrow> precedes xs m n \<Longrightarrow> \<not> precedes xs n m"
  by (induction xs) (auto dest: precedes_in)

lemma precedes_total: "m \<in> set xs \<Longrightarrow> n \<in> set xs \<Longrightarrow> m \<noteq> n \<Longrightarrow> precedes xs m n \<or> precedes xs n m"
  by (induction xs) auto

lemma precedes_filter: "precedes (filter P xs) m n \<longleftrightarrow> precedes xs m n \<and> P m \<and> P n"
  by (induction xs) (auto dest: precedes_in)

section \<open>Node operations\<close>

lemma fold_storeDependent:
  "dependsOnTxs (fold (storeDependent n) ds h x) = dependsOnTxs (h x)"
  "rwKeys (fold (storeDependent n) ds h x) = rwKeys (h x)"
  "VerifierTx (fold (storeDependent n) ds h x) = VerifierTx (h x)"
  "dependentTxs (fold (storeDependent n) ds h x) =
     (if x \<in> set ds then List.insert n (dependentTxs (h x)) else dependentTxs (h x))"
  by (induction ds arbitrary: h) (auto simp: storeDependent_def)

lemma fold_storeDependent_frame: "x \<notin> set ds \<Longrightarrow> fold (storeDependent n) ds h x = h x"
  by (induction ds arbitrary: h) (auto simp: storeDependent_def)

lemma addDependencies_simps:
  "dependsOnTxs (addDependenciesAndUpdateDependents n ds h x) =
     (if x = n then dependsOnTxs (h n) @ ds else dependsOnTxs (h x))"
  "rwKeys (addDependenciesAndUpdateDependents n ds h x) = rwKeys (h x)"
  "VerifierTx (addDependenciesAndUpdateDependents n ds h x) = VerifierTx (h x)"
  "dependentTxs (addDependenciesAndUpdateDependents n ds h x) =
     (if x \<in> set ds then List.insert n (dependentTxs (h x)) else dependentTxs (h x))"
  by (auto simp: addDependenciesAndUpdateDependents_def fold_storeDependent)

lemma addDependencies_nil [simp]: "addDependenciesAndUpdateDependents n [] h = h"
  by (simp add: addDependenciesAndUpdateDependents_def)

lemma addDependencies_frame:
  "x \<noteq> n \<Longrightarrow> x \<notin> set ds \<Longrightarrow> addDependenciesAndUpdateDependents n ds h x = h x"
  by (simp add: addDependenciesAndUpdateDependents_def fold_storeDependent_frame)

text \<open>The nodes of \<open>L\<close> hold exactly the conflicts within \<open>L\<close>.\<close>

definition node_ok :: "node_store \<Rightarrow> nat list \<Rightarrow> nat \<Rightarrow> bool" where
  "node_ok h L n \<longleftrightarrow> distinct (dependsOnTxs (h n)) \<and> distinct (dependentTxs (h n)) \<and>
     set (dependsOnTxs (h n)) = {m. precedes L m n \<and> conflicts (rwKeys (h m)) (rwKeys (h n))} \<and>
     set (dependentTxs (h n)) = {m. precedes L n m \<and> conflicts (rwKeys (h m)) (rwKeys (h n))}"

definition graph_ok :: "node_store \<Rightarrow> nat list \<Rightarrow> bool" where
  "graph_ok h L \<longleftrightarrow> distinct L \<and> (\<forall>n \<in> set L. node_ok h L n)"

lemma graph_ok_empty [simp]: "graph_ok h []"
  by (simp add: graph_ok_def)

lemma node_ok_cong:
  assumes "node_ok h L n" "n \<in> set L" "\<And>m. m \<in> set L \<Longrightarrow> h' m = h m"
  shows "node_ok h' L n"
proof -
  have "{m. precedes L m n \<and> conflicts (rwKeys (h' m)) (rwKeys (h' n))} =
        {m. precedes L m n \<and> conflicts (rwKeys (h m)) (rwKeys (h n))}"
    "{m. precedes L n m \<and> conflicts (rwKeys (h' m)) (rwKeys (h' n))} =
        {m. precedes L n m \<and> conflicts (rwKeys (h m)) (rwKeys (h n))}"
    using assms(2,3) by (auto dest: precedes_in)
  with assms show ?thesis
    by (simp add: node_ok_def)
qed

lemma graph_ok_cong:
  "graph_ok h L \<Longrightarrow> (\<And>m. m \<in> set L \<Longrightarrow> h' m = h m) \<Longrightarrow> graph_ok h' L"
  by (auto simp: graph_ok_def intro: node_ok_cong)

text \<open>
  The store \<open>h'\<close> is \<open>h\<close> with the nodes \<open>d n\<close> added as dependencies of every node \<open>n\<close> of a batch.
\<close>

definition edges_added :: "node_store \<Rightarrow> nat list \<Rightarrow> (nat \<Rightarrow> nat list) \<Rightarrow> node_store \<Rightarrow> bool" where
  "edges_added h B d h' \<longleftrightarrow> (\<forall>x.
     rwKeys (h' x) = rwKeys (h x) \<and> VerifierTx (h' x) = VerifierTx (h x) \<and>
     dependsOnTxs (h' x) = (if x \<in> set B then dependsOnTxs (h x) @ d x else dependsOnTxs (h x)) \<and>
     set (dependentTxs (h' x)) = set (dependentTxs (h x)) \<union> {n \<in> set B. x \<in> set (d n)} \<and>
     (distinct (dependentTxs (h x)) \<longrightarrow> distinct (dependentTxs (h' x))) \<and>
     (x \<notin> set B \<and> (\<forall>n \<in> set B. x \<notin> set (d n)) \<longrightarrow> h' x = h x))"

lemma edges_added_nil: "edges_added h [] d h"
  by (simp add: edges_added_def)

lemma edges_added_single: "edges_added h [n] d (addDependenciesAndUpdateDependents n (d n) h)"
  by (auto simp: edges_added_def addDependencies_simps addDependencies_frame)

lemma edges_added_append:
  assumes "edges_added h A d h1" "edges_added h1 B d h'" "set A \<inter> set B = {}"
  shows "edges_added h (A @ B) d h'"
  unfolding edges_added_def
proof (intro allI)
  fix x
  note a = assms(1) [unfolded edges_added_def, rule_format, of x]
  note b = assms(2) [unfolded edges_added_def, rule_format, of x]
  have "x \<in> set A \<Longrightarrow> x \<notin> set B" using assms(3) by blast
  with a b show "rwKeys (h' x) = rwKeys (h x) \<and> VerifierTx (h' x) = VerifierTx (h x) \<and>
     dependsOnTxs (h' x) = (if x \<in> set (A @ B) then dependsOnTxs (h x) @ d x else dependsOnTxs (h x)) \<and>
     set (dependentTxs (h' x)) = set (dependentTxs (h x)) \<union> {n \<in> set (A @ B). x \<in> set (d n)} \<and>
     (distinct (dependentTxs (h x)) \<longrightarrow> distinct (dependentTxs (h' x))) \<and>
     (x \<notin> set (A @ B) \<and> (\<forall>n \<in> set (A @ B). x \<notin> set (d n)) \<longrightarrow> h' x = h x)"
    by auto
qed

text \<open>
  Joining a graph and a batch: every node of the batch gains the conflicting nodes of the graph.
\<close>

lemma graph_ok_append:
  assumes L: "graph_ok h L" and B: "graph_ok h B" and disj: "set L \<inter> set B = {}"
    and add: "edges_added h B d h'"
    and d: "\<And>n. n \<in> set B \<Longrightarrow> distinct (d n) \<and> set (d n) = {m \<in> set L. conflicts (rwKeys (h m)) (rwKeys (h n))}"
  shows "graph_ok h' (L @ B)"
proof -
  have keys: "rwKeys (h' x) = rwKeys (h x)"
    and on: "dependsOnTxs (h' x) = (if x \<in> set B then dependsOnTxs (h x) @ d x else dependsOnTxs (h x))"
    and dep: "set (dependentTxs (h' x)) = set (dependentTxs (h x)) \<union> {n \<in> set B. x \<in> set (d n)}"
    and dist: "distinct (dependentTxs (h x)) \<Longrightarrow> distinct (dependentTxs (h' x))" for x
    using add by (auto simp: edges_added_def)
  have "node_ok h' (L @ B) n" if n: "n \<in> set L" for n
  proof -
    have ok: "node_ok h L n" and nB: "n \<notin> set B" using L n disj by (auto simp: graph_ok_def)
    have "{m \<in> set B. n \<in> set (d m)} = {m \<in> set B. conflicts (rwKeys (h m)) (rwKeys (h n))}"
      using d n by (auto simp: conflicts_sym)
    with ok nB n show ?thesis
      by (auto simp: node_ok_def keys on dep dist dest: precedes_in)
  qed
  moreover have "node_ok h' (L @ B) n" if n: "n \<in> set B" for n
  proof -
    have ok: "node_ok h B n" and nL: "n \<notin> set L" using B n disj by (auto simp: graph_ok_def)
    have "{m \<in> set B. n \<in> set (d m)} = {}"
      using d nL by auto
    moreover have "distinct (dependsOnTxs (h n) @ d n)"
      using ok d [OF n] disj by (auto simp: node_ok_def dest: precedes_in)
    ultimately show ?thesis
      using ok nL n d [OF n] by (auto simp: node_ok_def keys on dep dist dest: precedes_in)
  qed
  ultimately show ?thesis
    using L B disj by (auto simp: graph_ok_def)
qed

section \<open>Local construction\<close>

text \<open>The transaction a node was made from, with its keys.\<close>

definition node_of :: "wire \<Rightarrow> TransactionNode \<Rightarrow> TxWithRef \<Rightarrow> bool" where
  "node_of w n tx \<longleftrightarrow> VerifierTx n = Some tx \<and> rwKeys n = readAndWriteKeys w (tx_namespaces (twr_content tx))"

text \<open>
  What local construction has built from the address \<open>a\<close> up to \<open>n\<close> for the transactions \<open>txs\<close>,
  starting from the store \<open>h0\<close>.
\<close>

definition local_ok :: "wire \<Rightarrow> node_store \<Rightarrow> nat \<Rightarrow> TxWithRef list
    \<Rightarrow> node_store \<times> nat \<times> Dep_Detector.dependencyDetector \<times> nat list \<Rightarrow> bool" where
  "local_ok w h0 a txs = (\<lambda>(h, n, det, ns).
     a \<le> n \<and> ns = [a..<n] \<and> graph_ok h ns \<and> tracks det (set ns) (\<lambda>x. rwKeys (h x)) \<and>
     (\<forall>x < a. h x = h0 x) \<and> list_all2 (\<lambda>x. node_of w (h x)) ns txs)"

lemma local_ok_construct_tx:
  assumes "local_ok w h0 a txs s"
  shows "local_ok w h0 a (txs @ [tx]) (construct_tx w tx s)"
proof -
  obtain h n det ns where s: "s = (h, n, det, ns)" by (cases s)
  let ?h1 = "h(n := newTransactionNode w tx)"
  let ?K = "rwKeys (?h1 n)"
  let ?h2 = "addDependenciesAndUpdateDependents n (getDependenciesOf det ?K) ?h1"
  have eq: "construct_tx w tx s = (?h2, Suc n, addWaitingTx n ?K det, ns @ [n])"
    by (simp add: construct_tx_def s Let_def)
  have l: "a \<le> n" "ns = [a..<n]" "graph_ok h ns" "tracks det (set ns) (\<lambda>x. rwKeys (h x))"
    "\<forall>x < a. h x = h0 x" "list_all2 (\<lambda>x. node_of w (h x)) ns txs"
    using assms by (auto simp: local_ok_def s)
  have g1: "graph_ok ?h1 ns"
    using l(2) by (intro graph_ok_cong [OF l(3)]) auto
  have gn: "graph_ok ?h1 [n]"
    by (simp add: graph_ok_def node_ok_def newTransactionNode_def)
  have t1: "tracks det (set ns) (\<lambda>x. rwKeys (?h1 x))"
    using l(2) by (intro dd.tracks_cong [OF l(4)]) auto
  have K: "rwKeys (?h2 x) = rwKeys (?h1 x)" for x
    by (simp add: addDependencies_simps)
  have "graph_ok ?h2 (ns @ [n])"
    using l(2) dd.deps_set [OF t1] dd.deps_distinct [OF t1] edges_added_single [of ?h1 n "\<lambda>_. getDependenciesOf det ?K"]
    by (intro graph_ok_append [OF g1 gn]) auto
  moreover have "tracks (addWaitingTx n ?K det) (set (ns @ [n])) (\<lambda>x. rwKeys (?h2 x))"
    unfolding K using dd.tracks_add [OF t1, of n] l(2) by simp
  moreover have "?h2 x = h0 x" if "x < a" for x
    using that l(1,2,5) dd.deps_set [OF t1, of ?K] by (auto simp: addDependencies_frame)
  moreover have "list_all2 (\<lambda>x. node_of w (?h2 x)) (ns @ [n]) (txs @ [tx])"
  proof (rule list_all2_appendI)
    show "list_all2 (\<lambda>x. node_of w (?h2 x)) ns txs"
      using l(2) by (intro list.rel_mono_strong [OF l(6)]) (auto simp: node_of_def addDependencies_simps)
  qed (simp add: node_of_def addDependencies_simps newTransactionNode_def)
  ultimately show ?thesis
    using l(1,2) by (simp add: local_ok_def eq del: fun_upd_apply)
qed

lemma construct_ok:
  assumes "construct w txs h n = (h', n', b)"
  shows "n \<le> n'" "txsNode b = [n..<n']" "graph_ok h' (txsNode b)"
    "tracks (localDepDetector b) (set (txsNode b)) (\<lambda>x. rwKeys (h' x))" "\<And>x. x < n \<Longrightarrow> h' x = h x"
    "list_all2 (\<lambda>x. node_of w (h' x)) (txsNode b) txs"
proof -
  have "local_ok w h n (seen @ txs) (fold (construct_tx w) txs s)" if "local_ok w h n seen s" for seen s
    using that
  proof (induction txs arbitrary: seen s)
    case (Cons tx txs)
    from Cons.IH [OF local_ok_construct_tx [OF Cons.prems, of tx]] show ?case by simp
  qed simp
  from this [of "[]" "(h, n, newDependencyDetector, [])"]
  have "local_ok w h n txs (fold (construct_tx w) txs (h, n, newDependencyDetector, []))"
    using dd.tracks_empty by (simp add: local_ok_def)
  then show "n \<le> n'" "txsNode b = [n..<n']" "graph_ok h' (txsNode b)"
    "tracks (localDepDetector b) (set (txsNode b)) (\<lambda>x. rwKeys (h' x))" "\<And>x. x < n \<Longrightarrow> h' x = h x"
    "list_all2 (\<lambda>x. node_of w (h' x)) (txsNode b) txs"
    using assms by (auto simp: construct_def local_ok_def split: prod.splits)
qed

section \<open>Adding a batch\<close>

lemma addTxToGraph_eq:
  "addTxToGraph det n (h, f) =
     (addDependenciesAndUpdateDependents n (getDependenciesOf det (rwKeys (h n))) h,
      if getDependenciesOf det (rwKeys (h n)) = [] \<and> dependsOnTxs (h n) = [] then f @ [n] else f)"
  by (simp add: addTxToGraph_def Let_def)

lemma fold_addTxToGraph:
  assumes "distinct B" "fold (addTxToGraph det) B (h, f) = (h', f')"
    and "\<And>n. d n = getDependenciesOf det (rwKeys (h n))"
  shows "edges_added h B d h' \<and> f' = f @ filter (\<lambda>n. d n = [] \<and> dependsOnTxs (h n) = []) B"
  using assms
proof (induction B arbitrary: h f)
  case (Cons n B)
  let ?h1 = "addDependenciesAndUpdateDependents n (d n) h"
  let ?f1 = "if d n = [] \<and> dependsOnTxs (h n) = [] then f @ [n] else f"
  have "fold (addTxToGraph det) B (?h1, ?f1) = (h', f')"
    using Cons.prems(2) by (simp add: addTxToGraph_eq flip: Cons.prems(3))
  moreover have "d m = getDependenciesOf det (rwKeys (?h1 m))" for m
    using Cons.prems(3) [of m] by (simp add: addDependencies_simps)
  ultimately have IH: "edges_added ?h1 B d h'"
    "f' = ?f1 @ filter (\<lambda>n. d n = [] \<and> dependsOnTxs (?h1 n) = []) B"
    using Cons.IH [of ?h1 ?f1] Cons.prems(1) by (metis distinct.simps(2))+
  have "filter (\<lambda>m. d m = [] \<and> dependsOnTxs (?h1 m) = []) B = filter (\<lambda>m. d m = [] \<and> dependsOnTxs (h m) = []) B"
    using Cons.prems(1) by (intro filter_cong) (auto simp: addDependencies_simps)
  moreover have "edges_added h ([n] @ B) d h'"
    using Cons.prems(1) by (intro edges_added_append [OF edges_added_single IH(1)]) auto
  ultimately show ?case
    using IH(2) by simp
qed (simp add: edges_added_nil)

section \<open>Removing validated nodes\<close>

lemma freeDependent_eq:
  "freeDependent n x (f, h) =
     (if remove1 n (dependsOnTxs (h x)) = [] then f @ [x] else f,
      h(x := (h x)\<lparr>dependsOnTxs := remove1 n (dependsOnTxs (h x))\<rparr>))"
  by (simp add: freeDependent_def isDependencyFree_def Let_def)

lemma fold_freeDependent:
  assumes "distinct ds" "fold (freeDependent n) ds (f, h) = (f', h')"
  shows "h' = (\<lambda>x. if x \<in> set ds then (h x)\<lparr>dependsOnTxs := remove1 n (dependsOnTxs (h x))\<rparr> else h x) \<and>
     f' = f @ filter (\<lambda>x. remove1 n (dependsOnTxs (h x)) = []) ds"
  using assms
proof (induction ds arbitrary: f h)
  case (Cons x ds)
  let ?h1 = "h(x := (h x)\<lparr>dependsOnTxs := remove1 n (dependsOnTxs (h x))\<rparr>)"
  let ?f1 = "if remove1 n (dependsOnTxs (h x)) = [] then f @ [x] else f"
  have "fold (freeDependent n) ds (?f1, ?h1) = (f', h')"
    using Cons.prems(2) by (simp add: freeDependent_eq)
  with Cons.prems(1) have IH:
    "h' = (\<lambda>y. if y \<in> set ds then (?h1 y)\<lparr>dependsOnTxs := remove1 n (dependsOnTxs (?h1 y))\<rparr> else ?h1 y)"
    "f' = ?f1 @ filter (\<lambda>y. remove1 n (dependsOnTxs (?h1 y)) = []) ds"
    using Cons.IH [of ?f1 ?h1] by (meson distinct.simps(2))+
  have "filter (\<lambda>y. remove1 n (dependsOnTxs (?h1 y)) = []) ds = filter (\<lambda>y. remove1 n (dependsOnTxs (h y)) = []) ds"
    using Cons.prems(1) by (intro filter_cong) auto
  then have "f' = f @ filter (\<lambda>y. remove1 n (dependsOnTxs (h y)) = []) (x # ds)"
    unfolding IH(2) by simp
  moreover have "h' = (\<lambda>y. if y \<in> set (x # ds) then (h y)\<lparr>dependsOnTxs := remove1 n (dependsOnTxs (h y))\<rparr> else h y)"
    unfolding IH(1) using Cons.prems(1) by (auto simp: fun_eq_iff)
  ultimately show ?case by simp
qed simp

text \<open>
  The store \<open>h'\<close> is \<open>h\<close> without the nodes \<open>ns\<close>, which had no dependency; \<open>f\<close> are the nodes of the
  graph that lost their last dependency.
\<close>

definition nodes_removed :: "node_store \<Rightarrow> nat list \<Rightarrow> nat list \<Rightarrow> node_store \<Rightarrow> nat list \<Rightarrow> bool" where
  "nodes_removed h L ns h' f \<longleftrightarrow>
     graph_ok h' (filter (\<lambda>x. x \<notin> set ns) L) \<and>
     (\<forall>x. rwKeys (h' x) = rwKeys (h x) \<and> VerifierTx (h' x) = VerifierTx (h x)) \<and>
     (\<forall>x. x \<notin> set L \<longrightarrow> h' x = h x) \<and>
     (\<forall>x. dependsOnTxs (h x) = [] \<longrightarrow> dependsOnTxs (h' x) = []) \<and>
     distinct f \<and> set f = {x \<in> set L - set ns. dependsOnTxs (h x) \<noteq> [] \<and> dependsOnTxs (h' x) = []}"

lemma nodes_removed_freeDependents:
  assumes ok: "graph_ok h L" and n: "n \<in> set L" "dependsOnTxs (h n) = []"
    and free: "freeDependents n h = (f, h')"
  shows "nodes_removed h L [n] h' f"
proof -
  let ?D = "dependentTxs (h n)"
  have nok: "node_ok h L x" if "x \<in> set L" for x
    using ok that by (simp add: graph_ok_def)
  have D: "distinct ?D" "set ?D = {m. precedes L n m \<and> conflicts (rwKeys (h m)) (rwKeys (h n))}"
    using nok [OF n(1)] by (auto simp: node_ok_def)
  have h': "h' = (\<lambda>x. if x \<in> set ?D then (h x)\<lparr>dependsOnTxs := remove1 n (dependsOnTxs (h x))\<rparr> else h x)"
    and f: "f = filter (\<lambda>x. remove1 n (dependsOnTxs (h x)) = []) ?D"
    using fold_freeDependent [OF D(1), of n "[]" h f h'] free by (auto simp: freeDependents_def)
  have nL: "\<not> precedes L n n"
    using ok by (simp add: graph_ok_def precedes_irrefl)
  have first: "\<not> precedes L m n \<or> \<not> conflicts (rwKeys (h m)) (rwKeys (h n))" for m
    using nok [OF n(1)] n(2) by (auto simp: node_ok_def)
  have mem: "n \<in> set (dependsOnTxs (h x)) \<longleftrightarrow> x \<in> set ?D" if "x \<in> set L" for x
    using nok [OF that] D(2) that by (auto simp: node_ok_def conflicts_sym)
  have on: "dependsOnTxs (h' x) = remove1 n (dependsOnTxs (h x))" if "x \<in> set L" for x
    using mem [OF that] by (simp add: h' remove1_idem)
  have "node_ok h' (filter (\<lambda>x. x \<noteq> n) L) x" if "x \<in> set L" "x \<noteq> n" for x
    using nok [OF that(1)] that first [of x] on [OF that(1)]
      conflicts_sym [of "rwKeys (h n)" "rwKeys (h x)"]
    by (auto simp: node_ok_def h' precedes_filter)
  moreover have "set f = {x \<in> set L - {n}. dependsOnTxs (h x) \<noteq> [] \<and> dependsOnTxs (h' x) = []}"
  proof -
    have "set ?D \<subseteq> set L - {n}" using D(2) nL by (auto dest: precedes_in)
    moreover have "remove1 n xs = [] \<Longrightarrow> xs \<noteq> [] \<Longrightarrow> n \<in> set xs" for xs by (metis remove1_idem)
    ultimately show ?thesis using mem on unfolding f by fastforce
  qed
  ultimately show ?thesis
    using ok D by (auto simp: nodes_removed_def graph_ok_def h' f dest: precedes_in)
qed

lemma nodes_removed_append:
  assumes a: "nodes_removed h L as h1 f" and b: "nodes_removed h1 (filter (\<lambda>x. x \<notin> set as) L) bs h' g"
    and bs: "\<forall>x \<in> set bs. dependsOnTxs (h x) = []"
  shows "nodes_removed h L (as @ bs) h' (f @ g)"
proof -
  have "filter (\<lambda>x. x \<notin> set bs) (filter (\<lambda>x. x \<notin> set as) L) = filter (\<lambda>x. x \<notin> set (as @ bs)) L"
    by (auto intro: filter_cong)
  moreover have "distinct (f @ g)"
    using a b by (auto simp: nodes_removed_def)
  moreover have "set (f @ g) = {x \<in> set L - set (as @ bs). dependsOnTxs (h x) \<noteq> [] \<and> dependsOnTxs (h' x) = []}"
    using a b bs by (auto simp: nodes_removed_def)
  ultimately show ?thesis
    using a b by (simp add: nodes_removed_def)
qed

lemma nodes_removed_freeValidated:
  assumes "graph_ok h L" "distinct ns" "set ns \<subseteq> set L" "\<forall>n \<in> set ns. dependsOnTxs (h n) = []"
    and "fold freeValidated ns (f, h) = (f', h')"
  shows "\<exists>g. f' = f @ g \<and> nodes_removed h L ns h' g"
  using assms
proof (induction ns arbitrary: f h L)
  case Nil
  then show ?case by (auto simp: nodes_removed_def)
next
  case (Cons n ns)
  obtain g h1 where g: "freeDependents n h = (g, h1)" by (cases "freeDependents n h")
  have r: "nodes_removed h L [n] h1 g"
    using Cons.prems g by (intro nodes_removed_freeDependents) auto
  let ?L = "filter (\<lambda>x. x \<notin> set [n]) L"
  have "fold freeValidated ns (f @ g, h1) = (f', h')"
    using Cons.prems(5) g by (simp add: freeValidated_def [of n])
  moreover have "graph_ok h1 ?L" "set ns \<subseteq> set ?L" "\<forall>n \<in> set ns. dependsOnTxs (h1 n) = []"
    using r Cons.prems by (auto simp: nodes_removed_def)
  ultimately obtain g' where g': "f' = (f @ g) @ g'" "nodes_removed h1 ?L ns h' g'"
    using Cons.IH [of h1 ?L "f @ g"] Cons.prems(2) by (meson distinct.simps(2))
  have "nodes_removed h L ([n] @ ns) h' (g @ g')"
    using Cons.prems(4) by (intro nodes_removed_append [OF r g'(2)]) simp
  with g'(1) show ?case by simp
qed

section \<open>The invariant\<close>

text \<open>A store and a detector hold the graph of the nodes \<open>L\<close>.\<close>

definition graph_held :: "node_store \<Rightarrow> nat list \<Rightarrow> Dep_Detector.dependencyDetector \<Rightarrow> bool" where
  "graph_held h L det \<longleftrightarrow> graph_ok h L \<and> tracks det (set L) (\<lambda>n. rwKeys (h n))"

lemma graph_held_cong:
  assumes "graph_held h L det" "\<And>n. n \<in> set L \<Longrightarrow> h' n = h n"
  shows "graph_held h' L det"
  using assms by (auto simp: graph_held_def intro: graph_ok_cong dd.tracks_cong)

lemma graph_held_empty: "graph_held h [] newDependencyDetector"
  using dd.tracks_empty by (simp add: graph_held_def)

text \<open>All nodes the module knows: the arrived ones, then those of the pending batches.\<close>

definition known_nodes :: "dep_graph \<Rightarrow> nat list" where
  "known_nodes s = dg_arrived s @ concat (map txsNode (pending_batches s))"

text \<open>What is kept of the store: the pending batches and the waiting nodes, apart from each other.\<close>

definition store_inv :: "dep_graph \<Rightarrow> bool" where
  "store_inv s \<longleftrightarrow> distinct (known_nodes s) \<and>
     (\<forall>n \<in> set (known_nodes s). n < dg_next s \<and> distinct_keys (node_keys s n)) \<and>
     (\<forall>b \<in> set (pending_batches s). graph_held (dg_store s) (txsNode b) (localDepDetector b))"

text \<open>What is kept of the manager: graph and detector hold the waiting nodes.\<close>

definition graph_inv :: "dep_graph \<Rightarrow> bool" where
  "graph_inv s \<longleftrightarrow> graph_held (dg_store s) (waiting_nodes s) (dependencyDetector (dg_mgr s))"

text \<open>The nodes released are the validated ones and the waiting ones without dependency, each once.\<close>

definition release_inv :: "dep_graph \<Rightarrow> bool" where
  "release_inv s \<longleftrightarrow>
     distinct (released s) \<and>
     set (released s) = set (dg_validated s) \<union> {n \<in> set (waiting_nodes s). dependsOnTxs (dg_store s n) = []} \<and>
     set (dg_validated s) \<subseteq> set (outputted s) \<and> set (dg_validated s) \<subseteq> set (dg_arrived s) \<and>
     distinct (releasing s) \<and> set (releasing s) \<subseteq> set (outputted s) - set (dg_validated s) \<and>
     distinct (dg_validated s)"

definition dg_inv :: "dep_graph \<Rightarrow> bool" where
  "dg_inv s \<longleftrightarrow> store_inv s \<and> graph_inv s \<and> release_inv s"

lemmas dg_state_defs = waiting_nodes_def released_def outputted_def acquired_batch_def
  pending_batches_def releasing_def node_keys_def known_nodes_def

lemmas dg_inv_defs = dg_inv_def store_inv_def graph_inv_def release_inv_def

lemma waiting_known: "n \<in> set (waiting_nodes s) \<Longrightarrow> n \<in> set (known_nodes s)"
  "b \<in> set (pending_batches s) \<Longrightarrow> n \<in> set (txsNode b) \<Longrightarrow> n \<in> set (known_nodes s)"
  by (auto simp: waiting_nodes_def known_nodes_def)

text \<open>No key stands twice in a list of keys of a transaction of the batch.\<close>

definition distinct_batch :: "wire \<Rightarrow> TxWithRef list \<Rightarrow> bool" where
  "distinct_batch w txs \<longleftrightarrow>
     (\<forall>tx \<in> set txs. distinct_keys (readAndWriteKeys w (tx_namespaces (twr_content tx))))"

lemma dg_inv_init: "dg_inv (NewManager limit)"
  using graph_held_empty
  by (simp add: dg_inv_defs dg_state_defs NewManager_def newGlobalDependencyManager_def)

text \<open>A step that only moves batches or released nodes from one place to another.\<close>

lemma mset_concat_map: "mset xs = mset ys \<Longrightarrow> mset (concat (map f xs)) = mset (concat (map f ys))"
  by (metis mset_concat mset_map sum_mset_sum_list)

lemma dg_inv_move:
  assumes inv: "dg_inv s"
    and same: "dg_store t = dg_store s" "dg_next t = dg_next s" "dg_arrived t = dg_arrived s"
      "dg_validated t = dg_validated s" "dependencyDetector (dg_mgr t) = dependencyDetector (dg_mgr s)"
    and batches: "mset (pending_batches t) = mset (pending_batches s)"
    and rel: "mset (released t) = mset (released s)" "set (outputted s) \<subseteq> set (outputted t)"
      "distinct (releasing t)" "set (releasing t) \<subseteq> set (outputted t) - set (dg_validated t)"
  shows "dg_inv t"
proof -
  have W: "waiting_nodes t = waiting_nodes s" "node_keys t = node_keys s"
    by (auto simp: waiting_nodes_def node_keys_def same)
  have R: "set (released t) = set (released s)" "distinct (released t) = distinct (released s)"
    using rel(1) by (auto dest: mset_eq_setD mset_eq_imp_distinct_iff)
  have "mset (known_nodes t) = mset (known_nodes s)"
    using mset_concat_map [OF batches, of txsNode] by (simp add: known_nodes_def same)
  then have B: "set (known_nodes t) = set (known_nodes s)" "distinct (known_nodes t) = distinct (known_nodes s)"
    "set (pending_batches t) = set (pending_batches s)"
    using batches by (auto dest: mset_eq_setD mset_eq_imp_distinct_iff)
  have "store_inv t \<and> graph_inv t"
    using inv B by (simp add: dg_inv_defs same W)
  moreover have "release_inv t"
    using inv rel by (auto simp: dg_inv_def release_inv_def same W R)
  ultimately show ?thesis by (simp add: dg_inv_def)
qed

text \<open>Local construction only touches fresh addresses.\<close>

lemma construct_distinct_keys:
  assumes "construct w txs h n = (h', n', b)" "distinct_batch w txs" "x \<in> set (txsNode b)"
  shows "distinct_keys (rwKeys (h' x))"
proof -
  obtain tx where "tx \<in> set txs" "node_of w (h' x) tx"
    using construct_ok(6) [OF assms(1)] assms(3) by (metis in_set_conv_nth list_all2_conv_all_nth)
  with assms(2) show ?thesis by (simp add: distinct_batch_def node_of_def)
qed

lemma dg_inv_local_construct:
  assumes inv: "dg_inv s" and c: "construct w txs (dg_store s) (dg_next s) = (h, n', b)"
    and ok: "distinct_batch w txs"
  shows "dg_inv (s\<lparr>dg_store := h, dg_next := n', dg_built := dg_built s @ [(i, b)]\<rparr>)" (is "dg_inv ?t")
proof -
  have lt: "\<forall>n \<in> set (known_nodes s). n < dg_next s"
    using inv by (simp add: dg_inv_def store_inv_def)
  then have eq: "h n = dg_store s n" if "n \<in> set (known_nodes s)" for n
    using that construct_ok(5) [OF c] by blast
  have p: "pending_batches ?t = pending_batches s @ [b]" "waiting_nodes ?t = waiting_nodes s"
    "known_nodes ?t = known_nodes s @ txsNode b" "released ?t = released s" "outputted ?t = outputted s"
    "releasing ?t = releasing s"
    by (auto simp: dg_state_defs)
  have new: "\<forall>n \<in> set (txsNode b). dg_next s \<le> n \<and> n < n'" "distinct (txsNode b)" "dg_next s \<le> n'"
    using construct_ok(1,2) [OF c] by auto
  have "store_inv ?t"
  proof -
    have "graph_held h (txsNode b') (localDepDetector b')" if "b' \<in> set (pending_batches s)" for b'
    proof (rule graph_held_cong [of "dg_store s"])
      show "graph_held (dg_store s) (txsNode b') (localDepDetector b')"
        using inv that by (simp add: dg_inv_def store_inv_def)
    qed (rule eq [OF waiting_known(2) [OF that]])
    moreover have "distinct (known_nodes s @ txsNode b)"
    proof -
      have "set (known_nodes s) \<inter> set (txsNode b) = {}"
        using lt new(1) by (meson disjoint_iff not_le)
      with inv new(2) show ?thesis by (simp add: dg_inv_def store_inv_def)
    qed
    moreover have "n < n' \<and> distinct_keys (rwKeys (h n))" if "n \<in> set (known_nodes s @ txsNode b)" for n
      using that
    proof (unfold set_append, elim UnE)
      assume "n \<in> set (known_nodes s)"
      with inv eq [of n] lt new(3) show ?thesis
        by (simp add: dg_inv_def store_inv_def node_keys_def) (meson less_le_trans)
    qed (use new construct_distinct_keys [OF c ok, of n] in auto)
    ultimately show ?thesis
      using construct_ok(3,4) [OF c] by (auto simp: store_inv_def p node_keys_def graph_held_def)
  qed
  moreover have "graph_inv ?t"
  proof -
    have "graph_held h (waiting_nodes s) (dependencyDetector (dg_mgr s))"
    proof (rule graph_held_cong [of "dg_store s"])
      show "graph_held (dg_store s) (waiting_nodes s) (dependencyDetector (dg_mgr s))"
        using inv by (simp add: dg_inv_def graph_inv_def)
    qed (rule eq [OF waiting_known(1)])
    then show ?thesis by (simp add: graph_inv_def p)
  qed
  moreover have "release_inv ?t"
  proof -
    have "{n \<in> set (waiting_nodes s). dependsOnTxs (h n) = []} =
          {n \<in> set (waiting_nodes s). dependsOnTxs (dg_store s n) = []}"
      using eq waiting_known(1) [of _ s] by auto
    with inv show ?thesis by (simp add: dg_inv_def release_inv_def p)
  qed
  ultimately show ?thesis by (simp add: dg_inv_def)
qed

text \<open>Adding a batch to the graph.\<close>

lemma graph_held_add:
  assumes g: "graph_held h L det" and b: "graph_held h (txsNode b) (localDepDetector b)"
    and disj: "set L \<inter> set (txsNode b) = {}"
    and fold: "fold (addTxToGraph det) (txsNode b) (h, []) = (h', f)"
  shows "graph_held h' (L @ txsNode b) (mergeWaitingTx det (localDepDetector b))"
    "f = filter (\<lambda>n. dependsOnTxs (h' n) = []) (txsNode b)"
    "\<And>x. x \<in> set L \<Longrightarrow> dependsOnTxs (h' x) = dependsOnTxs (h x)"
    "\<And>x. x \<notin> set (L @ txsNode b) \<Longrightarrow> h' x = h x" "\<And>x. rwKeys (h' x) = rwKeys (h x)"
proof -
  let ?B = "txsNode b" and ?d = "\<lambda>n. getDependenciesOf det (rwKeys (h n))"
  have t: "tracks det (set L) (\<lambda>n. rwKeys (h n))" "tracks (localDepDetector b) (set ?B) (\<lambda>n. rwKeys (h n))"
    and dB: "distinct ?B"
    using g b by (auto simp: graph_held_def graph_ok_def)
  have e: "edges_added h ?B ?d h'" and f: "f = filter (\<lambda>n. ?d n = [] \<and> dependsOnTxs (h n) = []) ?B"
    using fold_addTxToGraph [OF dB fold refl] by auto
  have d: "set (?d n) \<subseteq> set L" for n
    using dd.deps_set [OF t(1)] by auto
  show K: "rwKeys (h' x) = rwKeys (h x)" for x
    using e by (simp add: edges_added_def)
  have "graph_ok h' (L @ ?B)"
    using g b disj dd.deps_set [OF t(1)] dd.deps_distinct [OF t(1)]
    by (intro graph_ok_append [OF _ _ disj e]) (auto simp: graph_held_def)
  then show "graph_held h' (L @ ?B) (mergeWaitingTx det (localDepDetector b))"
    using dd.tracks_merge [OF t disj] by (simp add: graph_held_def K)
  show "dependsOnTxs (h' x) = dependsOnTxs (h x)" if "x \<in> set L" for x
    using e that disj by (auto simp: edges_added_def)
  show "h' x = h x" if "x \<notin> set (L @ ?B)" for x
    using e that d by (auto simp: edges_added_def)
  show "f = filter (\<lambda>n. dependsOnTxs (h' n) = []) ?B"
    unfolding f using e by (intro filter_cong) (auto simp: edges_added_def)
qed

lemma waiting_global_add:
  assumes "dg_inv s" "dg_cpc s = CAcquired b"
  shows "filter (\<lambda>n. n \<notin> set (dg_validated s)) (txsNode b) = txsNode b"
    "set (waiting_nodes s) \<inter> set (txsNode b) = {}" "set (released s) \<inter> set (txsNode b) = {}"
  using assms by (auto simp: dg_inv_defs dg_state_defs filter_id_conv)

lemma dg_inv_global_add:
  assumes inv: "dg_inv s" and pc: "dg_cpc s = CAcquired b"
    and c: "constructDependencyGraph b (dg_store s) (dg_mgr s) = (h, dm, f)"
    and t: "t = s\<lparr>dg_store := h, dg_mgr := dm, dg_arrived := dg_arrived s @ txsNode b,
                  dg_cpc := if length f > 0 then CSend f else CIdle\<rparr>"
  shows "dg_inv t"
proof -
  let ?L = "waiting_nodes s" and ?B = "txsNode b" and ?det = "dependencyDetector (dg_mgr s)"
  have fold: "fold (addTxToGraph ?det) ?B (dg_store s, []) = (h, f)"
    and dm: "dm = (dg_mgr s)\<lparr>dependencyDetector := mergeWaitingTx ?det (localDepDetector b)\<rparr>"
    using c by (auto simp: constructDependencyGraph_def split: prod.splits)
  have held: "graph_held (dg_store s) ?L ?det" "graph_held (dg_store s) ?B (localDepDetector b)"
    using inv pc by (auto simp: dg_inv_defs pending_batches_def acquired_batch_def)
  note add = graph_held_add [OF held waiting_global_add(2) [OF inv pc] fold]
  have p: "pending_batches s = b # pending_batches t" "known_nodes t = known_nodes s"
    "waiting_nodes t = ?L @ ?B" "mset (released t) = mset (released s @ f)" "outputted t = outputted s"
    "releasing t = releasing s" "dg_store t = h" "dg_mgr t = dm" "dg_next t = dg_next s"
    "dg_arrived t = dg_arrived s @ ?B" "dg_validated t = dg_validated s"
    using pc waiting_global_add(1) [OF inv pc] by (auto simp: dg_state_defs dm t)
  have "store_inv t"
  proof -
    have "graph_held h (txsNode b') (localDepDetector b')" if "b' \<in> set (pending_batches t)" for b'
    proof (rule graph_held_cong [of "dg_store s"])
      show "graph_held (dg_store s) (txsNode b') (localDepDetector b')"
        using inv that by (simp add: dg_inv_def store_inv_def p)
      fix n assume n: "n \<in> set (txsNode b')"
      have "distinct (known_nodes s)" using inv by (simp add: dg_inv_def store_inv_def)
      with n that have "n \<notin> set (?L @ ?B)" by (auto simp: known_nodes_def p(1) waiting_nodes_def)
      then show "h n = dg_store s n" by (rule add(4))
    qed
    with inv show ?thesis
      by (simp add: dg_inv_def store_inv_def p(2,7-) node_keys_def add(5))
  qed
  moreover have "graph_inv t"
    using add(1) by (simp add: graph_inv_def p dm)
  moreover have "release_inv t"
  proof -
    have "set (released t) = set (released s) \<union> set f" "distinct (released t) = distinct (released s @ f)"
      using p(4) by (metis mset_eq_setD set_append, metis mset_eq_imp_distinct_iff)
    moreover have "distinct f" "set f \<subseteq> set ?B"
      using held(2) by (auto simp: add(2) graph_held_def graph_ok_def)
    ultimately show ?thesis
      using inv waiting_global_add(3) [OF inv pc] add(2,3)
      by (auto simp: dg_inv_def release_inv_def p(3,5-))
  qed
  ultimately show ?thesis by (simp add: dg_inv_def)
qed

text \<open>Removing validated nodes.\<close>

lemma graph_held_remove:
  assumes g: "graph_held h L det"
    and ns: "distinct ns" "set ns \<subseteq> set L" "\<forall>n \<in> set ns. dependsOnTxs (h n) = []"
      "\<forall>n \<in> set ns. distinct_keys (rwKeys (h n))"
    and fold: "fold freeValidated ns ([], h) = (f, h')"
  shows "graph_held h' (filter (\<lambda>n. n \<notin> set ns) L) (removeWaitingTx (\<lambda>n. rwKeys (h' n)) ns det)"
    "nodes_removed h L ns h' f"
proof -
  show r: "nodes_removed h L ns h' f"
    using nodes_removed_freeValidated [OF _ ns(1-3) fold] g by (auto simp: graph_held_def)
  then have K: "rwKeys (h' x) = rwKeys (h x)" for x by (simp add: nodes_removed_def)
  have "tracks (removeWaitingTx (\<lambda>n. rwKeys (h n)) ns det) (set L - set ns) (\<lambda>n. rwKeys (h n))"
    using g ns by (intro dd.tracks_remove) (auto simp: graph_held_def)
  moreover have "set (filter (\<lambda>n. n \<notin> set ns) L) = set L - set ns" by auto
  ultimately show "graph_held h' (filter (\<lambda>n. n \<notin> set ns) L) (removeWaitingTx (\<lambda>n. rwKeys (h' n)) ns det)"
    using r by (simp add: graph_held_def K nodes_removed_def)
qed

lemma releasing_free:
  assumes inv: "dg_inv s" and pc: "dg_vpc s = VReleased ns"
  shows "distinct ns" "set ns \<subseteq> set (waiting_nodes s)" "\<forall>n \<in> set ns. dependsOnTxs (dg_store s n) = []"
    "\<forall>n \<in> set ns. distinct_keys (rwKeys (dg_store s n))" "set ns \<subseteq> set (outputted s)"
    "set ns \<inter> set (dg_validated s) = {}"
proof -
  have r: "releasing s = ns" using pc by (simp add: releasing_def)
  then have *: "distinct ns" "set ns \<subseteq> set (outputted s) - set (dg_validated s)"
    using inv by (auto simp: dg_inv_defs)
  moreover have "set (outputted s) \<subseteq> set (released s)" by (auto simp: released_def)
  ultimately have **: "set ns \<subseteq> {n \<in> set (waiting_nodes s). dependsOnTxs (dg_store s n) = []}"
    using inv by (auto simp: dg_inv_def release_inv_def)
  then have "\<forall>n \<in> set ns. n \<in> set (known_nodes s)" using waiting_known(1) by blast
  with inv * ** show "distinct ns" "set ns \<subseteq> set (waiting_nodes s)" "\<forall>n \<in> set ns. dependsOnTxs (dg_store s n) = []"
    "\<forall>n \<in> set ns. distinct_keys (rwKeys (dg_store s n))" "set ns \<subseteq> set (outputted s)"
    "set ns \<inter> set (dg_validated s) = {}"
    by (auto simp: dg_inv_def store_inv_def node_keys_def)
qed

lemma dg_inv_validated_remove:
  assumes inv: "dg_inv s" and pc: "dg_vpc s = VReleased ns"
    and c: "processValidatedTransactions ns (dg_store s) (dg_mgr s) = (h, dm, f)"
    and t: "t = s\<lparr>dg_store := h, dg_mgr := dm, dg_validated := dg_validated s @ ns,
                  dg_vpc := if length f > 0 then VFreed f else VIdle\<rparr>"
  shows "dg_inv t"
proof -
  let ?L = "waiting_nodes s" and ?det = "dependencyDetector (dg_mgr s)"
  have fold: "fold freeValidated ns ([], dg_store s) = (f, h)"
    and dm: "dm = (dg_mgr s)\<lparr>dependencyDetector := removeWaitingTx (\<lambda>n. rwKeys (h n)) ns ?det\<rparr>"
    using c by (auto simp: processValidatedTransactions_def split: prod.splits)
  note ns = releasing_free [OF inv pc]
  have held: "graph_held (dg_store s) ?L ?det" using inv by (simp add: dg_inv_defs)
  note rem = graph_held_remove [OF held ns(1-4) fold]
  have p: "pending_batches t = pending_batches s" "known_nodes t = known_nodes s"
    "waiting_nodes t = filter (\<lambda>n. n \<notin> set ns) ?L" "mset (released t) = mset (released s @ f)"
    "outputted t = outputted s" "releasing t = []" "dg_store t = h" "dg_mgr t = dm"
    "dg_next t = dg_next s" "dg_arrived t = dg_arrived s" "dg_validated t = dg_validated s @ ns"
    using pc by (auto simp: dg_state_defs dm t)
  have K: "rwKeys (h x) = rwKeys (dg_store s x)" and frame: "x \<notin> set ?L \<Longrightarrow> h x = dg_store s x" for x
    using rem(2) by (auto simp: nodes_removed_def)
  have "store_inv t"
  proof -
    have "graph_held h (txsNode b) (localDepDetector b)" if "b \<in> set (pending_batches s)" for b
    proof (rule graph_held_cong [of "dg_store s"])
      show "graph_held (dg_store s) (txsNode b) (localDepDetector b)"
        using inv that by (simp add: dg_inv_def store_inv_def)
      fix n assume n: "n \<in> set (txsNode b)"
      have "distinct (known_nodes s)" using inv by (simp add: dg_inv_def store_inv_def)
      with n that have "n \<notin> set ?L" by (auto simp: known_nodes_def waiting_nodes_def)
      then show "h n = dg_store s n" by (rule frame)
    qed
    with inv show ?thesis by (simp add: dg_inv_def store_inv_def p(1,2,7-) node_keys_def K)
  qed
  moreover have "graph_inv t"
    using rem(1) by (simp add: graph_inv_def p dm)
  moreover have "release_inv t"
  proof -
    have "set (released t) = set (released s) \<union> set f" "distinct (released t) = distinct (released s @ f)"
      using p(4) by (metis mset_eq_setD set_append, metis mset_eq_imp_distinct_iff)
    moreover have "set (dg_validated s) \<inter> set ?L = {}" "set ?L \<subseteq> set (dg_arrived s)"
      by (auto simp: waiting_nodes_def)
    ultimately show ?thesis
      using inv rem(2) ns by (auto simp: dg_inv_def release_inv_def nodes_removed_def p(3,5-))
  qed
  ultimately show ?thesis by (simp add: dg_inv_def)
qed

lemmas dg_mgr_defs = acquireSlots_def releaseSlots_def addFreed_def signalFreed_def waitFreed_def
  removeFreed_def

lemma dg_inv_releasing:
  "dg_inv s \<Longrightarrow> distinct (releasing s) \<and> set (releasing s) \<subseteq> set (outputted s) - set (dg_validated s)"
  by (simp add: dg_inv_def release_inv_def)

lemma dg_inv_step:
  assumes "dg_step w ok s t" "dg_inv s" "\<And>txs. ok txs \<Longrightarrow> distinct_batch w txs"
  shows "dg_inv t"
proof -
  note rel = dg_inv_releasing [OF assms(2)]
  show ?thesis
    using assms(1)
  proof cases
    case (local_construct txs h n b i)
    then show ?thesis using assms(2,3) dg_inv_local_construct by blast
  next
    case (local_output xs i b ys)
    then show ?thesis using rel
      by (intro dg_inv_move [OF assms(2)]) (auto simp: dg_state_defs)
  next
    case (global_acquire b q dm)
    then show ?thesis using rel
      by (intro dg_inv_move [OF assms(2)]) (auto simp: dg_state_defs acquireSlots_def)
  next
    case (global_add b h dm f)
    with assms(2) show ?thesis using dg_inv_global_add by blast
  next
    case (global_send txs)
    then show ?thesis using rel
      by (intro dg_inv_move [OF assms(2)]) (auto simp: dg_state_defs)
  next
    case (validated_read txs)
    then show ?thesis using rel
      by (intro dg_inv_move [OF assms(2)]) (auto simp: dg_state_defs releaseSlots_def)
  next
    case (validated_remove txs h dm f)
    with assms(2) show ?thesis using dg_inv_validated_remove by blast
  next
    case (validated_add f)
    then show ?thesis using rel
      by (intro dg_inv_move [OF assms(2)]) (auto simp: dg_state_defs addFreed_def)
  next
    case validated_signal
    then show ?thesis using rel
      by (intro dg_inv_move [OF assms(2)]) (auto simp: dg_state_defs signalFreed_def)
  next
    case (freed_wait dm)
    then show ?thesis using rel
      by (intro dg_inv_move [OF assms(2)]) (auto simp: dg_state_defs waitFreed_def split: if_splits)
  next
    case (freed_take txs dm)
    then show ?thesis using rel
      by (intro dg_inv_move [OF assms(2)]) (auto simp: dg_state_defs removeFreed_def)
  next
    case (freed_send txs)
    then show ?thesis using rel
      by (intro dg_inv_move [OF assms(2)]) (auto simp: dg_state_defs)
  qed
qed

lemma dg_reachable_inv:
  assumes "dg_reachable w ok limit s" "\<And>txs. ok txs \<Longrightarrow> distinct_batch w txs"
  shows "dg_inv s"
  using assms(1) by induction (use assms(2) dg_inv_init dg_inv_step in blast)+

end
