(* ===== verification/State_DB.thy ===== *)
theory State_DB
  imports Ordered_Encoding
begin

text \<open>
  The state database: the tables and stored functions of \<open>utils/statedb/init_database_tmpl.sql\<close> and
  \<open>create_namespace_tmpl.sql\<close>, and the set-up of \<open>dbinit.go\<close>. A table is a map from its primary key
  to the rest of the row. A stored function that catches \<open>unique_violation\<close> leaves the table as it
  was and returns the keys that exist; a table that was never created is an error of the query.
  A database transaction is a function from the state to the new state, so that a roll-back is
  keeping the old one.
\<close>

record row =
  row_value :: bytes
  row_version :: nat

type_synonym ns_table = "bytes \<rightharpoonup> row"
type_synonym tx_status_table = "bytes \<rightharpoonup> Status \<times> bytes"

record database =
  db_ns :: "string \<rightharpoonup> ns_table"
  tx_status :: tx_status_table
  metadata :: "bytes \<rightharpoonup> bytes option"
  clones :: "string \<rightharpoonup> (string \<rightharpoonup> ns_table) \<times> tx_status_table"

datatype db_error =
    NoTable string
  | BigintOutOfRange
  | EncodingPanic
  | HeightNotPassed string
  | BadHeight decode_error
  | ReadNotFound "string \<times> bytes \<times> int"
  | SnapshotNotFound bytes
  | SnapshotUndecodable
  | SnapshotMarshal
  | UnspecifiedStatus
  | UnexpectedSnapshotStatus
  | NoSnapshotToMark
  | AlreadyTerminal
  | NotLatestSnapshot
  | NoTxRef
  | AdminError string
  | CheckpointKeyError decode_error
  | CheckpointValueError
  | TwoCheckpoints
  | TooManyRetries

section \<open>Stored functions\<close>

definition insert_ns :: "bytes list \<Rightarrow> bytes list \<Rightarrow> ns_table \<Rightarrow> bytes list \<times> ns_table" where
  "insert_ns keys vals t =
     (if distinct keys \<and> (\<forall>k \<in> set keys. t k = None)
      then ([], fold (\<lambda>(k, v) t. t(k \<mapsto> \<lparr>row_value = v, row_version = 0\<rparr>)) (zip keys vals) t)
      else (filter (\<lambda>k. t k \<noteq> None) (remdups keys), t))"

text \<open>
  The update joins the table with the arguments; a key that is not in the table is not updated. SQL
  leaves open which row of the arguments is used for a key that stands twice; here it is the last.
\<close>

definition update_ns :: "bytes list \<Rightarrow> bytes list \<Rightarrow> nat list \<Rightarrow> ns_table \<Rightarrow> ns_table" where
  "update_ns keys vals versions t =
     fold (\<lambda>(k, v, ver) t. if t k = None then t else t(k \<mapsto> \<lparr>row_value = v, row_version = ver\<rparr>))
       (zip keys (zip vals versions)) t"

text \<open>The positions, counted from 1, whose committed version is distinct from the expected one.\<close>

definition validate_reads_ns :: "bytes list \<Rightarrow> nat option list \<Rightarrow> ns_table \<Rightarrow> nat list" where
  "validate_reads_ns keys versions t =
     filter (\<lambda>i. map_option row_version (t (keys ! (i - 1))) \<noteq> versions ! (i - 1)) [1..<Suc (length keys)]"

definition insert_tx_status :: "bytes list \<Rightarrow> Status list \<Rightarrow> bytes list \<Rightarrow> tx_status_table \<Rightarrow> bytes list \<times> tx_status_table" where
  "insert_tx_status ids statuses heights t =
     (if distinct ids \<and> (\<forall>i \<in> set ids. t i = None)
      then ([], fold (\<lambda>(i, s, h) t. t(i \<mapsto> (s, h))) (zip ids (zip statuses heights)) t)
      else (filter (\<lambda>i. t i \<noteq> None) (remdups ids), t))"

section \<open>Metadata and tables\<close>

definition setMetadata :: "bytes \<Rightarrow> bytes \<Rightarrow> database \<Rightarrow> database" where
  "setMetadata k v db = (if metadata db k = None then db else db\<lparr>metadata := (metadata db)(k \<mapsto> Some v)\<rparr>)"

definition lastCommittedBlockNumberKey :: bytes where
  "lastCommittedBlockNumberKey = ''last committed block number''"

definition LatestSnapshotPointerKey :: bytes where
  "LatestSnapshotPointerKey = ''latest snapshot key''"

text \<open>\<open>CREATE TABLE IF NOT EXISTS\<close> and \<open>ON CONFLICT DO NOTHING\<close>: what is there stays.\<close>

definition create_ns_table :: "string \<Rightarrow> database \<Rightarrow> database" where
  "create_ns_table ns db =
     (if db_ns db ns = None then db\<lparr>db_ns := (db_ns db)(ns \<mapsto> Map.empty)\<rparr> else db)"

definition seed_metadata :: "bytes \<Rightarrow> database \<Rightarrow> database" where
  "seed_metadata k db = (if metadata db k = None then db\<lparr>metadata := (metadata db)(k \<mapsto> None)\<rparr> else db)"

definition SetupSystemTablesAndNamespaces :: "string list \<Rightarrow> database \<Rightarrow> database" where
  "SetupSystemTablesAndNamespaces systemNamespaces db =
     fold create_ns_table systemNamespaces
       (seed_metadata LatestSnapshotPointerKey (seed_metadata lastCommittedBlockNumberKey db))"

definition empty_database :: database where
  "empty_database = \<lparr>db_ns = Map.empty, tx_status = Map.empty, metadata = Map.empty, clones = Map.empty\<rparr>"

section \<open>Lemmas\<close>

lemma insert_ns_ok:
  assumes "distinct keys" "\<forall>k \<in> set keys. t k = None" "length vals = length keys"
  shows "insert_ns keys vals t =
    ([], t ++ map_of (map (\<lambda>(k, v). (k, \<lparr>row_value = v, row_version = 0\<rparr>)) (zip keys vals)))"
proof -
  have "map fst (zip keys vals) = keys"
    using assms(3) by simp
  then show ?thesis
    using assms fold_map_upd [of "zip keys vals" "\<lambda>v. \<lparr>row_value = v, row_version = 0\<rparr>" t]
    by (simp add: insert_ns_def)
qed

lemma insert_ns_violating:
  "set (fst (insert_ns keys vals t)) \<subseteq> set keys \<inter> dom t"
  by (auto simp: insert_ns_def)

lemma insert_ns_reject:
  assumes "k \<in> set keys" "t k \<noteq> None"
  shows "k \<in> set (fst (insert_ns keys vals t)) \<and> snd (insert_ns keys vals t) = t"
  using assms by (auto simp: insert_ns_def)

lemma validate_reads_ns_iff:
  assumes "i < length keys"
  shows "Suc i \<in> set (validate_reads_ns keys versions t) \<longleftrightarrow> map_option row_version (t (keys ! i)) \<noteq> versions ! i"
  using assms by (auto simp: validate_reads_ns_def simp del: upt_Suc)

lemma validate_reads_ns_range: "i \<in> set (validate_reads_ns keys versions t) \<Longrightarrow> 1 \<le> i \<and> i \<le> length keys"
  by (auto simp: validate_reads_ns_def)

lemma update_ns_ok:
  assumes "distinct keys" "length vals = length keys" "length versions = length keys"
  shows "update_ns keys vals versions t k =
    (case t k of None \<Rightarrow> None
     | Some r \<Rightarrow> (case map_of (zip keys (zip vals versions)) k of
                    None \<Rightarrow> Some r
                  | Some (v, ver) \<Rightarrow> Some \<lparr>row_value = v, row_version = ver\<rparr>))"
  using assms
proof (induction keys arbitrary: t vals versions)
  case Nil
  then show ?case by (simp add: update_ns_def split: option.splits)
next
  case (Cons k' keys)
  then obtain v vs n ns where v: "vals = v # vs" "versions = n # ns"
    by (cases "vals"; cases versions) auto
  let ?t = "if t k' = None then t else t(k' \<mapsto> \<lparr>row_value = v, row_version = n\<rparr>)"
  have U: "update_ns (k' # keys) vals versions t = update_ns keys vs ns ?t"
    by (simp add: update_ns_def v)
  have E: "update_ns keys vs ns ?t k =
    (case ?t k of None \<Rightarrow> None
     | Some r \<Rightarrow> (case map_of (zip keys (zip vs ns)) k of
                    None \<Rightarrow> Some r
                  | Some (v, ver) \<Rightarrow> Some \<lparr>row_value = v, row_version = ver\<rparr>))"
    using Cons.prems v by (intro Cons.IH) auto
  have "map_of (zip keys (zip vs ns)) k' = None"
    using Cons.prems by (auto simp: map_of_eq_None_iff dest: set_zip_leftD)
  then show ?case
    unfolding U E by (cases "t k'"; cases "t k"; cases "k = k'") (simp_all add: v)
qed

lemma insert_tx_status_ok:
  assumes "distinct ids" "\<forall>i \<in> set ids. t i = None" "length ss = length ids" "length hs = length ids"
  shows "insert_tx_status ids ss hs t = ([], t ++ map_of (zip ids (zip ss hs)))"
proof -
  have "map fst (zip ids (zip ss hs)) = ids"
    using assms(3,4) by simp
  moreover have "(\<lambda>(i, s, h) (t :: tx_status_table). t(i \<mapsto> (s, h))) = (\<lambda>(k, v) t. t(k \<mapsto> v))"
    by (auto simp: fun_eq_iff)
  ultimately show ?thesis
    using assms fold_map_upd [of "zip ids (zip ss hs)" "\<lambda>v. v" t]
    by (simp add: insert_tx_status_def)
qed

lemma insert_tx_status_duplicates:
  "distinct ids \<Longrightarrow> set (fst (insert_tx_status ids ss hs t)) = set ids \<inter> dom t"
  by (auto simp: insert_tx_status_def)

end
