(* ===== verification/VC_Preparer.thy ===== *)
theory VC_Preparer
  imports State_DB
begin

text \<open>
  \<open>service/vc/preparer.go\<close>: the grouping of a batch of transactions into the reads per namespace, the
  transactions per read, and the three kinds of writes per transaction. The maps the code ranges over
  are association lists; a pointer obtained from a \<open>getOrCreate\<close> and appended to is an update of the
  entry.
\<close>

type_synonym TxID = string

section \<open>Reads and writes\<close>

record comparableRead =
  cr_nsID :: string
  cr_key :: bytes
  cr_version :: int

definition newCmpRead :: "string \<Rightarrow> bytes \<Rightarrow> u64 option \<Rightarrow> comparableRead" where
  "newCmpRead nsID key version =
     \<lparr>cr_nsID = nsID, cr_key = key, cr_version = (case version of None \<Rightarrow> -1 | Some v \<Rightarrow> sint v)\<rparr>"

record reads =
  rd_keys :: "bytes list"
  rd_versions :: "u64 option list"

definition noReads :: reads where
  "noReads = \<lparr>rd_keys = [], rd_versions = []\<rparr>"

definition reads_append :: "bytes \<Rightarrow> u64 option \<Rightarrow> reads \<Rightarrow> reads" where
  "reads_append key version r = \<lparr>rd_keys = rd_keys r @ [key], rd_versions = rd_versions r @ [version]\<rparr>"

definition reads_appendMany :: "bytes list \<Rightarrow> u64 option list \<Rightarrow> reads \<Rightarrow> reads" where
  "reads_appendMany ks vs r = \<lparr>rd_keys = rd_keys r @ ks, rd_versions = rd_versions r @ vs\<rparr>"

definition reads_empty :: "reads \<Rightarrow> bool" where
  "reads_empty r \<longleftrightarrow> length (rd_keys r) = 0"

record namespaceWrites =
  nw_keys :: "bytes list"
  nw_values :: "bytes list"
  nw_versions :: "u64 list"

definition noWrites :: namespaceWrites where
  "noWrites = \<lparr>nw_keys = [], nw_values = [], nw_versions = []\<rparr>"

definition nw_append :: "bytes \<Rightarrow> bytes \<Rightarrow> u64 \<Rightarrow> namespaceWrites \<Rightarrow> namespaceWrites" where
  "nw_append key value version nw =
     \<lparr>nw_keys = nw_keys nw @ [key], nw_values = nw_values nw @ [value], nw_versions = nw_versions nw @ [version]\<rparr>"

definition nw_appendWrites :: "namespaceWrites \<Rightarrow> namespaceWrites \<Rightarrow> namespaceWrites" where
  "nw_appendWrites other nw =
     \<lparr>nw_keys = nw_keys nw @ nw_keys other, nw_values = nw_values nw @ nw_values other,
      nw_versions = nw_versions nw @ nw_versions other\<rparr>"

definition nw_empty :: "namespaceWrites \<Rightarrow> bool" where
  "nw_empty nw \<longleftrightarrow> length (nw_keys nw) = 0"

type_synonym namespaceToReads = "(string, reads) gomap"
type_synonym readToTransactions = "comparableRead \<rightharpoonup> TxID list"
type_synonym namespaceToWrites = "(string, namespaceWrites) gomap"
type_synonym transactionToWrites = "(TxID, namespaceToWrites) gomap"

definition namespaceToReads_empty :: "namespaceToReads \<Rightarrow> bool" where
  "namespaceToReads_empty nr \<longleftrightarrow> list_all (\<lambda>(ns, r). reads_empty r) nr"

definition namespaceToWrites_empty :: "namespaceToWrites \<Rightarrow> bool" where
  "namespaceToWrites_empty nw \<longleftrightarrow> list_all (\<lambda>(ns, w). nw_empty w) nw"

definition nsReads_getOrCreate :: "string \<Rightarrow> namespaceToReads \<Rightarrow> namespaceToReads" where
  "nsReads_getOrCreate nsID nr = (if map_of nr nsID = None then go_put nsID noReads nr else nr)"

definition nsReads_update :: "string \<Rightarrow> (reads \<Rightarrow> reads) \<Rightarrow> namespaceToReads \<Rightarrow> namespaceToReads" where
  "nsReads_update nsID f nr = go_put nsID (f (go_get noReads nr nsID)) nr"

definition nsWrites_update :: "string \<Rightarrow> (namespaceWrites \<Rightarrow> namespaceWrites) \<Rightarrow> namespaceToWrites \<Rightarrow> namespaceToWrites" where
  "nsWrites_update nsID f nw = go_put nsID (f (go_get noWrites nw nsID)) nw"

definition txWrites_update :: "TxID \<Rightarrow> string \<Rightarrow> (namespaceWrites \<Rightarrow> namespaceWrites)
    \<Rightarrow> transactionToWrites \<Rightarrow> transactionToWrites" where
  "txWrites_update i nsID f tw = go_put i (nsWrites_update nsID f (go_get [] tw i)) tw"

definition txWrites_getOrCreate :: "TxID \<Rightarrow> string \<Rightarrow> transactionToWrites \<Rightarrow> transactionToWrites" where
  "txWrites_getOrCreate i nsID tw = txWrites_update i nsID (\<lambda>nw. nw) tw"

text \<open>\<open>clearEmpty\<close>: the transactions without any write go, and the empty namespaces of the others.\<close>

definition clearEmpty :: "transactionToWrites \<Rightarrow> transactionToWrites" where
  "clearEmpty tw =
     map (\<lambda>(i, ntw). (i, filter (\<lambda>(ns, nw). \<not> nw_empty nw) ntw))
       (filter (\<lambda>(i, ntw). \<not> namespaceToWrites_empty ntw) tw)"

section \<open>The prepared batch\<close>

record checkpointTx =
  cp_txID :: TxID
  cp_ref :: TxRef
  cp_snapshotBlockNum :: u64
  cp_value :: bytes

record preparedTransactions =
  nsToReads :: namespaceToReads
  readToTxIDs :: readToTransactions
  txIDToNsNonBlindWrites :: transactionToWrites
  txIDToNsBlindWrites :: transactionToWrites
  txIDToNsNewWrites :: transactionToWrites
  invalidTxIDStatus :: "(TxID, Status) gomap"
  txIDToHeight :: "TxID \<rightharpoonup> Height"
  prep_checkpoint :: "checkpointTx option"

definition newPreparedTransactions :: preparedTransactions where
  "newPreparedTransactions =
     \<lparr>nsToReads = [], readToTxIDs = Map.empty, txIDToNsNonBlindWrites = [], txIDToNsBlindWrites = [],
      txIDToNsNewWrites = [], invalidTxIDStatus = [], txIDToHeight = Map.empty, prep_checkpoint = None\<rparr>"

text \<open>The bookkeeping of one read: its transactions, and whether it was known before.\<close>

definition recordRead :: "TxID \<Rightarrow> comparableRead \<Rightarrow> preparedTransactions \<Rightarrow> preparedTransactions" where
  "recordRead i cr p =
     p\<lparr>readToTxIDs := (readToTxIDs p)(cr \<mapsto> (case readToTxIDs p cr of None \<Rightarrow> [] | Some l \<Rightarrow> l) @ [i])\<rparr>"

definition addRead :: "TxID \<Rightarrow> string \<Rightarrow> Read \<Rightarrow> preparedTransactions \<Rightarrow> preparedTransactions" where
  "addRead i nsID r p =
     (let cr = newCmpRead nsID (r_key r) (r_version r);
          present = readToTxIDs p cr \<noteq> None;
          p1 = recordRead i cr p
      in if \<not> present then p1\<lparr>nsToReads := nsReads_update nsID (reads_append (r_key r) (r_version r)) (nsToReads p1)\<rparr>
         else p1)"

definition addReadsOnly :: "TxID \<Rightarrow> TxNamespace \<Rightarrow> preparedTransactions \<Rightarrow> preparedTransactions" where
  "addReadsOnly i ns p =
     (if length (ns_reads_only ns) = 0 then p
      else fold (addRead i (ns_id ns)) (ns_reads_only ns)
             (p\<lparr>nsToReads := nsReads_getOrCreate (ns_id ns) (nsToReads p)\<rparr>))"

definition addReadWrite :: "TxID \<Rightarrow> string \<Rightarrow> ReadWrite \<Rightarrow> preparedTransactions \<Rightarrow> preparedTransactions" where
  "addReadWrite i nsID rw p =
     (let cr = newCmpRead nsID (rw_key rw) (rw_version rw);
          present = readToTxIDs p cr \<noteq> None;
          p1 = recordRead i cr p
      in case rw_version rw of
           Some v \<Rightarrow>
             (let p2 = (if \<not> present
                        then p1\<lparr>nsToReads := nsReads_update nsID (reads_append (rw_key rw) (Some v)) (nsToReads p1)\<rparr>
                        else p1)
              in p2\<lparr>txIDToNsNonBlindWrites :=
                      txWrites_update i nsID (nw_append (rw_key rw) (rw_value rw) (v + 1)) (txIDToNsNonBlindWrites p2)\<rparr>)
         | None \<Rightarrow>
             p1\<lparr>txIDToNsNewWrites :=
                  txWrites_update i nsID (nw_append (rw_key rw) (rw_value rw) 0) (txIDToNsNewWrites p1)\<rparr>)"

definition addReadWrites :: "TxID \<Rightarrow> TxNamespace \<Rightarrow> preparedTransactions \<Rightarrow> preparedTransactions" where
  "addReadWrites i ns p =
     (if length (ns_read_writes ns) = 0 then p
      else fold (addReadWrite i (ns_id ns)) (ns_read_writes ns)
             (p\<lparr>nsToReads := nsReads_getOrCreate (ns_id ns) (nsToReads p),
                txIDToNsNonBlindWrites := txWrites_getOrCreate i (ns_id ns) (txIDToNsNonBlindWrites p),
                txIDToNsNewWrites := txWrites_getOrCreate i (ns_id ns) (txIDToNsNewWrites p)\<rparr>))"

definition addBlindWrites :: "TxID \<Rightarrow> TxNamespace \<Rightarrow> preparedTransactions \<Rightarrow> preparedTransactions" where
  "addBlindWrites i ns p =
     (if length (ns_blind_writes ns) = 0 then p
      else p\<lparr>txIDToNsBlindWrites :=
               fold (\<lambda>w. txWrites_update i (ns_id ns) (nw_append (w_key w) (w_value w) 0)) (ns_blind_writes ns)
                 (txWrites_getOrCreate i (ns_id ns) (txIDToNsBlindWrites p))\<rparr>)"

text \<open>A namespace that carries a single read, for the dependency on the version of a namespace.\<close>

definition readOnlyNamespace :: "string \<Rightarrow> bytes \<Rightarrow> u64 \<Rightarrow> TxNamespace" where
  "readOnlyNamespace nsID key version =
     \<lparr>ns_id = nsID, ns_version = 0, ns_reads_only = [\<lparr>r_key = key, r_version = Some version\<rparr>],
      ns_read_writes = [], ns_blind_writes = []\<rparr>"

text \<open>The namespace with the one new key a snapshot transaction writes.\<close>

definition snapshotNamespace :: "TxRef \<Rightarrow> bytes \<Rightarrow> TxNamespace" where
  "snapshotNamespace ref state =
     \<lparr>ns_id = SnapshotNamespaceID, ns_version = 0, ns_reads_only = [],
      ns_read_writes = [\<lparr>rw_key = ref_tx_id ref, rw_version = None, rw_value = state\<rparr>], ns_blind_writes = []\<rparr>"

definition newSnapshotState :: "TxRef \<Rightarrow> SnapshotState" where
  "newSnapshotState ref =
     \<lparr>ss_tx_ref = Some ref, ss_status = SnapUnspecified, ss_hash = [], ss_clone_database = [], ss_error = []\<rparr>"

definition addNamespaceVersion :: "TxID \<Rightarrow> TxNamespace \<Rightarrow> preparedTransactions \<Rightarrow> preparedTransactions" where
  "addNamespaceVersion i ns p =
     (if ns_id ns = MetaNamespaceID
      then addReadsOnly i (readOnlyNamespace ConfigNamespaceID ConfigKey (ns_version ns)) p
      else if ns_id ns = ConfigNamespaceID \<or> ns_id ns = CheckpointNamespaceID then p
      else addReadsOnly i (readOnlyNamespace MetaNamespaceID (ns_id ns) (ns_version ns)) p)"

definition prepareNamespace :: "wire \<Rightarrow> TxRef \<Rightarrow> TxNamespace \<Rightarrow> preparedTransactions
    \<Rightarrow> db_error + preparedTransactions" where
  "prepareNamespace w ref ns p =
     (let i = ref_tx_id ref
      in if ns_id ns = SnapshotNamespaceID then
           (case MarshalSnapshotState w (newSnapshotState ref) of
              None \<Rightarrow> Inl SnapshotMarshal
            | Some state \<Rightarrow> Inr (addReadWrites i (snapshotNamespace ref state) p))
         else Inr (addNamespaceVersion i ns (addBlindWrites i ns (addReadWrites i ns (addReadsOnly i ns p)))))"

definition prepareTx :: "wire \<Rightarrow> VcTx \<Rightarrow> preparedTransactions \<Rightarrow> db_error + preparedTransactions" where
  "prepareTx w tx p =
     (let i = ref_tx_id (vc_ref tx)
      in if txIDToHeight p i \<noteq> None then Inr p
         else
           let p1 = p\<lparr>txIDToHeight := (txIDToHeight p)(i \<mapsto> NewHeightFromTxRef (vc_ref tx))\<rparr>
           in case vc_prelim_invalid tx of
                Some st \<Rightarrow> Inr (p1\<lparr>invalidTxIDStatus := go_put i st (invalidTxIDStatus p1)\<rparr>)
              | None \<Rightarrow> loop_err (prepareNamespace w (vc_ref tx)) (vc_namespaces tx) p1)"

definition checkpointOfTx :: "wire \<Rightarrow> (TxID \<rightharpoonup> Height) \<Rightarrow> TxID \<times> namespaceToWrites \<Rightarrow> checkpointTx option
    \<Rightarrow> db_error + checkpointTx option" where
  "checkpointOfTx w heights = (\<lambda>(i, nsWrites) cp.
     let nw = go_get noWrites nsWrites CheckpointNamespaceID
     in if nw_empty nw then Inr cp
        else case BlockNumFromCheckpointKey w (hd (nw_keys nw)) of
               Inl e \<Rightarrow> Inl (CheckpointKeyError e)
             | Inr blockNum \<Rightarrow>
                 if \<not> IsValidCheckpointValue (hd (nw_values nw)) then Inl CheckpointValueError
                 else if cp \<noteq> None then Inl TwoCheckpoints
                 else case heights i of
                        None \<Rightarrow> Inl (HeightNotPassed i)
                      | Some h \<Rightarrow>
                          Inr (Some \<lparr>cp_txID = i,
                                     cp_ref = \<lparr>ref_block_num = h_block_num h, ref_tx_id = i, ref_tx_num = h_tx_num h\<rparr>,
                                     cp_snapshotBlockNum = blockNum, cp_value = hd (nw_values nw)\<rparr>))"

definition checkpointWriteInBatch :: "wire \<Rightarrow> preparedTransactions \<Rightarrow> db_error + checkpointTx option" where
  "checkpointWriteInBatch w p = loop_err (checkpointOfTx w (txIDToHeight p)) (txIDToNsNewWrites p) None"

definition prepare :: "wire \<Rightarrow> VcTx list \<Rightarrow> db_error + preparedTransactions" where
  "prepare w txs =
     (case loop_err (prepareTx w) txs newPreparedTransactions of
        Inl e \<Rightarrow> Inl e
      | Inr p \<Rightarrow>
          let p1 = p\<lparr>nsToReads := filter (\<lambda>(ns, r). length (rd_keys r) \<noteq> 0) (nsToReads p),
                     txIDToNsNonBlindWrites := clearEmpty (txIDToNsNonBlindWrites p),
                     txIDToNsBlindWrites := clearEmpty (txIDToNsBlindWrites p),
                     txIDToNsNewWrites := clearEmpty (txIDToNsNewWrites p)\<rparr>
          in case checkpointWriteInBatch w p1 of
               Inl e \<Rightarrow> Inl e
             | Inr cp \<Rightarrow> Inr (p1\<lparr>prep_checkpoint := cp\<rparr>))"

end
