(* ===== verification/Snapshot_State.thy ===== *)
theory Snapshot_State
  imports State_DB
begin

text \<open>
  The durable snapshot lifecycle: \<open>utils/statedb/snapshot_state.go\<close> (the \<open>_snapshot\<close> records, the
  pointer to the latest one, the transitions) and \<open>snapshot_clone.go\<close> (deletion of a clone
  database). An operation on the database is a function from the state to an error or to a result
  and the new state; an operation that fails leaves the state as it was.
\<close>

definition known_status :: "SnapshotStatus \<Rightarrow> bool" where
  "known_status s \<longleftrightarrow> (case s of SnapUnknown n \<Rightarrow> False | _ \<Rightarrow> True)"

definition DecodeSnapshotState :: "wire \<Rightarrow> bytes \<Rightarrow> db_error + SnapshotState" where
  "DecodeSnapshotState w raw =
     (case UnmarshalSnapshotState w raw of
        None \<Rightarrow> Inl SnapshotUndecodable
      | Some state \<Rightarrow> if \<not> known_status (ss_status state) then Inl SnapshotUndecodable else Inr state)"

definition EncodeSnapshotState :: "wire \<Rightarrow> SnapshotState \<Rightarrow> db_error + bytes" where
  "EncodeSnapshotState w state =
     (case MarshalSnapshotState w state of None \<Rightarrow> Inl SnapshotMarshal | Some raw \<Rightarrow> Inr raw)"

text \<open>\<open>SELECT value FROM ns__snapshot WHERE key = $1\<close>; \<open>None\<close> is no row.\<close>

definition selectSnapshotRecord :: "bytes \<Rightarrow> database \<Rightarrow> db_error + bytes option" where
  "selectSnapshotRecord key db =
     (case db_ns db SnapshotNamespaceID of
        None \<Rightarrow> Inl (NoTable SnapshotNamespaceID)
      | Some t \<Rightarrow> Inr (map_option row_value (t key)))"

text \<open>\<open>UPDATE ns__snapshot SET value = $2, version = version + 1 WHERE key = $1\<close>.\<close>

definition updateSnapshotRecord :: "bytes \<Rightarrow> bytes \<Rightarrow> database \<Rightarrow> db_error + database" where
  "updateSnapshotRecord key value db =
     (case db_ns db SnapshotNamespaceID of
        None \<Rightarrow> Inl (NoTable SnapshotNamespaceID)
      | Some t \<Rightarrow>
          (case t key of
             None \<Rightarrow> Inr db
           | Some r \<Rightarrow> Inr (db\<lparr>db_ns := (db_ns db)(SnapshotNamespaceID \<mapsto>
               t(key \<mapsto> \<lparr>row_value = value, row_version = row_version r + 1\<rparr>))\<rparr>)))"

text \<open>The value of the pointer row; \<open>[]\<close> when it is NULL.\<close>

definition latestSnapshotKey :: "database \<Rightarrow> db_error + bytes" where
  "latestSnapshotKey db =
     (case metadata db LatestSnapshotPointerKey of
        None \<Rightarrow> Inl NoSnapshotToMark
      | Some None \<Rightarrow> Inr []
      | Some (Some key) \<Rightarrow> Inr key)"

definition readRecord :: "wire \<Rightarrow> bytes \<Rightarrow> database \<Rightarrow> db_error + SnapshotState" where
  "readRecord w key db =
     (case selectSnapshotRecord key db of
        Inl e \<Rightarrow> Inl e
      | Inr None \<Rightarrow> Inl (SnapshotNotFound key)
      | Inr (Some raw) \<Rightarrow> DecodeSnapshotState w raw)"

definition ReadLatest :: "wire \<Rightarrow> database \<Rightarrow> db_error + SnapshotState option" where
  "ReadLatest w db =
     (case latestSnapshotKey db of
        Inl e \<Rightarrow> Inl e
      | Inr key \<Rightarrow>
          if length key = 0 then Inr None
          else (case readRecord w key db of Inl e \<Rightarrow> Inl e | Inr state \<Rightarrow> Inr (Some state)))"

record SnapshotUpdate =
  upd_status :: SnapshotStatus
  upd_digest :: "bytes option"
  upd_err_msg :: string
  upd_expected :: "SnapshotStatus list"
  upd_clear_clone :: bool

definition applyUpdate :: "SnapshotUpdate \<Rightarrow> SnapshotState \<Rightarrow> SnapshotState" where
  "applyUpdate update state =
     (let s1 = state\<lparr>ss_status := upd_status update\<rparr>;
          s2 = (case upd_digest update of None \<Rightarrow> s1 | Some d \<Rightarrow> s1\<lparr>ss_hash := d\<rparr>)
      in if upd_clear_clone update then s2\<lparr>ss_clone_database := []\<rparr> else s2\<lparr>ss_error := upd_err_msg update\<rparr>)"

definition Update :: "wire \<Rightarrow> string \<Rightarrow> SnapshotUpdate \<Rightarrow> database \<Rightarrow> db_error + database" where
  "Update w txID update db =
     (if upd_status update = SnapUnspecified then Inl UnspecifiedStatus
      else case selectSnapshotRecord txID db of
        Inl e \<Rightarrow> Inl e
      | Inr None \<Rightarrow> Inl (SnapshotNotFound txID)
      | Inr (Some raw) \<Rightarrow>
          (case DecodeSnapshotState w raw of
             Inl e \<Rightarrow> Inl e
           | Inr state \<Rightarrow>
               if length (upd_expected update) > 0 \<and> ss_status state \<notin> set (upd_expected update)
               then Inl UnexpectedSnapshotStatus
               else case EncodeSnapshotState w (applyUpdate update state) of
                      Inl e \<Rightarrow> Inl e
                    | Inr newRaw \<Rightarrow> updateSnapshotRecord txID newRaw db))"

definition MarkSnapshotTerminalInTx :: "wire \<Rightarrow> u64 \<Rightarrow> SnapshotStatus \<Rightarrow> database \<Rightarrow> db_error + database" where
  "MarkSnapshotTerminalInTx w blockNum target db =
     (case latestSnapshotKey db of
        Inl e \<Rightarrow> Inl e
      | Inr key \<Rightarrow>
          if length key = 0 then Inl NoSnapshotToMark
          else case selectSnapshotRecord key db of
                 Inl e \<Rightarrow> Inl e
               | Inr None \<Rightarrow> Inl (SnapshotNotFound key)
               | Inr (Some raw) \<Rightarrow>
                   (case DecodeSnapshotState w raw of
                      Inl e \<Rightarrow> Inl e
                    | Inr state \<Rightarrow>
                        if ss_status state = target then Inr db
                        else if ss_status state = SnapCheckpointed \<or> ss_status state = SnapAborted
                        then Inl AlreadyTerminal
                        else if (case ss_tx_ref state of None \<Rightarrow> True | Some ref \<Rightarrow> ref_block_num ref \<noteq> blockNum)
                        then Inl NotLatestSnapshot
                        else case EncodeSnapshotState w (state\<lparr>ss_status := target\<rparr>) of
                               Inl e \<Rightarrow> Inl e
                             | Inr newRaw \<Rightarrow> updateSnapshotRecord key newRaw db))"

section \<open>Deleting a clone\<close>

definition deletableSnapshotStatuses :: "SnapshotStatus list" where
  "deletableSnapshotStatuses = [SnapCheckpointed, SnapAborted]"

datatype clone_error = CloneInUse | CloneDb db_error | EmptyName

text \<open>The clone is dropped before its name is cleared; the drop stays when the update fails.\<close>

definition deleteSnapshotClone :: "wire \<Rightarrow> SnapshotState \<Rightarrow> database \<Rightarrow> clone_error option \<times> database" where
  "deleteSnapshotClone w state db =
     (if ss_clone_database state = [] then (None, db)
      else if ss_status state \<notin> set deletableSnapshotStatuses then (Some CloneInUse, db)
      else
        let db1 = db\<lparr>clones := (clones db)(ss_clone_database state := None)\<rparr>;
            txID = (case ss_tx_ref state of None \<Rightarrow> [] | Some ref \<Rightarrow> ref_tx_id ref)
        in case Update w txID \<lparr>upd_status = ss_status state, upd_digest = None, upd_err_msg = [],
                               upd_expected = [ss_status state], upd_clear_clone = True\<rparr> db1 of
             Inl e \<Rightarrow> (Some (CloneDb e), db1)
           | Inr db2 \<Rightarrow> (None, db2))"

definition DeleteSnapshotClone :: "wire \<Rightarrow> string \<Rightarrow> database \<Rightarrow> clone_error option \<times> database" where
  "DeleteSnapshotClone w txID db =
     (if txID = [] then (Some EmptyName, db)
      else case readRecord w txID db of
             Inl e \<Rightarrow> (Some (CloneDb e), db)
           | Inr state \<Rightarrow> deleteSnapshotClone w state db)"

section \<open>A sample database\<close>

text \<open>A database whose latest snapshot, taken at block 7, has been aborted.\<close>

definition demo_closed_record :: SnapshotState where
  "demo_closed_record =
     \<lparr>ss_tx_ref = Some \<lparr>ref_block_num = 7, ref_tx_id = ''s1'', ref_tx_num = 0\<rparr>, ss_status = SnapAborted,
      ss_hash = [], ss_clone_database = ''snapshot_7'', ss_error = []\<rparr>"

definition demo_closed :: database where
  "demo_closed = empty_database\<lparr>
     db_ns := [SnapshotNamespaceID \<mapsto> [''s1'' \<mapsto> \<lparr>row_value = put_snapshot demo_closed_record, row_version = 1\<rparr>]],
     metadata := [LatestSnapshotPointerKey \<mapsto> Some ''s1''],
     clones := [''snapshot_7'' \<mapsto> (Map.empty, Map.empty)]\<rparr>"

section \<open>The lifecycle as an abstract machine\<close>

text \<open>
  \<open>snapshot_record w db key\<close> is the decoded record of a key. A status is terminal when nothing
  further happens to the snapshot.
\<close>

definition snapshot_record :: "wire \<Rightarrow> database \<Rightarrow> bytes \<Rightarrow> SnapshotState option" where
  "snapshot_record w db key =
     (case readRecord w key db of Inl e \<Rightarrow> None | Inr s \<Rightarrow> Some s)"

definition terminal :: "SnapshotStatus \<Rightarrow> bool" where
  "terminal s \<longleftrightarrow> s = SnapCheckpointed \<or> s = SnapAborted"

lemma snapshot_decode_encode:
  assumes "snapshot_codec_law w" "EncodeSnapshotState w s = Inr raw" "known_status (ss_status s)"
  shows "DecodeSnapshotState w raw = Inr s"
  using assms by (auto simp: snapshot_codec_law_def EncodeSnapshotState_def DecodeSnapshotState_def
      split: option.splits) (metis option.inject option.distinct(1))+

lemma snapshot_encode_total:
  "snapshot_codec_law w \<Longrightarrow> \<exists>raw. EncodeSnapshotState w s = Inr raw"
  by (auto simp: snapshot_codec_law_def EncodeSnapshotState_def split: option.splits)

lemma readRecord_simps:
  "readRecord w key db = Inr s \<longleftrightarrow>
     (\<exists>t r. db_ns db SnapshotNamespaceID = Some t \<and> t key = Some r \<and> DecodeSnapshotState w (row_value r) = Inr s)"
  by (auto simp: readRecord_def selectSnapshotRecord_def split: option.splits)

lemma readRecord_update:
  assumes "updateSnapshotRecord key raw db = Inr db'" "DecodeSnapshotState w raw = Inr s" "readRecord w key db = Inr s0"
  shows "readRecord w k db' = (if k = key then Inr s else readRecord w k db)"
  using assms by (auto simp: updateSnapshotRecord_def readRecord_def selectSnapshotRecord_def split: option.splits)

text \<open>Marking a snapshot terminal: the record of the pointer moves to the target, all others stay.\<close>

lemma MarkSnapshotTerminalInTx_ok:
  assumes "snapshot_codec_law w" "MarkSnapshotTerminalInTx w blockNum target db = Inr db'" "terminal target"
  shows "\<exists>key s. metadata db LatestSnapshotPointerKey = Some (Some key) \<and> readRecord w key db = Inr s \<and>
    (ss_status s = target \<and> db' = db \<or>
     \<not> terminal (ss_status s) \<and> map_option ref_block_num (ss_tx_ref s) = Some blockNum \<and>
     (\<forall>k. readRecord w k db' = (if k = key then Inr (s\<lparr>ss_status := target\<rparr>) else readRecord w k db)))"
proof -
  obtain key where key: "latestSnapshotKey db = Inr key" "key \<noteq> []"
    using assms(2) by (auto simp: MarkSnapshotTerminalInTx_def split: sum.splits if_splits)
  then have m: "metadata db LatestSnapshotPointerKey = Some (Some key)"
    by (auto simp: latestSnapshotKey_def split: option.splits)
  obtain raw s where s: "selectSnapshotRecord key db = Inr (Some raw)" "DecodeSnapshotState w raw = Inr s"
    using assms(2) key by (auto simp: MarkSnapshotTerminalInTx_def split: sum.splits option.splits)
  then have r: "readRecord w key db = Inr s" by (simp add: readRecord_def)
  show ?thesis
  proof (cases "ss_status s = target")
    case True
    with assms(2) key s m r show ?thesis by (auto simp: MarkSnapshotTerminalInTx_def)
  next
    case False
    then obtain raw' where u: "EncodeSnapshotState w (s\<lparr>ss_status := target\<rparr>) = Inr raw'"
      "updateSnapshotRecord key raw' db = Inr db'" "\<not> terminal (ss_status s)"
      "map_option ref_block_num (ss_tx_ref s) = Some blockNum"
      using assms(2) key s by (auto simp: MarkSnapshotTerminalInTx_def terminal_def split: sum.splits if_splits option.splits)
    have "known_status target" using assms(3) by (auto simp: terminal_def known_status_def)
    then have "DecodeSnapshotState w raw' = Inr (s\<lparr>ss_status := target\<rparr>)"
      using snapshot_decode_encode [OF assms(1) u(1)] by simp
    from readRecord_update [OF u(2) this r] u(3,4) m r show ?thesis by blast
  qed
qed

lemma demo_closed_read: "readRecord ref_wire ''s1'' demo_closed = Inr demo_closed_record"
  by (simp add: readRecord_def selectSnapshotRecord_def demo_closed_def DecodeSnapshotState_def ref_wire_def
      known_status_def demo_closed_record_def)

lemma demo_closed_abort: "MarkSnapshotTerminalInTx ref_wire 7 SnapAborted demo_closed = Inr demo_closed"
proof -
  have "latestSnapshotKey demo_closed = Inr ''s1''"
    by (simp add: latestSnapshotKey_def demo_closed_def)
  then show ?thesis
    using demo_closed_read
    by (auto simp: MarkSnapshotTerminalInTx_def readRecord_def demo_closed_record_def split: sum.splits option.splits)
qed

text \<open>
  C12: A snapshot record that has reached a final status keeps it: closing the latest snapshot with
  the other final status fails, and with the same one changes nothing.
\<close>

theorem snapshot_terminal_stable:
  assumes "snapshot_codec_law w" "terminal target" "readRecord w key db = Inr s" "terminal (ss_status s)"
    and "MarkSnapshotTerminalInTx w blockNum target db = Inr db'"
  shows "readRecord w key db' = Inr s"
  using MarkSnapshotTerminalInTx_ok [OF assms(1,5,2)] assms(3,4) by auto

theorem snapshot_terminal_stable_witness:
  "readRecord ref_wire ''s1'' demo_closed = Inr demo_closed_record"
  using snapshot_terminal_stable [OF ref_wire_snapshot, of SnapAborted "''s1''" demo_closed demo_closed_record 7 demo_closed]
    demo_closed_abort demo_closed_read by (simp add: terminal_def demo_closed_record_def)

text \<open>A status update under the row lock.\<close>

lemma Update_ok:
  assumes "snapshot_codec_law w" "Update w txID u db = Inr db'" "known_status (upd_status u)"
  shows "\<exists>s. readRecord w txID db = Inr s \<and> (upd_expected u \<noteq> [] \<longrightarrow> ss_status s \<in> set (upd_expected u)) \<and>
    (\<forall>k. readRecord w k db' = (if k = txID then Inr (applyUpdate u s) else readRecord w k db)) \<and>
    clones db' = clones db"
proof -
  obtain raw s where s: "selectSnapshotRecord txID db = Inr (Some raw)" "DecodeSnapshotState w raw = Inr s"
    and e: "upd_expected u \<noteq> [] \<longrightarrow> ss_status s \<in> set (upd_expected u)"
    using assms(2) by (auto simp: Update_def split: sum.splits option.splits if_splits)
  obtain raw' where u: "EncodeSnapshotState w (applyUpdate u s) = Inr raw'" "updateSnapshotRecord txID raw' db = Inr db'"
    using assms(2) s e by (auto simp: Update_def split: sum.splits if_splits)
  have "ss_status (applyUpdate u s) = upd_status u"
    by (simp add: applyUpdate_def Let_def split: option.splits)
  then have "DecodeSnapshotState w raw' = Inr (applyUpdate u s)"
    using snapshot_decode_encode [OF assms(1) u(1)] assms(3) by simp
  moreover have r: "readRecord w txID db = Inr s" using s by (simp add: readRecord_def)
  moreover have "clones db' = clones db"
    using u(2) by (auto simp: updateSnapshotRecord_def split: option.splits)
  ultimately show ?thesis
    using readRecord_update [OF u(2)] e by blast
qed

text \<open>
  C13: Deleting a clone drops no database except the one named by the record of the given
  transaction, and that only when its snapshot is checkpointed or aborted.
\<close>

theorem delete_clone_safe:
  assumes "snapshot_codec_law w" "DeleteSnapshotClone w txID db = (res, db')" "clones db' c \<noteq> clones db c"
  shows "\<exists>s. readRecord w txID db = Inr s \<and> terminal (ss_status s) \<and> ss_clone_database s = c \<and> clones db' c = None"
proof -
  obtain s where s: "readRecord w txID db = Inr s" "deleteSnapshotClone w s db = (res, db')"
    using assms(2,3) by (auto simp: DeleteSnapshotClone_def split: if_splits sum.splits)
  have t: "terminal (ss_status s)"
    using s(2) assms(3) by (auto simp: deleteSnapshotClone_def deletableSnapshotStatuses_def terminal_def split: if_splits)
  have "known_status (ss_status s)" using t by (auto simp: terminal_def known_status_def)
  then have "clones db' = (clones db)(ss_clone_database s := None)"
    using s(2) assms(1,3) Update_ok
    by (fastforce simp: deleteSnapshotClone_def Let_def split: if_splits sum.splits)
  with assms(3) s(1) t show ?thesis by (auto split: if_splits)
qed

theorem delete_clone_safe_witness:
  "\<exists>s. readRecord ref_wire ''s1'' demo_closed = Inr s \<and> terminal (ss_status s) \<and> ss_clone_database s = ''snapshot_7'' \<and>
     clones (snd (DeleteSnapshotClone ref_wire ''s1'' demo_closed)) ''snapshot_7'' = None"
proof (rule delete_clone_safe [OF ref_wire_snapshot surjective_pairing])
  have "Option.is_none (clones (snd (DeleteSnapshotClone ref_wire ''s1'' demo_closed)) ''snapshot_7'')" by code_simp
  then show "clones (snd (DeleteSnapshotClone ref_wire ''s1'' demo_closed)) ''snapshot_7'' \<noteq> clones demo_closed ''snapshot_7''"
    by (simp add: Option.is_none_def demo_closed_def)
qed

text \<open>
  C14: Deleting a clone can be repeated: after a deletion that reports success, a second one succeeds
  too and changes nothing.
\<close>

theorem delete_clone_idempotent:
  assumes "snapshot_codec_law w" "DeleteSnapshotClone w txID db = (None, db')"
    and "\<And>s. readRecord w txID db = Inr s \<Longrightarrow> map_option ref_tx_id (ss_tx_ref s) = Some txID"
  shows "DeleteSnapshotClone w txID db' = (None, db')"
proof -
  obtain s where s: "txID \<noteq> []" "readRecord w txID db = Inr s" "deleteSnapshotClone w s db = (None, db')"
    using assms(2) by (auto simp: DeleteSnapshotClone_def split: if_splits sum.splits)
  have i: "(case ss_tx_ref s of None \<Rightarrow> [] | Some ref \<Rightarrow> ref_tx_id ref) = txID"
    using assms(3) [OF s(2)] by (auto split: option.splits)
  have "\<exists>s'. readRecord w txID db' = Inr s' \<and> ss_clone_database s' = []"
  proof (cases "ss_clone_database s = []")
    case True
    with s show ?thesis by (simp add: deleteSnapshotClone_def)
  next
    case False
    let ?u = "\<lparr>upd_status = ss_status s, upd_digest = None, upd_err_msg = [], upd_expected = [ss_status s], upd_clear_clone = True\<rparr>"
    have t: "ss_status s \<in> set deletableSnapshotStatuses"
      and u: "Update w txID ?u (db\<lparr>clones := (clones db)(ss_clone_database s := None)\<rparr>) = Inr db'"
      using s(3) False i by (auto simp: deleteSnapshotClone_def Let_def split: if_splits sum.splits)
    have "known_status (upd_status ?u)" using t by (auto simp: deletableSnapshotStatuses_def known_status_def)
    from Update_ok [OF assms(1) u this] show ?thesis by (force simp: applyUpdate_def)
  qed
  with s(1) show ?thesis by (auto simp: DeleteSnapshotClone_def deleteSnapshotClone_def)
qed

theorem delete_clone_idempotent_witness:
  "DeleteSnapshotClone ref_wire ''s1'' (snd (DeleteSnapshotClone ref_wire ''s1'' demo_closed)) =
     (None, snd (DeleteSnapshotClone ref_wire ''s1'' demo_closed))"
proof (rule delete_clone_idempotent [OF ref_wire_snapshot])
  have "fst (DeleteSnapshotClone ref_wire ''s1'' demo_closed) = None" by code_simp
  then show "DeleteSnapshotClone ref_wire ''s1'' demo_closed = (None, snd (DeleteSnapshotClone ref_wire ''s1'' demo_closed))"
    by (metis prod.collapse)
  show "map_option ref_tx_id (ss_tx_ref s) = Some ''s1''" if "readRecord ref_wire ''s1'' demo_closed = Inr s" for s
    using that by (simp add: demo_closed_read demo_closed_record_def) (auto simp: demo_closed_record_def)
qed

end
