(* ===== verification/VC_Database.thy ===== *)
theory VC_Database
  imports VC_Preparer Snapshot_State
begin

text \<open>
  \<open>service/vc/database.go\<close>: the queries and the commit of a batch in one database transaction. The
  transaction works on a copy of the state: on an error or a rejected batch the caller keeps the
  state it had.
\<close>

section \<open>Queries\<close>

definition encode_versions :: "wire \<Rightarrow> u64 option list \<Rightarrow> nat option list option" where
  "encode_versions w vs =
     those (map (\<lambda>v. case v of None \<Rightarrow> Some None | Some x \<Rightarrow> map_option Some (EncodeBigint w x)) vs)"

definition validateNamespaceReads :: "wire \<Rightarrow> database \<Rightarrow> string \<Rightarrow> reads \<Rightarrow> db_error + reads" where
  "validateNamespaceReads w db nsID r =
     (case encode_versions w (rd_versions r) of
        None \<Rightarrow> Inl BigintOutOfRange
      | Some versions \<Rightarrow>
          (case db_ns db nsID of
             None \<Rightarrow> Inl (NoTable nsID)
           | Some t \<Rightarrow>
               Inr (fold (\<lambda>i. reads_append (rd_keys r ! (i - 1)) (rd_versions r ! (i - 1)))
                      (validate_reads_ns (rd_keys r) versions t) noReads)))"

definition queryVersionsIfPresent :: "database \<Rightarrow> string \<Rightarrow> bytes list \<Rightarrow> db_error + (bytes \<rightharpoonup> u64)" where
  "queryVersionsIfPresent db nsID queryKeys =
     (case db_ns db nsID of
        None \<Rightarrow> Inl (NoTable nsID)
      | Some t \<Rightarrow> Inr (\<lambda>k. if k \<in> set queryKeys then map_option (\<lambda>r. of_nat (row_version r)) (t k) else None))"

definition getNextBlockNumberToCommit :: "database \<Rightarrow> u64" where
  "getNextBlockNumberToCommit db =
     (case metadata db lastCommittedBlockNumberKey of
        Some (Some value) \<Rightarrow> if length value > 0 then Uint64 value + 1 else 0
      | _ \<Rightarrow> 0)"

definition setLastCommittedBlockNumber :: "u64 \<Rightarrow> database \<Rightarrow> database" where
  "setLastCommittedBlockNumber number db = setMetadata lastCommittedBlockNumberKey (PutUint64 number) db"

text \<open>The rows of the table whose key is asked for, each once, in some order.\<close>

definition readStatusRow :: "wire \<Rightarrow> database \<Rightarrow> TxID \<Rightarrow> TxStatus list \<Rightarrow> db_error + TxStatus list" where
  "readStatusRow w db i rows =
     (case tx_status db i of
        None \<Rightarrow> Inr rows
      | Some (st, height) \<Rightarrow>
          (case NewHeightFromBytes w height of
             Inl e \<Rightarrow> Inl (BadHeight e)
           | Inr (ht, _) \<Rightarrow> Inr (rows @ [WithStatus ht i st])))"

definition readStatusWithHeight :: "wire \<Rightarrow> TxID list \<Rightarrow> database \<Rightarrow> db_error + TxStatus list" where
  "readStatusWithHeight w txIDs db = loop_err (readStatusRow w db) (remdups txIDs) []"

definition readNamespacePolicies :: "database \<Rightarrow> db_error + (string \<rightharpoonup> bytes)" where
  "readNamespacePolicies db =
     (case db_ns db MetaNamespaceID of
        None \<Rightarrow> Inl (NoTable MetaNamespaceID)
      | Some t \<Rightarrow> Inr (\<lambda>k. map_option row_value (t k)))"

section \<open>Commit\<close>

record statesToBeCommitted =
  sc_updateWrites :: namespaceToWrites
  sc_newWrites :: namespaceToWrites
  sc_batchStatus :: "TxStatus list"
  sc_txIDToHeight :: "TxID \<rightharpoonup> Height"
  sc_checkpoint :: "checkpointTx option"

record commitResult =
  res_conflicts :: namespaceToReads
  res_duplicates :: "TxID list"

definition states_empty :: "statesToBeCommitted \<Rightarrow> bool" where
  "states_empty s \<longleftrightarrow> namespaceToWrites_empty (sc_updateWrites s) \<and> namespaceToWrites_empty (sc_newWrites s) \<and>
     length (sc_batchStatus s) = 0"

definition statusRow :: "wire \<Rightarrow> (TxID \<rightharpoonup> Height) \<Rightarrow> TxStatus \<Rightarrow> bytes list \<times> Status list \<times> bytes list
    \<Rightarrow> db_error + bytes list \<times> Status list \<times> bytes list" where
  "statusRow w heights status = (\<lambda>(ids, statuses, hs).
     if st_status status = REJECTED_DUPLICATE_TX_ID then Inr (ids, statuses, hs)
     else case heights (ref_tx_id (st_ref status)) of
            None \<Rightarrow> Inl (HeightNotPassed (ref_tx_id (st_ref status)))
          | Some h \<Rightarrow>
              (case ToBytes w h of
                 None \<Rightarrow> Inl EncodingPanic
               | Some bs \<Rightarrow> Inr (ids @ [ref_tx_id (st_ref status)], statuses @ [st_status status], hs @ [bs])))"

definition insertTxStatus :: "wire \<Rightarrow> statesToBeCommitted \<Rightarrow> database \<Rightarrow> db_error + TxID list \<times> database" where
  "insertTxStatus w states db =
     (if length (sc_batchStatus states) = 0 then Inr ([], db)
      else case loop_err (statusRow w (sc_txIDToHeight states)) (sc_batchStatus states) ([], [], []) of
             Inl e \<Rightarrow> Inl e
           | Inr (ids, statuses, hs) \<Rightarrow>
               (let (duplicates, t) = insert_tx_status ids statuses hs (tx_status db)
                in Inr (duplicates, db\<lparr>tx_status := t\<rparr>)))"

definition insertNsStates :: "string \<times> namespaceWrites \<Rightarrow> namespaceToReads \<times> database
    \<Rightarrow> db_error + namespaceToReads \<times> database" where
  "insertNsStates = (\<lambda>(nsID, writes) (conflicts, db).
     if nw_empty writes then Inr (conflicts, db)
     else case db_ns db nsID of
            None \<Rightarrow> Inl (NoTable nsID)
          | Some t \<Rightarrow>
              (let (violating, t') = insert_ns (nw_keys writes) (nw_values writes) t;
                   db' = db\<lparr>db_ns := (db_ns db)(nsID \<mapsto> t')\<rparr>
               in Inr (if length violating > 0
                       then nsReads_update nsID (reads_appendMany violating (replicate (length violating) None)) conflicts
                       else conflicts, db')))"

definition insertStates :: "namespaceToWrites \<Rightarrow> database \<Rightarrow> db_error + namespaceToReads \<times> database" where
  "insertStates nsToWrites db = loop_err insertNsStates nsToWrites ([], db)"

definition updateNsStates :: "wire \<Rightarrow> string \<times> namespaceWrites \<Rightarrow> database \<Rightarrow> db_error + database" where
  "updateNsStates w = (\<lambda>(nsID, writes) db.
     if nw_empty writes then Inr db
     else case those (map (EncodeBigint w) (nw_versions writes)) of
            None \<Rightarrow> Inl BigintOutOfRange
          | Some versions \<Rightarrow>
              (case db_ns db nsID of
                 None \<Rightarrow> Inl (NoTable nsID)
               | Some t \<Rightarrow>
                   Inr (db\<lparr>db_ns := (db_ns db)(nsID \<mapsto> update_ns (nw_keys writes) (nw_values writes) versions t)\<rparr>)))"

definition updateStates :: "wire \<Rightarrow> namespaceToWrites \<Rightarrow> database \<Rightarrow> db_error + database" where
  "updateStates w nsToWrites db =
     (if namespaceToWrites_empty nsToWrites then Inr db else loop_err (updateNsStates w) nsToWrites db)"

definition createTablesAndFunctionsForNamespaces :: "namespaceWrites \<Rightarrow> database \<Rightarrow> database" where
  "createTablesAndFunctionsForNamespaces newNs db = fold create_ns_table (nw_keys newNs) db"

definition writeStatesByGroup :: "wire \<Rightarrow> statesToBeCommitted \<Rightarrow> database
    \<Rightarrow> db_error + commitResult option \<times> database" where
  "writeStatesByGroup w states db =
     (case insertTxStatus w states db of
        Inl e \<Rightarrow> Inl e
      | Inr (duplicates, db1) \<Rightarrow>
          if length duplicates > 0 then Inr (Some \<lparr>res_conflicts = [], res_duplicates = duplicates\<rparr>, db1)
          else case insertStates (sc_newWrites states) db1 of
                 Inl e \<Rightarrow> Inl e
               | Inr (conflicts, db2) \<Rightarrow>
                   if \<not> namespaceToReads_empty conflicts
                   then Inr (Some \<lparr>res_conflicts = conflicts, res_duplicates = []\<rparr>, db2)
                   else
                     let db3 = createTablesAndFunctionsForNamespaces
                                 (go_get noWrites (sc_newWrites states) MetaNamespaceID) db2
                     in case updateStates w (sc_updateWrites states) db3 of
                          Inl e \<Rightarrow> Inl e
                        | Inr db4 \<Rightarrow> Inr (None, db4))"

definition setLatestSnapshotKeyIfPresent :: "namespaceWrites \<Rightarrow> database \<Rightarrow> database" where
  "setLatestSnapshotKeyIfPresent nw db =
     (if nw_empty nw then db else setMetadata LatestSnapshotPointerKey (hd (nw_keys nw)) db)"

definition terminalStatus :: "checkpointTx \<Rightarrow> SnapshotStatus" where
  "terminalStatus cp = (if cp_value cp = CheckpointAbortValue then SnapAborted else SnapCheckpointed)"

definition commit :: "wire \<Rightarrow> statesToBeCommitted \<Rightarrow> database \<Rightarrow> db_error + commitResult option \<times> database" where
  "commit w states db =
     (if states_empty states then Inr (None, db)
      else case writeStatesByGroup w states db of
             Inl e \<Rightarrow> Inl e
           | Inr (Some res, _) \<Rightarrow> Inr (Some res, db)
           | Inr (None, db1) \<Rightarrow>
               (let db2 = setLatestSnapshotKeyIfPresent (go_get noWrites (sc_newWrites states) SnapshotNamespaceID) db1
                in case sc_checkpoint states of
                     None \<Rightarrow> Inr (None, db2)
                   | Some cp \<Rightarrow>
                       (case MarkSnapshotTerminalInTx w (cp_snapshotBlockNum cp) (terminalStatus cp) db2 of
                          Inl e \<Rightarrow> Inl e
                        | Inr db3 \<Rightarrow> Inr (None, db3))))"

end
