(* ===== verification/VC_Validator.thy ===== *)
theory VC_Validator
  imports VC_Database
begin

text \<open>
  \<open>service/vc/validator.go\<close>, the gate of \<open>database_snapshot.go\<close> and the checkpoint verification of
  \<open>checkpoint.go\<close>. Verification may lose a race against another writer of the snapshot record and
  start over; the writes of the others between its read and its update are an argument.
\<close>

section \<open>Invalidation\<close>

record validatedTransactions =
  validTxNonBlindWrites :: transactionToWrites
  validTxBlindWrites :: transactionToWrites
  newWrites :: transactionToWrites
  v_readToTxIDs :: readToTransactions
  invalidTxStatus :: "(TxID, Status) gomap"
  v_txIDToHeight :: "TxID \<rightharpoonup> Height"
  v_checkpoint :: "checkpointTx option"
  checkpointFeedback :: "CheckpointFeedback option"

definition updateInvalidTx :: "Status \<Rightarrow> TxID \<Rightarrow> validatedTransactions \<Rightarrow> validatedTransactions" where
  "updateInvalidTx status tID v =
     v\<lparr>validTxNonBlindWrites := go_del tID (validTxNonBlindWrites v),
       validTxBlindWrites := go_del tID (validTxBlindWrites v),
       newWrites := go_del tID (newWrites v),
       v_checkpoint := (case v_checkpoint v of
                          None \<Rightarrow> None
                        | Some cp \<Rightarrow> if cp_txID cp = tID then None else Some cp),
       invalidTxStatus := go_put tID status (invalidTxStatus v)\<rparr>"

definition updateInvalidTxs :: "TxID list \<Rightarrow> Status \<Rightarrow> validatedTransactions \<Rightarrow> validatedTransactions" where
  "updateInvalidTxs txIDs status v = fold (updateInvalidTx status) txIDs v"

definition invalidateOnRead :: "string \<Rightarrow> bytes \<times> u64 option \<Rightarrow> validatedTransactions
    \<Rightarrow> db_error + validatedTransactions" where
  "invalidateOnRead nsID = (\<lambda>(key, version) v.
     let cr = newCmpRead nsID key version
     in case v_readToTxIDs v cr of
          None \<Rightarrow> Inl (ReadNotFound (cr_nsID cr, cr_key cr, cr_version cr))
        | Some txIDs \<Rightarrow> Inr (updateInvalidTxs txIDs ABORTED_MVCC_CONFLICT v))"

definition invalidateTxsOnReadConflicts :: "namespaceToReads \<Rightarrow> validatedTransactions
    \<Rightarrow> db_error + validatedTransactions" where
  "invalidateTxsOnReadConflicts nsToReadConflicts v =
     loop_err (\<lambda>(nsID, rc). loop_err (invalidateOnRead nsID) (zip (rd_keys rc) (rd_versions rc))) nsToReadConflicts v"

definition validateReadsOfNs :: "wire \<Rightarrow> database \<Rightarrow> string \<times> reads \<Rightarrow> namespaceToReads
    \<Rightarrow> db_error + namespaceToReads" where
  "validateReadsOfNs w db = (\<lambda>(nsID, r) nsToReadConflicts.
     case validateNamespaceReads w db nsID r of
       Inl e \<Rightarrow> Inl e
     | Inr conflicts \<Rightarrow>
         Inr (nsReads_update nsID (reads_appendMany (rd_keys conflicts) (rd_versions conflicts)) nsToReadConflicts))"

definition validateReads :: "wire \<Rightarrow> database \<Rightarrow> namespaceToReads \<Rightarrow> db_error + namespaceToReads" where
  "validateReads w db nr = loop_err (validateReadsOfNs w db) nr []"

section \<open>The snapshot gate\<close>

definition determineSnapshotStatus :: "wire \<Rightarrow> database \<Rightarrow> db_error + Status" where
  "determineSnapshotStatus w db =
     (case ReadLatest w db of
        Inl e \<Rightarrow> Inl e
      | Inr None \<Rightarrow> Inr STATUS_UNSPECIFIED
      | Inr (Some state) \<Rightarrow>
          Inr (case ss_status state of
                 SnapCheckpointed \<Rightarrow> STATUS_UNSPECIFIED
               | SnapAborted \<Rightarrow> STATUS_UNSPECIFIED
               | SnapCompleted \<Rightarrow> REJECTED_SNAPSHOT_NO_CHECKPOINT
               | _ \<Rightarrow> REJECTED_SNAPSHOT_IN_PROGRESS))"

text \<open>The transaction of the only entry of the new writes, when it writes a snapshot record.\<close>

definition incomingSnapshotTx :: "transactionToWrites \<Rightarrow> TxID" where
  "incomingSnapshotTx nw =
     fold (\<lambda>(i, nsWrites) acc. if \<not> nw_empty (go_get noWrites nsWrites SnapshotNamespaceID) then i else acc) nw []"

definition rejectSnapshotIfPriorNotCheckpointed :: "wire \<Rightarrow> database \<Rightarrow> validatedTransactions
    \<Rightarrow> db_error + validatedTransactions" where
  "rejectSnapshotIfPriorNotCheckpointed w db v =
     (if length (newWrites v) \<noteq> 1 then Inr v
      else
        let incomingTxID = incomingSnapshotTx (newWrites v)
        in if incomingTxID = [] then Inr v
           else case readStatusWithHeight w [incomingTxID] db of
                  Inl e \<Rightarrow> Inl e
                | Inr rows \<Rightarrow>
                    if length rows > 0 then Inr v
                    else case determineSnapshotStatus w db of
                           Inl e \<Rightarrow> Inl e
                         | Inr blockStatus \<Rightarrow>
                             if blockStatus = STATUS_UNSPECIFIED then Inr v
                             else Inr (updateInvalidTxs [incomingTxID] blockStatus v))"

section \<open>Checkpoints\<close>

record checkpointVerdict =
  rejectStatus :: Status
  cv_feedback :: "CheckpointFeedback option"

definition noVerdict :: checkpointVerdict where
  "noVerdict = \<lparr>rejectStatus = STATUS_UNSPECIFIED, cv_feedback = None\<rparr>"

definition feedback :: "checkpointTx \<Rightarrow> Signal \<Rightarrow> string \<Rightarrow> CheckpointFeedback" where
  "feedback cp sig reason =
     \<lparr>cf_signal = sig, cf_ref = Some (cp_ref cp), cf_snapshot_block_number = cp_snapshotBlockNum cp, cf_reason = reason\<rparr>"

text \<open>The verbs \<open>%d\<close> and \<open>%x\<close> of the formatted messages.\<close>

fun dec_digits :: "nat \<Rightarrow> string" where
  "dec_digits n = (if n < 10 then [char_of (48 + n)] else dec_digits (n div 10) @ [char_of (48 + n mod 10)])"

declare dec_digits.simps [simp del]

definition hex_digit :: "nat \<Rightarrow> char" where
  "hex_digit n = (if n < 10 then char_of (48 + n) else char_of (87 + n))"

definition hex_digits :: "bytes \<Rightarrow> string" where
  "hex_digits bs = concat (map (\<lambda>b. [hex_digit (of_char b div 16), hex_digit (of_char b mod 16)]) bs)"

definition divergenceReason :: "SnapshotState \<Rightarrow> checkpointTx \<Rightarrow> string" where
  "divergenceReason state cp =
     ''local snapshot hash '' @ hex_digits (ss_hash state) @ '' for block '' @ dec_digits (unat (cp_snapshotBlockNum cp))
     @ '' does not match the checkpoint hash '' @ hex_digits (cp_value cp)"

text \<open>
  \<open>verifyCheckpoint\<close> and \<open>haltOnCheckpointDivergence\<close>. The list holds what other writers do to the
  database between the read of the record and the update of its diagnostic, one entry per attempt.
  \<open>None\<close>: the recursion does not end.
\<close>

fun verifyCheckpoint :: "wire \<Rightarrow> (database \<Rightarrow> database) list \<Rightarrow> checkpointTx \<Rightarrow> database
    \<Rightarrow> ((db_error + checkpointVerdict) \<times> database) option" where
  "verifyCheckpoint w others cp db =
     (case ReadLatest w db of
        Inl e \<Rightarrow> Some (Inl e, db)
      | Inr None \<Rightarrow> Some (Inr (noVerdict\<lparr>rejectStatus := REJECTED_CHECKPOINT_NO_SUCH_SNAPSHOT\<rparr>), db)
      | Inr (Some state) \<Rightarrow>
          (case ss_tx_ref state of
             None \<Rightarrow> Some (Inr (noVerdict\<lparr>rejectStatus := REJECTED_CHECKPOINT_NO_SUCH_SNAPSHOT\<rparr>), db)
           | Some ref \<Rightarrow>
               if ref_block_num ref \<noteq> cp_snapshotBlockNum cp
               then Some (Inr (noVerdict\<lparr>rejectStatus := REJECTED_CHECKPOINT_NO_SUCH_SNAPSHOT\<rparr>), db)
               else if ss_status state = SnapCheckpointed \<or> ss_status state = SnapAborted
               then Some (Inr (noVerdict\<lparr>rejectStatus := REJECTED_CHECKPOINT_NO_SUCH_SNAPSHOT\<rparr>), db)
               else if terminalStatus cp = SnapAborted then Some (Inr noVerdict, db)
               else if length (ss_hash state) = 0
               then Some (Inr (noVerdict\<lparr>cv_feedback := Some (feedback cp HOLD [])\<rparr>), db)
               else if ss_hash state = cp_value cp then Some (Inr noVerdict, db)
               else
                 let reason = divergenceReason state cp;
                     db1 = (case others of [] \<Rightarrow> db | f # _ \<Rightarrow> f db)
                 in case Update w (ref_tx_id ref)
                           \<lparr>upd_status = ss_status state, upd_digest = None, upd_err_msg = reason,
                            upd_expected = [ss_status state], upd_clear_clone = False\<rparr> db1 of
                      Inr db2 \<Rightarrow> Some (Inr (noVerdict\<lparr>cv_feedback := Some (feedback cp HALT reason)\<rparr>), db2)
                    | Inl e \<Rightarrow>
                        if e = UnexpectedSnapshotStatus
                        then (case others of [] \<Rightarrow> None | _ # fs \<Rightarrow> verifyCheckpoint w fs cp db1)
                        else Some (Inl e, db1)))"

declare verifyCheckpoint.simps [simp del]

definition rejectCheckpointIfNotVerified :: "wire \<Rightarrow> (database \<Rightarrow> database) list \<Rightarrow> database \<Rightarrow> validatedTransactions
    \<Rightarrow> ((db_error + validatedTransactions) \<times> database) option" where
  "rejectCheckpointIfNotVerified w others db v =
     (case v_checkpoint v of
        None \<Rightarrow> Some (Inr v, db)
      | Some cp \<Rightarrow>
          (case readStatusWithHeight w [cp_txID cp] db of
             Inl e \<Rightarrow> Some (Inl e, db)
           | Inr rows \<Rightarrow>
               if length rows > 0 then Some (Inr v, db)
               else case verifyCheckpoint w others cp db of
                      None \<Rightarrow> None
                    | Some (Inl e, db') \<Rightarrow> Some (Inl e, db')
                    | Some (Inr verdict, db') \<Rightarrow>
                        if rejectStatus verdict \<noteq> STATUS_UNSPECIFIED
                        then Some (Inr (updateInvalidTxs [cp_txID cp] (rejectStatus verdict) v), db')
                        else case cv_feedback verdict of
                               Some fb \<Rightarrow> Some (Inr (v\<lparr>newWrites := go_del (cp_txID cp) (newWrites v),
                                                    v_checkpoint := None, checkpointFeedback := Some fb\<rparr>), db')
                             | None \<Rightarrow> Some (Inr v, db')))"

section \<open>The validator\<close>

definition newValidated :: "preparedTransactions \<Rightarrow> validatedTransactions" where
  "newValidated p =
     \<lparr>validTxNonBlindWrites = txIDToNsNonBlindWrites p, validTxBlindWrites = txIDToNsBlindWrites p,
      newWrites = txIDToNsNewWrites p, v_readToTxIDs = readToTxIDs p, invalidTxStatus = invalidTxIDStatus p,
      v_txIDToHeight = txIDToHeight p, v_checkpoint = prep_checkpoint p, checkpointFeedback = None\<rparr>"

definition mvccValidate :: "wire \<Rightarrow> database \<Rightarrow> preparedTransactions \<Rightarrow> db_error + validatedTransactions" where
  "mvccValidate w db p =
     (case validateReads w db (nsToReads p) of
        Inl e \<Rightarrow> Inl e
      | Inr nsToReadConflicts \<Rightarrow> invalidateTxsOnReadConflicts nsToReadConflicts (newValidated p))"

definition validate :: "wire \<Rightarrow> (database \<Rightarrow> database) list \<Rightarrow> database \<Rightarrow> preparedTransactions
    \<Rightarrow> ((db_error + validatedTransactions) \<times> database) option" where
  "validate w others db p =
     (case mvccValidate w db p of
        Inl e \<Rightarrow> Some (Inl e, db)
      | Inr v \<Rightarrow>
          (case rejectSnapshotIfPriorNotCheckpointed w db v of
             Inl e \<Rightarrow> Some (Inl e, db)
           | Inr v' \<Rightarrow> rejectCheckpointIfNotVerified w others db v'))"

end
