(* ===== verification/VC_Committer.thy ===== *)
theory VC_Committer
  imports VC_Validator
begin

text \<open>
  \<open>service/vc/committer.go\<close> with \<open>createSnapshotIfPresent\<close> of \<open>database_snapshot.go\<close>: the placement
  of the blind writes, the creation of a snapshot database before the commit, the loop that removes
  the transactions a commit attempt rejects, and the statuses reported. \<open>admin\<close> says whether the
  database server carries out the administrative statement for a snapshot database.
\<close>

section \<open>Grouping\<close>

definition groupNsWrites :: "string \<times> namespaceWrites \<Rightarrow> namespaceToWrites \<Rightarrow> namespaceToWrites" where
  "groupNsWrites = (\<lambda>(ns, writes) nsToWrites.
     if nw_empty writes then nsToWrites else nsWrites_update ns (nw_appendWrites writes) nsToWrites)"

definition groupWritesByNamespace :: "transactionToWrites \<Rightarrow> namespaceToWrites" where
  "groupWritesByNamespace txWrites = fold (\<lambda>(i, nsWrites). fold groupNsWrites nsWrites) txWrites []"

definition addStatus :: "Status \<Rightarrow> TxID \<Rightarrow> (TxID, Status) gomap \<Rightarrow> (TxID, Status) gomap" where
  "addStatus st i m = go_put i st m"

definition prepareStatusForCommit :: "validatedTransactions \<Rightarrow> TxStatus list" where
  "prepareStatusForCommit v =
     (let committed = fold (addStatus COMMITTED)
            (go_keys (validTxNonBlindWrites v) @ go_keys (validTxBlindWrites v) @ go_keys (newWrites v)) [];
          txIDs = fold (\<lambda>(i, st). go_put i st) (invalidTxStatus v) committed
      in map (\<lambda>(i, st). WithStatus (case v_txIDToHeight v i of None \<Rightarrow> NewHeight 0 0 | Some h \<Rightarrow> h) i st) txIDs)"

section \<open>Blind writes\<close>

definition queryNsVersions :: "database \<Rightarrow> string \<times> namespaceWrites \<Rightarrow> (string \<rightharpoonup> bytes \<rightharpoonup> u64)
    \<Rightarrow> db_error + (string \<rightharpoonup> bytes \<rightharpoonup> u64)" where
  "queryNsVersions db = (\<lambda>(nsID, writes) state.
     case queryVersionsIfPresent db nsID (nw_keys writes) of
       Inl e \<Rightarrow> Inl e
     | Inr versions \<Rightarrow> Inr (state(nsID \<mapsto> versions)))"

definition placeBlindWrite :: "(string \<rightharpoonup> bytes \<rightharpoonup> u64) \<Rightarrow> TxID \<Rightarrow> string \<Rightarrow> bytes \<times> bytes
    \<Rightarrow> validatedTransactions \<Rightarrow> validatedTransactions" where
  "placeBlindWrite state i ns = (\<lambda>(key, value) v.
     case (case state ns of None \<Rightarrow> None | Some m \<Rightarrow> m key) of
       Some ver \<Rightarrow>
         v\<lparr>validTxNonBlindWrites := txWrites_update i ns (nw_append key value (ver + 1)) (validTxNonBlindWrites v)\<rparr>
     | None \<Rightarrow> v\<lparr>newWrites := txWrites_update i ns (nw_append key value 0) (newWrites v)\<rparr>)"

definition placeTxBlindWrites :: "(string \<rightharpoonup> bytes \<rightharpoonup> u64) \<Rightarrow> TxID \<times> namespaceToWrites
    \<Rightarrow> validatedTransactions \<Rightarrow> validatedTransactions" where
  "placeTxBlindWrites state = (\<lambda>(i, txWrites).
     fold (\<lambda>(ns, nsWrites). fold (placeBlindWrite state i ns) (zip (nw_keys nsWrites) (nw_values nsWrites))) txWrites)"

definition populateVersionsAndCategorizeBlindWrites :: "database \<Rightarrow> validatedTransactions
    \<Rightarrow> db_error + validatedTransactions" where
  "populateVersionsAndCategorizeBlindWrites db v =
     (case loop_err (queryNsVersions db) (groupWritesByNamespace (validTxBlindWrites v)) Map.empty of
        Inl e \<Rightarrow> Inl e
      | Inr state \<Rightarrow> Inr ((fold (placeTxBlindWrites state) (validTxBlindWrites v) v)\<lparr>validTxBlindWrites := []\<rparr>))"

section \<open>Snapshot databases\<close>

definition snapshotDatabaseName :: "TxRef \<Rightarrow> string" where
  "snapshotDatabaseName ref = ''snapshot_'' @ dec_digits (unat (ref_block_num ref))"

text \<open>A database that exists already under that name is reused as it is.\<close>

definition createSnapshotDatabase :: "(string \<Rightarrow> bool) \<Rightarrow> string \<Rightarrow> database \<Rightarrow> db_error + database" where
  "createSnapshotDatabase admin name db =
     (if \<not> admin name then Inl (AdminError name)
      else if clones db name \<noteq> None then Inr db
      else Inr (db\<lparr>clones := (clones db)(name \<mapsto> (db_ns db, tx_status db))\<rparr>))"

definition createSnapshotDatabaseAndRewriteRecord :: "wire \<Rightarrow> (string \<Rightarrow> bool) \<Rightarrow> bytes \<Rightarrow> database
    \<Rightarrow> (db_error + bytes option) \<times> database" where
  "createSnapshotDatabaseAndRewriteRecord w admin recordValue db =
     (case DecodeSnapshotState w recordValue of
        Inl e \<Rightarrow> (Inl e, db)
      | Inr state \<Rightarrow>
          (case ss_tx_ref state of
             None \<Rightarrow> (Inl NoTxRef, db)
           | Some ref \<Rightarrow>
               (case readStatusWithHeight w [ref_tx_id ref] db of
                  Inl e \<Rightarrow> (Inl e, db)
                | Inr rows \<Rightarrow>
                    if length rows > 0 then (Inr None, db)
                    else case createSnapshotDatabase admin (snapshotDatabaseName ref) db of
                           Inl e \<Rightarrow> (Inl e, db)
                         | Inr db' \<Rightarrow>
                             (case EncodeSnapshotState w
                                     \<lparr>ss_tx_ref = Some ref, ss_status = SnapPending, ss_hash = [],
                                      ss_clone_database = snapshotDatabaseName ref, ss_error = []\<rparr> of
                                Inl e \<Rightarrow> (Inl e, db')
                              | Inr raw \<Rightarrow> (Inr (Some raw), db')))))"

definition snapshotWriteInBatch :: "transactionToWrites \<Rightarrow> (TxID \<times> namespaceWrites) option" where
  "snapshotWriteInBatch nw =
     (case filter (\<lambda>(i, nsWrites). \<not> nw_empty (go_get noWrites nsWrites SnapshotNamespaceID)) nw of
        [] \<Rightarrow> None
      | (i, nsWrites) # _ \<Rightarrow> Some (i, go_get noWrites nsWrites SnapshotNamespaceID))"

definition createSnapshotIfPresent :: "wire \<Rightarrow> (string \<Rightarrow> bool) \<Rightarrow> transactionToWrites \<Rightarrow> database
    \<Rightarrow> (db_error + transactionToWrites) \<times> database" where
  "createSnapshotIfPresent w admin nw db =
     (if length nw \<noteq> 1 then (Inr nw, db)
      else case snapshotWriteInBatch nw of
             None \<Rightarrow> (Inr nw, db)
           | Some (i, writes) \<Rightarrow>
               (case createSnapshotDatabaseAndRewriteRecord w admin (hd (nw_values writes)) db of
                  (Inl e, db') \<Rightarrow> (Inl e, db')
                | (Inr None, db') \<Rightarrow> (Inr nw, db')
                | (Inr (Some state), db') \<Rightarrow>
                    (Inr (txWrites_update i SnapshotNamespaceID
                            (\<lambda>x. x\<lparr>nw_values := (nw_values x)[0 := state]\<rparr>) nw), db')))"

section \<open>The commit loop\<close>

definition duplicateIndex :: "TxStatus list \<Rightarrow> (string \<rightharpoonup> nat)" where
  "duplicateIndex statuses =
     fold (\<lambda>i m. if st_status (statuses ! i) = REJECTED_DUPLICATE_TX_ID
                  then m(ref_tx_id (st_ref (statuses ! i)) \<mapsto> i) else m) [0..<length statuses] Map.empty"

definition IsHeight :: "TxRef \<Rightarrow> Height \<Rightarrow> bool" where
  "IsHeight ref h \<longleftrightarrow> ref_block_num ref = h_block_num h \<and> ref_tx_num ref = h_tx_num h"

definition correctStatus :: "(string \<rightharpoonup> nat) \<Rightarrow> (TxID \<rightharpoonup> Height) \<Rightarrow> TxStatus \<Rightarrow> TxStatus list \<Rightarrow> TxStatus list" where
  "correctStatus idx heights st statuses =
     (case heights (ref_tx_id (st_ref st)) of
        None \<Rightarrow> statuses
      | Some actualHeight \<Rightarrow>
          if IsHeight (st_ref st) actualHeight
          then (case idx (ref_tx_id (st_ref st)) of None \<Rightarrow> statuses | Some i \<Rightarrow> statuses[i := st])
          else statuses)"

definition setCorrectStatusForDuplicateTxID :: "wire \<Rightarrow> database \<Rightarrow> TxStatus list \<Rightarrow> (TxID \<rightharpoonup> Height)
    \<Rightarrow> db_error + TxStatus list" where
  "setCorrectStatusForDuplicateTxID w db statuses heights =
     (let dupTxIDs = map (\<lambda>s. ref_tx_id (st_ref s)) (filter (\<lambda>s. st_status s = REJECTED_DUPLICATE_TX_ID) statuses)
      in if length dupTxIDs = 0 then Inr statuses
         else case readStatusWithHeight w dupTxIDs db of
                Inl e \<Rightarrow> Inl e
              | Inr idStatusHeight \<Rightarrow> Inr (fold (correctStatus (duplicateIndex statuses) heights) idStatusHeight statuses))"

definition statesOf :: "validatedTransactions \<Rightarrow> statesToBeCommitted" where
  "statesOf v =
     \<lparr>sc_updateWrites = groupWritesByNamespace (validTxNonBlindWrites v),
      sc_newWrites = groupWritesByNamespace (newWrites v),
      sc_batchStatus = prepareStatusForCommit v,
      sc_txIDToHeight = v_txIDToHeight v, sc_checkpoint = v_checkpoint v\<rparr>"

fun commitLoop :: "nat \<Rightarrow> wire \<Rightarrow> validatedTransactions \<Rightarrow> database \<Rightarrow> (db_error + TxStatusBatch) \<times> database" where
  "commitLoop 0 w v db = (Inl TooManyRetries, db)"
| "commitLoop (Suc n) w v db =
     (case commit w (statesOf v) db of
        Inl e \<Rightarrow> (Inl e, db)
      | Inr (None, db') \<Rightarrow>
          (case setCorrectStatusForDuplicateTxID w db' (sc_batchStatus (statesOf v)) (v_txIDToHeight v) of
             Inl e \<Rightarrow> (Inl e, db')
           | Inr statuses \<Rightarrow> (Inr \<lparr>tsb_status = statuses, tsb_feedback = checkpointFeedback v\<rparr>, db'))
      | Inr (Some res, db') \<Rightarrow>
          (case invalidateTxsOnReadConflicts (res_conflicts res) v of
             Inl e \<Rightarrow> (Inl e, db')
           | Inr v' \<Rightarrow> commitLoop n w (updateInvalidTxs (res_duplicates res) REJECTED_DUPLICATE_TX_ID v') db'))"

definition commitTransactions :: "wire \<Rightarrow> (string \<Rightarrow> bool) \<Rightarrow> validatedTransactions \<Rightarrow> database
    \<Rightarrow> (db_error + TxStatusBatch) \<times> database" where
  "commitTransactions w admin v db =
     (case populateVersionsAndCategorizeBlindWrites db v of
        Inl e \<Rightarrow> (Inl e, db)
      | Inr v1 \<Rightarrow>
          (case createSnapshotIfPresent w admin (newWrites v1) db of
             (Inl e, db1) \<Rightarrow> (Inl e, db1)
           | (Inr nw, db1) \<Rightarrow> commitLoop 1024 w (v1\<lparr>newWrites := nw\<rparr>) db1))"

section \<open>The pipeline\<close>

text \<open>A batch through the three stages of the service, with nothing else touching the database.\<close>

definition processBatch :: "wire \<Rightarrow> (string \<Rightarrow> bool) \<Rightarrow> VcTx list \<Rightarrow> database
    \<Rightarrow> ((db_error + TxStatusBatch) \<times> database) option" where
  "processBatch w admin txs db =
     (case prepare w txs of
        Inl e \<Rightarrow> Some (Inl e, db)
      | Inr p \<Rightarrow>
          (case validate w [] db p of
             None \<Rightarrow> None
           | Some (Inl e, db1) \<Rightarrow> Some (Inl e, db1)
           | Some (Inr v, db1) \<Rightarrow> Some (commitTransactions w admin v db1)))"

end
