(* ===== verification/Map_Views.thy ===== *)
theory Map_Views
  imports Committer_Prelude "HOL-Library.Multiset"
begin

text \<open>
  Views of a Go map that do not depend on the order in which it is ranged over: the multiset of the
  entries that a function makes of each key and its value, and how the operations on the map change it.
\<close>

section \<open>Entries of a map\<close>

definition flat :: "('k \<Rightarrow> 'v \<Rightarrow> 'e list) \<Rightarrow> ('k, 'v) gomap \<Rightarrow> 'e list" where
  "flat g m = concat (map (\<lambda>(k, v). g k v) m)"

lemma flat_Nil [simp]: "flat g [] = []"
  by (simp add: flat_def)

lemma flat_Cons [simp]: "flat g ((k, v) # m) = g k v @ flat g m"
  by (simp add: flat_def)

lemma set_flat: "set (flat g m) = (\<Union>(k, v) \<in> set m. set (g k v))"
  by (auto simp: flat_def)

lemma mset_flat_put:
  assumes "wf_gomap m"
  shows "mset (flat g (go_put k v m)) + (case map_of m k of None \<Rightarrow> {#} | Some v' \<Rightarrow> mset (g k v'))
    = mset (flat g m) + mset (g k v)"
  using assms
proof (induction m)
  case Nil
  then show ?case by (simp add: go_put_def)
next
  case (Cons x m)
  obtain k' v' where x: "x = (k', v')" by (cases x)
  have "wf_gomap m" using Cons.prems by (simp add: wf_gomap_def)
  note IH = Cons.IH [OF this]
  show ?case
  proof (cases "k' = k")
    case True
    then show ?thesis by (simp add: x go_put_def)
  next
    case False
    with IH show ?thesis by (simp add: x go_put_def)
  qed
qed

lemma mset_flat_update:
  assumes "wf_gomap m" "mset (g k (f (go_get d m k))) = mset (g k (go_get d m k)) + E" "g k d = []"
  shows "mset (flat g (go_put k (f (go_get d m k)) m)) = mset (flat g m) + E"
  using mset_flat_put [OF assms(1), of g k "f (go_get d m k)"] assms(2,3)
  by (cases "map_of m k") (simp_all add: go_get_def add_ac)

lemma flat_del:
  assumes "\<And>k' v e. e \<in> set (g k' v) \<Longrightarrow> key e = k'"
  shows "flat g (go_del k m) = filter (\<lambda>e. key e \<noteq> k) (flat g m)"
proof (induction m)
  case (Cons x m)
  obtain k' v where x: "x = (k', v)" by (cases x)
  have "filter (\<lambda>e. key e \<noteq> k) (g k' v) = (if k' = k then [] else g k' v)"
    using assms by (auto simp: filter_empty_conv filter_id_conv)
  with Cons show ?case by (simp add: x go_del_def)
qed (simp add: go_del_def)

lemma wf_gomap_get: "wf_gomap m \<Longrightarrow> (k, v) \<in> set m \<Longrightarrow> go_get d m k = v"
  by (simp add: wf_gomap_in go_get_def)

lemma go_get_in: "map_of m k = Some v \<Longrightarrow> (k, v) \<in> set m \<and> go_get d m k = v"
  by (simp add: go_get_def map_of_SomeD)

lemma go_put_all:
  assumes "\<And>k v. (k, v) \<in> set m \<Longrightarrow> P v" "P v0" "(k, v) \<in> set (go_put k0 v0 m)"
  shows "P v"
proof -
  have "set (AList.update k0 v0 m) \<subseteq> insert (k0, v0) (set m)"
    by (induction m) auto
  with assms show ?thesis by (auto simp: go_put_def)
qed

end
