(* ===== verification/VC_Views.thy ===== *)
theory VC_Views
  imports VC_Committer Map_Views
begin

text \<open>
  Views of the maps of a batch that do not depend on the order in which a Go map is ranged over:
  a map from transactions to writes as the multiset of its entries, a map from namespaces to reads
  as the set of its entries. Each operation of the preparer, the validator and the committer on those
  maps has one equation here.
\<close>

section \<open>Writes\<close>

definition nw_entries :: "namespaceWrites \<Rightarrow> (bytes \<times> bytes \<times> u64) list" where
  "nw_entries nw = zip (nw_keys nw) (zip (nw_values nw) (nw_versions nw))"

definition ntw_entries :: "namespaceToWrites \<Rightarrow> (string \<times> bytes \<times> bytes \<times> u64) list" where
  "ntw_entries = flat (\<lambda>ns nw. map (Pair ns) (nw_entries nw))"

definition entries :: "transactionToWrites \<Rightarrow> (TxID \<times> string \<times> bytes \<times> bytes \<times> u64) list" where
  "entries = flat (\<lambda>i m. map (Pair i) (ntw_entries m))"

definition nw_wf :: "namespaceWrites \<Rightarrow> bool" where
  "nw_wf nw \<longleftrightarrow> length (nw_values nw) = length (nw_keys nw) \<and> length (nw_versions nw) = length (nw_keys nw)"

definition ntw_wf :: "namespaceToWrites \<Rightarrow> bool" where
  "ntw_wf m \<longleftrightarrow> wf_gomap m \<and> (\<forall>(ns, nw) \<in> set m. nw_wf nw)"

definition tw_wf :: "transactionToWrites \<Rightarrow> bool" where
  "tw_wf tw \<longleftrightarrow> wf_gomap tw \<and> (\<forall>(i, m) \<in> set tw. ntw_wf m)"

lemma nw_wf_noWrites [simp]: "nw_wf noWrites" "nw_entries noWrites = []"
  by (simp_all add: nw_wf_def noWrites_def nw_entries_def)

lemma tw_wf_Nil [simp]: "tw_wf []" "entries [] = []" "ntw_wf []" "ntw_entries [] = []"
  by (simp_all add: tw_wf_def entries_def ntw_wf_def ntw_entries_def)

lemma nw_wf_append [simp]:
  assumes "nw_wf nw"
  shows "nw_wf (nw_append k v ver nw)" "nw_entries (nw_append k v ver nw) = nw_entries nw @ [(k, v, ver)]"
  using assms by (simp_all add: nw_wf_def nw_append_def nw_entries_def)

lemma nw_wf_appendWrites [simp]:
  assumes "nw_wf nw" "nw_wf other"
  shows "nw_wf (nw_appendWrites other nw)" "nw_entries (nw_appendWrites other nw) = nw_entries nw @ nw_entries other"
  using assms by (simp_all add: nw_wf_def nw_appendWrites_def nw_entries_def)

lemma nw_empty_entries: "nw_wf nw \<Longrightarrow> nw_empty nw \<longleftrightarrow> nw_entries nw = []"
  by (cases "nw_keys nw"; cases "nw_values nw"; cases "nw_versions nw")
     (auto simp: nw_wf_def nw_empty_def nw_entries_def)

lemma nw_entries_maps:
  assumes "nw_wf nw"
  shows "map fst (nw_entries nw) = nw_keys nw" "map (fst \<circ> snd) (nw_entries nw) = nw_values nw"
    "map (snd \<circ> snd) (nw_entries nw) = nw_versions nw"
proof -
  have "map (snd \<circ> snd) (nw_entries nw) = map snd (map snd (nw_entries nw))"
    "map (fst \<circ> snd) (nw_entries nw) = map fst (map snd (nw_entries nw))" by simp_all
  then show "map fst (nw_entries nw) = nw_keys nw" "map (fst \<circ> snd) (nw_entries nw) = nw_values nw"
    "map (snd \<circ> snd) (nw_entries nw) = nw_versions nw"
    using assms by (simp_all add: nw_wf_def nw_entries_def del: map_map)
qed

lemma ntw_wf_get: "ntw_wf m \<Longrightarrow> nw_wf (go_get noWrites m ns)"
  by (cases "map_of m ns") (auto simp: ntw_wf_def go_get_def dest: map_of_SomeD)

lemma tw_wf_get: "tw_wf tw \<Longrightarrow> ntw_wf (go_get [] tw i)"
  by (cases "map_of tw i") (auto simp: tw_wf_def go_get_def dest: map_of_SomeD)

lemma nsWrites_update_view:
  assumes "ntw_wf m" "\<And>nw. nw_wf nw \<Longrightarrow> nw_wf (f nw) \<and> nw_entries (f nw) = nw_entries nw @ E"
  shows "ntw_wf (nsWrites_update ns f m)"
    and "mset (ntw_entries (nsWrites_update ns f m)) = mset (ntw_entries m) + mset (map (Pair ns) E)"
proof -
  let ?nw = "go_get noWrites m ns"
  have nw: "nw_wf ?nw" by (rule ntw_wf_get [OF assms(1)])
  have "nw_wf nw" if "(k, nw) \<in> set (go_put ns (f ?nw) m)" for k nw
    using that assms(1) assms(2) [OF nw] by (rule_tac go_put_all) (auto simp: ntw_wf_def)
  then show "ntw_wf (nsWrites_update ns f m)"
    using assms(1) by (auto simp: ntw_wf_def nsWrites_update_def)
  show "mset (ntw_entries (nsWrites_update ns f m)) = mset (ntw_entries m) + mset (map (Pair ns) E)"
    unfolding nsWrites_update_def ntw_entries_def
    using assms(1) assms(2) [OF nw] by (intro mset_flat_update) (simp_all add: ntw_wf_def)
qed

lemma txWrites_update_view:
  assumes "tw_wf tw" "\<And>nw. nw_wf nw \<Longrightarrow> nw_wf (f nw) \<and> nw_entries (f nw) = nw_entries nw @ E"
  shows "tw_wf (txWrites_update i ns f tw)"
    and "mset (entries (txWrites_update i ns f tw)) = mset (entries tw) + mset (map (\<lambda>e. (i, ns, e)) E)"
proof -
  let ?m = "go_get [] tw i"
  have m: "ntw_wf ?m" by (rule tw_wf_get [OF assms(1)])
  note u = nsWrites_update_view [OF m assms(2), of ns]
  have "ntw_wf m" if "(k, m) \<in> set (go_put i (nsWrites_update ns f ?m) tw)" for k m
    using that assms(1) u(1) by (rule_tac go_put_all) (auto simp: tw_wf_def)
  then show "tw_wf (txWrites_update i ns f tw)"
    using assms(1) by (auto simp: tw_wf_def txWrites_update_def)
  have "mset (map (Pair i) (ntw_entries (nsWrites_update ns f ?m))) =
    mset (map (Pair i) (ntw_entries ?m)) + mset (map (\<lambda>e. (i, ns, e)) E)"
    using u(2) by (simp add: image_mset.compositionality comp_def)
  then show "mset (entries (txWrites_update i ns f tw)) = mset (entries tw) + mset (map (\<lambda>e. (i, ns, e)) E)"
    unfolding txWrites_update_def entries_def
    using assms(1) by (intro mset_flat_update) (simp_all add: tw_wf_def)
qed

lemmas txWrites_append_view = txWrites_update_view [where f = "nw_append k v ver" and E = "[(k, v, ver)]" for k v ver, simplified]
lemmas txWrites_create_view = txWrites_update_view [where f = "\<lambda>nw. nw" and E = "[]", folded txWrites_getOrCreate_def, simplified]

lemma entries_del: "entries (go_del i tw) = filter (\<lambda>e. fst e \<noteq> i) (entries tw)"
  unfolding entries_def by (rule flat_del) auto

lemma tw_wf_del: "tw_wf tw \<Longrightarrow> tw_wf (go_del i tw)"
  by (auto simp: tw_wf_def wf_gomap_def go_del_def AList.delete_eq distinct_map_filter)

text \<open>No transaction is listed without a write.\<close>

definition tw_tight :: "transactionToWrites \<Rightarrow> bool" where
  "tw_tight tw \<longleftrightarrow> (\<forall>(i, m) \<in> set tw. ntw_entries m \<noteq> [])"

lemma tw_tight_Nil [simp]: "tw_tight []"
  by (simp add: tw_tight_def)

lemma tw_tight_keys: "tw_tight tw \<Longrightarrow> set (go_keys tw) = fst ` set (entries tw)"
proof (induction tw)
  case (Cons x tw)
  obtain i m where x: "x = (i, m)" by (cases x)
  from Cons.prems obtain e es where "ntw_entries m = e # es" by (cases "ntw_entries m") (auto simp: tw_tight_def x)
  moreover have "set (go_keys tw) = fst ` set (entries tw)"
    using Cons by (auto simp: tw_tight_def)
  ultimately show ?case by (auto simp: x go_keys_def entries_def)
qed (simp add: go_keys_def)

lemma tw_tight_del: "tw_tight tw \<Longrightarrow> tw_tight (go_del i tw)"
  by (auto simp: tw_tight_def go_del_def AList.delete_eq)

lemma tw_tight_append:
  assumes "tw_wf tw" "tw_tight tw"
  shows "tw_tight (txWrites_update i ns (nw_append k v ver) tw)"
proof -
  let ?m = "nsWrites_update ns (nw_append k v ver) (go_get [] tw i)"
  have "mset (ntw_entries ?m) = mset (ntw_entries (go_get [] tw i)) + mset (map (Pair ns) [(k, v, ver)])"
    by (rule nsWrites_update_view(2)) (simp_all add: tw_wf_get assms(1))
  then have "ntw_entries ?m \<noteq> []" by (cases "ntw_entries ?m") simp_all
  then have "ntw_entries m \<noteq> []" if "(j, m) \<in> set (go_put i ?m tw)" for j m
    using that assms(2) by (rule_tac go_put_all) (auto simp: tw_tight_def)
  then show ?thesis by (auto simp: tw_tight_def txWrites_update_def)
qed

lemma ntw_empty_entries: "ntw_wf m \<Longrightarrow> namespaceToWrites_empty m \<longleftrightarrow> ntw_entries m = []"
  by (auto simp: ntw_wf_def namespaceToWrites_empty_def ntw_entries_def flat_def list_all_iff nw_empty_entries split: prod.splits)

lemma ntw_filter_entries: "ntw_wf m \<Longrightarrow> ntw_entries (filter (\<lambda>(ns, nw). \<not> nw_empty nw) m) = ntw_entries m"
proof (induction m)
  case (Cons x m)
  obtain ns nw where x: "x = (ns, nw)" by (cases x)
  have "ntw_wf m" "nw_wf nw" using Cons.prems by (auto simp: ntw_wf_def wf_gomap_def x)
  with Cons.IH nw_empty_entries [of nw] show ?case by (auto simp: x ntw_entries_def)
qed simp

lemma ntw_wf_filter: "ntw_wf m \<Longrightarrow> ntw_wf (filter P m)"
  by (auto simp: ntw_wf_def wf_gomap_def distinct_map_filter)

lemma clearEmpty_view:
  assumes "tw_wf tw"
  shows "tw_wf (clearEmpty tw)" "entries (clearEmpty tw) = entries tw" "tw_tight (clearEmpty tw)"
proof -
  let ?f = "filter (\<lambda>(i, ntw). \<not> namespaceToWrites_empty ntw) tw"
  have "map fst (clearEmpty tw) = map fst ?f" by (auto simp: clearEmpty_def)
  moreover have "distinct (map fst ?f)" using assms by (simp add: tw_wf_def wf_gomap_def distinct_map_filter)
  moreover have "\<forall>(i, m) \<in> set (clearEmpty tw). ntw_wf m"
    using assms by (auto simp: tw_wf_def clearEmpty_def ntw_wf_filter)
  ultimately show "tw_wf (clearEmpty tw)" by (simp add: tw_wf_def wf_gomap_def)
  show "tw_tight (clearEmpty tw)"
    using assms by (auto simp: tw_wf_def tw_tight_def clearEmpty_def ntw_filter_entries ntw_empty_entries)
  show "entries (clearEmpty tw) = entries tw"
    using assms
  proof (induction tw)
    case (Cons x tw)
    obtain i m where x: "x = (i, m)" by (cases x)
    have "tw_wf tw" "ntw_wf m" using Cons.prems by (auto simp: tw_wf_def wf_gomap_def x)
    with Cons.IH show ?case
      by (auto simp: x entries_def clearEmpty_def ntw_filter_entries ntw_empty_entries)
  qed (simp add: clearEmpty_def)
qed

section \<open>Grouping\<close>

lemma groupNsWrites_view:
  assumes "ntw_wf m" "nw_wf nw"
  shows "ntw_wf (groupNsWrites (ns, nw) m)"
    "mset (ntw_entries (groupNsWrites (ns, nw) m)) = mset (ntw_entries m) + mset (map (Pair ns) (nw_entries nw))"
  using nsWrites_update_view [OF assms(1), of "nw_appendWrites nw" "nw_entries nw" ns] assms nw_empty_entries [OF assms(2)]
  by (auto simp: groupNsWrites_def)

lemma fold_groupNsWrites_view:
  assumes "ntw_wf m" "\<forall>(ns, nw) \<in> set xs. nw_wf nw"
  shows "ntw_wf (fold groupNsWrites xs m) \<and>
    mset (ntw_entries (fold groupNsWrites xs m)) = mset (ntw_entries m) + mset (ntw_entries xs)"
  using assms
proof (induction xs arbitrary: m)
  case (Cons x xs)
  obtain ns nw where x: "x = (ns, nw)" by (cases x)
  note g = groupNsWrites_view [OF Cons.prems(1), of nw ns]
  have "nw_wf nw" using Cons.prems(2) by (simp add: x)
  with Cons.IH [of "groupNsWrites x m"] Cons.prems(2) g show ?case
    by (simp add: x ntw_entries_def add_ac)
qed simp

lemma groupWritesByNamespace_view:
  assumes "tw_wf tw"
  shows "ntw_wf (groupWritesByNamespace tw)"
    "mset (ntw_entries (groupWritesByNamespace tw)) = image_mset snd (mset (entries tw))"
proof -
  have "ntw_wf (fold (\<lambda>(i, nsWrites). fold groupNsWrites nsWrites) tw m) \<and>
    mset (ntw_entries (fold (\<lambda>(i, nsWrites). fold groupNsWrites nsWrites) tw m)) =
      mset (ntw_entries m) + image_mset snd (mset (entries tw))" if "ntw_wf m" for m
    using assms that
  proof (induction tw arbitrary: m)
    case (Cons x tw)
    obtain i n where x: "x = (i, n)" by (cases x)
    have "ntw_wf n" "tw_wf tw" using Cons.prems(1) by (auto simp: tw_wf_def wf_gomap_def x)
    moreover from this(1) have "ntw_wf (fold groupNsWrites n m) \<and>
      mset (ntw_entries (fold groupNsWrites n m)) = mset (ntw_entries m) + mset (ntw_entries n)"
      using Cons.prems(2) by (intro fold_groupNsWrites_view) (auto simp: ntw_wf_def)
    ultimately show ?case
      using Cons.IH by (simp add: x entries_def image_mset.compositionality comp_def add_ac)
  qed simp
  from this [of "[]"] show "ntw_wf (groupWritesByNamespace tw)"
    "mset (ntw_entries (groupWritesByNamespace tw)) = image_mset snd (mset (entries tw))"
    by (simp_all add: groupWritesByNamespace_def)
qed

end
