(* ===== verification/VC_Mvcc.thy ===== *)
theory VC_Mvcc
  imports VC_Views
begin

text \<open>
  The version checks of the validator and the invalidation of transactions: which transactions
  \<open>mvccValidate\<close> makes invalid, in terms of the committed versions of the database.
\<close>

section \<open>Invalidation\<close>

text \<open>The batch \<open>v'\<close> is \<open>v\<close> with the transactions \<open>I\<close> made invalid.\<close>

definition without :: "TxID set \<Rightarrow> transactionToWrites \<Rightarrow> transactionToWrites \<Rightarrow> bool" where
  "without I tw tw' \<longleftrightarrow>
     entries tw' = filter (\<lambda>e. fst e \<notin> I) (entries tw) \<and>
     (tw_wf tw \<longrightarrow> tw_wf tw') \<and> (tw_tight tw \<longrightarrow> tw_tight tw')"

definition invalidated_by :: "validatedTransactions \<Rightarrow> TxID set \<Rightarrow> Status \<Rightarrow> validatedTransactions \<Rightarrow> bool" where
  "invalidated_by v I st v' \<longleftrightarrow>
     map_of (invalidTxStatus v') = (\<lambda>i. if i \<in> I then Some st else map_of (invalidTxStatus v) i) \<and>
     without I (validTxNonBlindWrites v) (validTxNonBlindWrites v') \<and>
     without I (validTxBlindWrites v) (validTxBlindWrites v') \<and>
     without I (newWrites v) (newWrites v') \<and>
     v_readToTxIDs v' = v_readToTxIDs v \<and> v_txIDToHeight v' = v_txIDToHeight v \<and>
     checkpointFeedback v' = checkpointFeedback v \<and>
     v_checkpoint v' = (case v_checkpoint v of None \<Rightarrow> None | Some cp \<Rightarrow> if cp_txID cp \<in> I then None else Some cp) \<and>
     (wf_gomap (invalidTxStatus v) \<longrightarrow> wf_gomap (invalidTxStatus v'))"

lemma without_refl: "without {} tw tw"
  by (simp add: without_def)

lemma without_trans: "without I tw tw1 \<Longrightarrow> without J tw1 tw2 \<Longrightarrow> without (I \<union> J) tw tw2"
  by (auto simp: without_def intro: filter_cong)

lemma without_del: "without {i} tw (go_del i tw)"
  by (simp add: without_def entries_del tw_wf_del tw_tight_del)

lemma invalidated_by_refl: "invalidated_by v {} st v"
  by (simp add: invalidated_by_def without_refl split: option.splits)

lemma invalidated_by_trans:
  "invalidated_by v I st v1 \<Longrightarrow> invalidated_by v1 J st v2 \<Longrightarrow> invalidated_by v (I \<union> J) st v2"
  unfolding invalidated_by_def
  by (intro conjI) (auto simp: fun_eq_iff split: option.splits elim: without_trans)

lemma invalidated_by_updateInvalidTx: "invalidated_by v {i} st (updateInvalidTx st i v)"
  by (simp add: invalidated_by_def updateInvalidTx_def fun_eq_iff without_del split: option.splits)

lemma invalidated_by_updateInvalidTxs: "invalidated_by v (set ids) st (updateInvalidTxs ids st v)"
proof (induction ids arbitrary: v)
  case (Cons i ids)
  have "invalidated_by v ({i} \<union> set ids) st (updateInvalidTxs ids st (updateInvalidTx st i v))"
    by (rule invalidated_by_trans [OF invalidated_by_updateInvalidTx Cons.IH])
  then show ?case by (simp add: updateInvalidTxs_def)
qed (simp add: updateInvalidTxs_def invalidated_by_refl)

section \<open>Reads\<close>

type_synonym read = "string \<times> bytes \<times> u64 option"

text \<open>The reads held in a map from namespaces to reads.\<close>

definition read_entries :: "namespaceToReads \<Rightarrow> read set" where
  "read_entries nr = set (flat (\<lambda>ns r. map (Pair ns) (zip (rd_keys r) (rd_versions r))) nr)"

definition reads_wf :: "reads \<Rightarrow> bool" where
  "reads_wf r \<longleftrightarrow> length (rd_versions r) = length (rd_keys r)"

definition nr_wf :: "namespaceToReads \<Rightarrow> bool" where
  "nr_wf nr \<longleftrightarrow> wf_gomap nr \<and> (\<forall>(ns, r) \<in> set nr. reads_wf r)"

definition cmp :: "read \<Rightarrow> comparableRead" where
  "cmp = (\<lambda>(ns, k, v). newCmpRead ns k v)"

definition readers :: "readToTransactions \<Rightarrow> comparableRead \<Rightarrow> TxID set" where
  "readers m cr = (case m cr of None \<Rightarrow> {} | Some l \<Rightarrow> set l)"

lemma read_entries_Nil [simp]: "read_entries [] = {}" "nr_wf []"
  by (simp_all add: read_entries_def nr_wf_def)

lemma nr_wf_get: "nr_wf nr \<Longrightarrow> reads_wf (go_get noReads nr ns)"
  by (cases "map_of nr ns") (auto simp: nr_wf_def go_get_def reads_wf_def noReads_def dest: map_of_SomeD)

lemma nsReads_update_view:
  assumes "nr_wf nr" "\<And>r. reads_wf r \<Longrightarrow> reads_wf (f r) \<and> zip (rd_keys (f r)) (rd_versions (f r)) = zip (rd_keys r) (rd_versions r) @ E"
  shows "nr_wf (nsReads_update ns f nr)"
    "read_entries (nsReads_update ns f nr) = read_entries nr \<union> Pair ns ` set E"
proof -
  let ?r = "go_get noReads nr ns"
  let ?g = "\<lambda>ns r. map (Pair ns) (zip (rd_keys r) (rd_versions r))"
  have r: "reads_wf ?r" by (rule nr_wf_get [OF assms(1)])
  have "reads_wf s" if "(k, s) \<in> set (go_put ns (f ?r) nr)" for k s
    using that assms(1) assms(2) [OF r] by (rule_tac go_put_all) (auto simp: nr_wf_def)
  then show "nr_wf (nsReads_update ns f nr)"
    using assms(1) by (auto simp: nr_wf_def nsReads_update_def)
  have "mset (flat ?g (go_put ns (f ?r) nr)) = mset (flat ?g nr) + mset (map (Pair ns) E)"
    using assms(1) assms(2) [OF r] by (intro mset_flat_update) (simp_all add: nr_wf_def noReads_def)
  then have "mset (flat ?g (go_put ns (f ?r) nr)) = mset (flat ?g nr @ map (Pair ns) E)" by simp
  from mset_eq_setD [OF this] show "read_entries (nsReads_update ns f nr) = read_entries nr \<union> Pair ns ` set E"
    by (simp add: read_entries_def nsReads_update_def)
qed

lemmas reads_append_view = nsReads_update_view [where f = "reads_append k v" and E = "[(k, v)]" for k v, simplified reads_wf_def reads_append_def, simplified, folded reads_append_def]

lemma reads_appendMany_view:
  assumes "nr_wf nr" "length vs = length ks"
  shows "nr_wf (nsReads_update ns (reads_appendMany ks vs) nr)"
    "read_entries (nsReads_update ns (reads_appendMany ks vs) nr) = read_entries nr \<union> Pair ns ` set (zip ks vs)"
  using nsReads_update_view [OF assms(1), of "reads_appendMany ks vs" "zip ks vs" ns] assms(2)
  by (auto simp: reads_wf_def reads_appendMany_def)

lemma read_entries_empty: "nr_wf nr \<Longrightarrow> namespaceToReads_empty nr \<longleftrightarrow> read_entries nr = {}"
proof -
  assume a: "nr_wf nr"
  have "reads_empty r \<longleftrightarrow> zip (rd_keys r) (rd_versions r) = []" if "(ns, r) \<in> set nr" for ns r
    using that a by (cases "rd_keys r"; cases "rd_versions r") (auto simp: nr_wf_def reads_wf_def reads_empty_def)
  then show ?thesis
    by (auto simp: namespaceToReads_empty_def read_entries_def set_flat list_all_iff split: prod.splits)
qed

section \<open>Invalidation on read conflicts\<close>

lemma invalidateOnRead_ok:
  "invalidateOnRead ns (k, ver) v = Inr v' \<Longrightarrow>
   invalidated_by v (readers (v_readToTxIDs v) (cmp (ns, k, ver))) ABORTED_MVCC_CONFLICT v'"
  using invalidated_by_updateInvalidTxs
  by (auto simp: invalidateOnRead_def readers_def cmp_def Let_def split: option.splits)

lemma invalidateOnRead_found:
  "v_readToTxIDs v (cmp (ns, k, ver)) \<noteq> None \<Longrightarrow> \<exists>v'. invalidateOnRead ns (k, ver) v = Inr v'"
  by (auto simp: invalidateOnRead_def cmp_def Let_def)

lemma loop_invalidateOnRead:
  assumes "\<forall>(k, ver) \<in> set kvs. v_readToTxIDs v (cmp (ns, k, ver)) \<noteq> None"
  shows "\<exists>v'. loop_err (invalidateOnRead ns) kvs v = Inr v' \<and>
    invalidated_by v (\<Union>(k, ver) \<in> set kvs. readers (v_readToTxIDs v) (cmp (ns, k, ver))) ABORTED_MVCC_CONFLICT v'"
  using assms
proof (induction kvs arbitrary: v)
  case (Cons kv kvs)
  obtain k ver where kv: "kv = (k, ver)" by (cases kv)
  obtain v1 where v1: "invalidateOnRead ns (k, ver) v = Inr v1"
    using Cons.prems invalidateOnRead_found by (fastforce simp: kv)
  have 1: "invalidated_by v (readers (v_readToTxIDs v) (cmp (ns, k, ver))) ABORTED_MVCC_CONFLICT v1"
    by (rule invalidateOnRead_ok [OF v1])
  then have e: "v_readToTxIDs v1 = v_readToTxIDs v" by (simp add: invalidated_by_def)
  obtain v' where v': "loop_err (invalidateOnRead ns) kvs v1 = Inr v'"
    "invalidated_by v1 (\<Union>(k, ver) \<in> set kvs. readers (v_readToTxIDs v) (cmp (ns, k, ver))) ABORTED_MVCC_CONFLICT v'"
    using Cons.IH [of v1] Cons.prems by (auto simp: kv e)
  with invalidated_by_trans [OF 1 v'(2)] v1 show ?case by (simp add: kv)
qed (simp add: invalidated_by_refl)

lemma invalidateTxsOnReadConflicts_ok:
  assumes "\<forall>e \<in> read_entries rc. v_readToTxIDs v (cmp e) \<noteq> None"
  shows "\<exists>v'. invalidateTxsOnReadConflicts rc v = Inr v' \<and>
    invalidated_by v (\<Union>e \<in> read_entries rc. readers (v_readToTxIDs v) (cmp e)) ABORTED_MVCC_CONFLICT v'"
  using assms
proof (induction rc arbitrary: v)
  case (Cons x rc)
  obtain ns r where x: "x = (ns, r)" by (cases x)
  let ?kvs = "zip (rd_keys r) (rd_versions r)"
  have re: "read_entries (x # rc) = Pair ns ` set ?kvs \<union> read_entries rc"
    by (simp add: read_entries_def x)
  obtain v1 where v1: "loop_err (invalidateOnRead ns) ?kvs v = Inr v1"
    "invalidated_by v (\<Union>(k, ver) \<in> set ?kvs. readers (v_readToTxIDs v) (cmp (ns, k, ver))) ABORTED_MVCC_CONFLICT v1"
    using loop_invalidateOnRead [of ?kvs v ns] Cons.prems by (auto simp: re)
  then have e: "v_readToTxIDs v1 = v_readToTxIDs v" by (simp add: invalidated_by_def)
  obtain v' where v': "invalidateTxsOnReadConflicts rc v1 = Inr v'"
    "invalidated_by v1 (\<Union>e \<in> read_entries rc. readers (v_readToTxIDs v) (cmp e)) ABORTED_MVCC_CONFLICT v'"
    using Cons.IH [of v1] Cons.prems by (auto simp: re e)
  have "(\<Union>e \<in> read_entries (x # rc). readers (v_readToTxIDs v) (cmp e)) =
    (\<Union>(k, ver) \<in> set ?kvs. readers (v_readToTxIDs v) (cmp (ns, k, ver))) \<union>
    (\<Union>e \<in> read_entries rc. readers (v_readToTxIDs v) (cmp e))"
    by (auto simp: re)
  with invalidated_by_trans [OF v1(2) v'(2)] v1(1) v'(1) show ?case
    by (simp add: x invalidateTxsOnReadConflicts_def)
qed (simp add: invalidateTxsOnReadConflicts_def invalidated_by_refl)

section \<open>Validation of reads\<close>

definition row_of :: "database \<Rightarrow> string \<Rightarrow> bytes \<Rightarrow> row option" where
  "row_of db ns k = (case db_ns db ns of None \<Rightarrow> None | Some t \<Rightarrow> t k)"

definition read_ok :: "database \<Rightarrow> read \<Rightarrow> bool" where
  "read_ok db = (\<lambda>(ns, k, ver). map_option row_version (row_of db ns k) = map_option unat ver)"

text \<open>Versions an SQL \<open>BIGINT\<close> can hold.\<close>

definition small :: "u64 option \<Rightarrow> bool" where
  "small ver \<longleftrightarrow> (case ver of None \<Rightarrow> True | Some x \<Rightarrow> unat x < 2 ^ 63)"

lemma encode_versions_small:
  assumes "bigint_law w" "\<forall>v \<in> set vs. small v"
  shows "encode_versions w vs = Some (map (map_option unat) vs)"
  using assms(2)
proof (induction vs)
  case (Cons v vs)
  then show ?case
    using assms(1) by (cases v) (simp_all add: encode_versions_def bigint_law_def small_def)
qed (simp add: encode_versions_def)

lemma fold_reads_append:
  assumes "reads_wf r"
  shows "reads_wf (fold (\<lambda>i. reads_append (ks ! (i - 1)) (vs ! (i - 1))) is r) \<and>
    (let r' = fold (\<lambda>i. reads_append (ks ! (i - 1)) (vs ! (i - 1))) is r
     in zip (rd_keys r') (rd_versions r') = zip (rd_keys r) (rd_versions r) @ map (\<lambda>i. (ks ! (i - 1), vs ! (i - 1))) is)"
  using assms by (induction "is" arbitrary: r) (simp_all add: reads_wf_def reads_append_def Let_def)

lemma validateNamespaceReads_ok:
  assumes "bigint_law w" "reads_wf r" "\<forall>v \<in> set (rd_versions r). small v" "db_ns db ns = Some t"
  shows "\<exists>c. validateNamespaceReads w db ns r = Inr c \<and> reads_wf c \<and>
    set (zip (rd_keys c) (rd_versions c)) =
      {(k, v). (k, v) \<in> set (zip (rd_keys r) (rd_versions r)) \<and> \<not> read_ok db (ns, k, v)}"
proof -
  let ?es = "map (map_option unat) (rd_versions r)"
  let ?is = "validate_reads_ns (rd_keys r) ?es t"
  let ?c = "fold (\<lambda>i. reads_append (rd_keys r ! (i - 1)) (rd_versions r ! (i - 1))) ?is noReads"
  have v: "validateNamespaceReads w db ns r = Inr ?c"
    using assms by (simp add: validateNamespaceReads_def encode_versions_small)
  have "reads_wf noReads" by (simp add: reads_wf_def noReads_def)
  note f = fold_reads_append [OF this, of "rd_keys r" "rd_versions r" ?is]
  then have L: "set (zip (rd_keys ?c) (rd_versions ?c)) = (\<lambda>i. (rd_keys r ! (i - 1), rd_versions r ! (i - 1))) ` set ?is"
    by (simp add: noReads_def Let_def)
  have m: "Suc i \<in> set ?is \<longleftrightarrow> \<not> read_ok db (ns, rd_keys r ! i, rd_versions r ! i)"
    if "i < length (rd_keys r)" for i
    using that assms(2,4) by (simp add: validate_reads_ns_iff read_ok_def row_of_def reads_wf_def)
  have "set (zip (rd_keys ?c) (rd_versions ?c)) =
      {(k, v). (k, v) \<in> set (zip (rd_keys r) (rd_versions r)) \<and> \<not> read_ok db (ns, k, v)}" (is "?L = ?R")
  proof (intro equalityI subsetI)
    fix x assume "x \<in> ?L"
    then obtain i where i: "i \<in> set ?is" "x = (rd_keys r ! (i - 1), rd_versions r ! (i - 1))"
      unfolding L by blast
    from validate_reads_ns_range [OF i(1)] have "i = Suc (i - 1)" "i - 1 < length (rd_keys r)" by linarith+
    with i m [of "i - 1"] assms(2) show "x \<in> ?R" by (auto simp: in_set_zip reads_wf_def)
  next
    fix x assume "x \<in> ?R"
    then obtain j where "j < length (rd_keys r)" "x = (rd_keys r ! j, rd_versions r ! j)"
      "\<not> read_ok db (ns, rd_keys r ! j, rd_versions r ! j)"
      by (auto simp: in_set_zip)
    with m show "x \<in> ?L" unfolding L by (auto intro!: image_eqI [of _ _ "Suc j"])
  qed
  with v f show ?thesis by blast
qed

definition reads_checkable :: "database \<Rightarrow> namespaceToReads \<Rightarrow> bool" where
  "reads_checkable db nr \<longleftrightarrow>
     (\<forall>(ns, r) \<in> set nr. db_ns db ns \<noteq> None \<and> (\<forall>v \<in> set (rd_versions r). small v))"

lemma validateReads_ok:
  assumes "bigint_law w" "\<forall>(ns, r) \<in> set nr. reads_wf r" "reads_checkable db nr" "nr_wf acc"
  shows "\<exists>rc. loop_err (validateReadsOfNs w db) nr acc = Inr rc \<and> nr_wf rc \<and>
    read_entries rc = read_entries acc \<union> {e \<in> read_entries nr. \<not> read_ok db e}"
  using assms(2-4)
proof (induction nr arbitrary: acc)
  case (Cons x nr)
  obtain ns r where x: "x = (ns, r)" by (cases x)
  obtain t where t: "db_ns db ns = Some t" and r: "reads_wf r" "\<forall>v \<in> set (rd_versions r). small v"
    using Cons.prems by (auto simp: x reads_checkable_def)
  obtain c where c: "validateNamespaceReads w db ns r = Inr c" "reads_wf c"
    "set (zip (rd_keys c) (rd_versions c)) = {(k, v). (k, v) \<in> set (zip (rd_keys r) (rd_versions r)) \<and> \<not> read_ok db (ns, k, v)}"
    using validateNamespaceReads_ok [OF assms(1) r t] by blast
  let ?acc = "nsReads_update ns (reads_appendMany (rd_keys c) (rd_versions c)) acc"
  have a: "nr_wf ?acc" "read_entries ?acc = read_entries acc \<union> Pair ns ` set (zip (rd_keys c) (rd_versions c))"
    using reads_appendMany_view [OF Cons.prems(3)] c(2) by (simp_all add: reads_wf_def)
  obtain rc where rc: "loop_err (validateReadsOfNs w db) nr ?acc = Inr rc" "nr_wf rc"
    "read_entries rc = read_entries ?acc \<union> {e \<in> read_entries nr. \<not> read_ok db e}"
    using Cons.IH [of ?acc] Cons.prems a(1) by (auto simp: reads_checkable_def)
  have "read_entries (x # nr) = Pair ns ` set (zip (rd_keys r) (rd_versions r)) \<union> read_entries nr"
    by (simp add: read_entries_def x)
  with rc(3) a(2) c(3) have "read_entries rc = read_entries acc \<union> {e \<in> read_entries (x # nr). \<not> read_ok db e}"
    by auto
  with rc(1,2) c(1) show ?case by (simp add: x validateReadsOfNs_def)
qed simp

text \<open>The transactions the validator finds stale are those with a checked read that does not match.\<close>

lemma mvccValidate_ok:
  assumes "bigint_law w" "nr_wf (nsToReads p)" "reads_checkable db (nsToReads p)"
    and "\<forall>e \<in> read_entries (nsToReads p). readToTxIDs p (cmp e) \<noteq> None"
  shows "\<exists>v. mvccValidate w db p = Inr v \<and>
    invalidated_by (newValidated p)
      (\<Union>e \<in> {e \<in> read_entries (nsToReads p). \<not> read_ok db e}. readers (readToTxIDs p) (cmp e)) ABORTED_MVCC_CONFLICT v"
proof -
  obtain rc where rc: "validateReads w db (nsToReads p) = Inr rc"
    "read_entries rc = {e \<in> read_entries (nsToReads p). \<not> read_ok db e}"
    using validateReads_ok [OF assms(1) _ assms(3), of "[]"] assms(2) by (auto simp: validateReads_def nr_wf_def)
  have "v_readToTxIDs (newValidated p) = readToTxIDs p" by (simp add: newValidated_def)
  with invalidateTxsOnReadConflicts_ok [of rc "newValidated p"] rc assms(4) show ?thesis
    by (auto simp: mvccValidate_def)
qed

end
