(* ===== verification/VC_Prepared.thy ===== *)
theory VC_Prepared
  imports VC_Mvcc
begin

text \<open>
  What the preparer makes of a batch, in terms of the reads and the writes of its transactions.
\<close>

section \<open>The reads and writes of a transaction\<close>

text \<open>Every transaction depends on the version of the namespaces it uses.\<close>

definition version_read :: "TxNamespace \<Rightarrow> read list" where
  "version_read ns =
     (if ns_id ns = MetaNamespaceID then [(ConfigNamespaceID, ConfigKey, Some (ns_version ns))]
      else if ns_id ns = ConfigNamespaceID \<or> ns_id ns = CheckpointNamespaceID \<or> ns_id ns = SnapshotNamespaceID then []
      else [(MetaNamespaceID, ns_id ns, Some (ns_version ns))])"

definition ns_checked :: "TxNamespace \<Rightarrow> read list" where
  "ns_checked ns =
     map (\<lambda>r. (ns_id ns, r_key r, r_version r)) (ns_reads_only ns) @
     map (\<lambda>rw. (ns_id ns, rw_key rw, rw_version rw)) (filter (\<lambda>rw. rw_version rw \<noteq> None) (ns_read_writes ns)) @
     version_read ns"

definition ns_created :: "TxNamespace \<Rightarrow> read list" where
  "ns_created ns = map (\<lambda>rw. (ns_id ns, rw_key rw, None)) (filter (\<lambda>rw. rw_version rw = None) (ns_read_writes ns))"

type_synonym entry = "TxID \<times> string \<times> bytes \<times> bytes \<times> u64"

definition ns_updates :: "TxID \<Rightarrow> TxNamespace \<Rightarrow> entry list" where
  "ns_updates i ns =
     map (\<lambda>rw. (i, ns_id ns, rw_key rw, rw_value rw, the (rw_version rw) + 1))
       (filter (\<lambda>rw. rw_version rw \<noteq> None) (ns_read_writes ns))"

definition ns_inserts :: "TxID \<Rightarrow> TxNamespace \<Rightarrow> entry list" where
  "ns_inserts i ns =
     map (\<lambda>rw. (i, ns_id ns, rw_key rw, rw_value rw, 0)) (filter (\<lambda>rw. rw_version rw = None) (ns_read_writes ns))"

definition ns_blinds :: "TxID \<Rightarrow> TxNamespace \<Rightarrow> entry list" where
  "ns_blinds i ns = map (\<lambda>w. (i, ns_id ns, w_key w, w_value w, 0)) (ns_blind_writes ns)"

section \<open>The view of a prepared batch\<close>

definition readers_of :: "(TxID \<times> read) set \<Rightarrow> comparableRead \<Rightarrow> TxID set" where
  "readers_of S cr = fst ` {x \<in> S. cmp (snd x) = cr}"

lemma readers_of_insert:
  "readers_of (insert (i, e) S) cr = (if cr = cmp e then insert i (readers_of S cr) else readers_of S cr)"
proof -
  have "{x \<in> insert (i, e) S. cmp (snd x) = cr} =
    (if cr = cmp e then insert (i, e) {x \<in> S. cmp (snd x) = cr} else {x \<in> S. cmp (snd x) = cr})" by auto
  then show ?thesis by (simp add: readers_of_def)
qed

lemma readers_of_empty: "readers_of S cr = {} \<longleftrightarrow> cr \<notin> cmp ` snd ` S"
  unfolding readers_of_def image_is_empty by blast

definition prep_reads :: "preparedTransactions \<Rightarrow> (TxID \<times> read) set \<Rightarrow> (TxID \<times> read) set \<Rightarrow> bool" where
  "prep_reads p RC RN \<longleftrightarrow>
     nr_wf (nsToReads p) \<and>
     (\<forall>cr. readers (readToTxIDs p) cr = readers_of (RC \<union> RN) cr \<and> readToTxIDs p cr \<noteq> Some []) \<and>
     read_entries (nsToReads p) \<subseteq> snd ` RC \<and>
     (\<forall>e \<in> snd ` RC. cmp e \<in> cmp ` read_entries (nsToReads p) \<union> cmp ` snd ` RN)"

definition prep_writes :: "preparedTransactions \<Rightarrow> entry multiset \<Rightarrow> entry multiset \<Rightarrow> entry multiset \<Rightarrow> bool" where
  "prep_writes p NB BL NW \<longleftrightarrow>
     tw_wf (txIDToNsNonBlindWrites p) \<and> mset (entries (txIDToNsNonBlindWrites p)) = NB \<and>
     tw_wf (txIDToNsBlindWrites p) \<and> mset (entries (txIDToNsBlindWrites p)) = BL \<and>
     tw_wf (txIDToNsNewWrites p) \<and> mset (entries (txIDToNsNewWrites p)) = NW"

text \<open>An operation that records reads and writes and nothing else.\<close>

definition records :: "(preparedTransactions \<Rightarrow> preparedTransactions) \<Rightarrow> (TxID \<times> read) set \<Rightarrow> (TxID \<times> read) set
    \<Rightarrow> entry multiset \<Rightarrow> entry multiset \<Rightarrow> entry multiset \<Rightarrow> bool" where
  "records f RC RN NB BL NW \<longleftrightarrow>
     (\<forall>p RC0 RN0. prep_reads p RC0 RN0 \<longrightarrow> prep_reads (f p) (RC0 \<union> RC) (RN0 \<union> RN)) \<and>
     (\<forall>p NB0 BL0 NW0. prep_writes p NB0 BL0 NW0 \<longrightarrow> prep_writes (f p) (NB0 + NB) (BL0 + BL) (NW0 + NW)) \<and>
     (\<forall>p. txIDToHeight (f p) = txIDToHeight p \<and> invalidTxIDStatus (f p) = invalidTxIDStatus p \<and>
          prep_checkpoint (f p) = prep_checkpoint p)"

lemma records_id: "records (\<lambda>p. p) {} {} {#} {#} {#}"
  by (simp add: records_def)

lemma records_readsD: "records f RC RN NB BL NW \<Longrightarrow> prep_reads p RC0 RN0 \<Longrightarrow> prep_reads (f p) (RC0 \<union> RC) (RN0 \<union> RN)"
  by (simp add: records_def)

lemma records_writesD:
  "records f RC RN NB BL NW \<Longrightarrow> prep_writes p NB0 BL0 NW0 \<Longrightarrow> prep_writes (f p) (NB0 + NB) (BL0 + BL) (NW0 + NW)"
  by (simp add: records_def)

lemma records_comp:
  assumes "records f RC RN NB BL NW" "records g RC' RN' NB' BL' NW'"
  shows "records (\<lambda>p. g (f p)) (RC \<union> RC') (RN \<union> RN') (NB + NB') (BL + BL') (NW + NW')"
proof -
  have "prep_reads (g (f p)) (RC0 \<union> (RC \<union> RC')) (RN0 \<union> (RN \<union> RN'))" if "prep_reads p RC0 RN0" for p RC0 RN0
    using records_readsD [OF assms(2) records_readsD [OF assms(1) that]] by (simp add: Un_assoc)
  moreover have "prep_writes (g (f p)) (NB0 + (NB + NB')) (BL0 + (BL + BL')) (NW0 + (NW + NW'))"
    if "prep_writes p NB0 BL0 NW0" for p NB0 BL0 NW0
    using records_writesD [OF assms(2) records_writesD [OF assms(1) that]] by (simp add: add.assoc)
  ultimately show ?thesis using assms unfolding records_def by simp
qed

lemma records_fold:
  assumes "\<And>x. x \<in> set xs \<Longrightarrow> records (f x) (RC x) (RN x) (NB x) (BL x) (NW x)"
  shows "records (fold f xs) (\<Union>x \<in> set xs. RC x) (\<Union>x \<in> set xs. RN x)
    (\<Sum>\<^sub># (mset (map NB xs))) (\<Sum>\<^sub># (mset (map BL xs))) (\<Sum>\<^sub># (mset (map NW xs)))"
  using assms
proof (induction xs)
  case Nil
  then show ?case using records_id by (simp add: id_def)
next
  case (Cons x xs)
  have "records (f x) (RC x) (RN x) (NB x) (BL x) (NW x)" using Cons.prems by simp
  moreover have "records (fold f xs) (\<Union>x \<in> set xs. RC x) (\<Union>x \<in> set xs. RN x)
    (\<Sum>\<^sub># (mset (map NB xs))) (\<Sum>\<^sub># (mset (map BL xs))) (\<Sum>\<^sub># (mset (map NW xs)))"
    by (rule Cons.IH) (simp add: Cons.prems)
  ultimately show ?case using records_comp [of "f x" _ _ _ _ _ "fold f xs"] by (simp add: comp_def)
qed

section \<open>Reads\<close>

lemma readers_recordRead:
  "readers (readToTxIDs (recordRead i cr0 p)) cr = (if cr = cr0 then insert i (readers (readToTxIDs p) cr) else readers (readToTxIDs p) cr)"
  "readToTxIDs p cr \<noteq> Some [] \<Longrightarrow> readToTxIDs (recordRead i cr0 p) cr \<noteq> Some []"
  "nsToReads (recordRead i cr0 p) = nsToReads p"
  by (auto simp: recordRead_def readers_def split: option.splits)

lemma recordRead_reads:
  assumes "prep_reads p RC RN"
  shows "readers (readToTxIDs (recordRead i (cmp e) p)) cr = readers_of (insert (i, e) (RC \<union> RN)) cr"
    and "readToTxIDs (recordRead i (cmp e) p) cr \<noteq> Some []"
proof -
  have r: "readers (readToTxIDs p) cr = readers_of (RC \<union> RN) cr" "readToTxIDs p cr \<noteq> Some []"
    using assms unfolding prep_reads_def by blast+
  show "readers (readToTxIDs (recordRead i (cmp e) p)) cr = readers_of (insert (i, e) (RC \<union> RN)) cr"
    unfolding readers_recordRead(1) readers_of_insert r(1) ..
  show "readToTxIDs (recordRead i (cmp e) p) cr \<noteq> Some []"
    by (rule readers_recordRead(2) [OF r(2)])
qed

lemma present_iff:
  assumes "prep_reads p RC RN"
  shows "readToTxIDs p cr \<noteq> None \<longleftrightarrow> cr \<in> cmp ` snd ` (RC \<union> RN)"
proof -
  have r: "readers (readToTxIDs p) cr = readers_of (RC \<union> RN) cr" "readToTxIDs p cr \<noteq> Some []"
    using assms unfolding prep_reads_def by blast+
  have "readToTxIDs p cr \<noteq> None \<longleftrightarrow> readers (readToTxIDs p) cr \<noteq> {}"
    using r(2) by (auto simp: readers_def split: option.splits)
  then show ?thesis unfolding r(1) readers_of_empty by blast
qed

lemma prep_readsD:
  assumes "prep_reads p RC RN"
  shows "nr_wf (nsToReads p)" "read_entries (nsToReads p) \<subseteq> snd ` RC"
    "e \<in> snd ` RC \<Longrightarrow> cmp e \<in> cmp ` read_entries (nsToReads p) \<union> cmp ` snd ` RN"
    "readers (readToTxIDs p) cr = readers_of (RC \<union> RN) cr"
  using assms unfolding prep_reads_def by blast+

lemma prep_readsI:
  assumes "nr_wf (nsToReads p)" "read_entries (nsToReads p) \<subseteq> snd ` RC"
    "\<And>e. e \<in> snd ` RC \<Longrightarrow> cmp e \<in> cmp ` read_entries (nsToReads p) \<union> cmp ` snd ` RN"
    "\<And>cr. readers (readToTxIDs p) cr = readers_of (RC \<union> RN) cr" "\<And>cr. readToTxIDs p cr \<noteq> Some []"
  shows "prep_reads p RC RN"
  using assms unfolding prep_reads_def by blast

lemma known_read:
  assumes "prep_reads p RC RN" "readToTxIDs p (cmp e) \<noteq> None"
  shows "prep_reads (recordRead i (cmp e) p) (insert (i, e) RC) RN"
proof (rule prep_readsI)
  have e: "cmp e \<in> cmp ` read_entries (nsToReads p) \<union> cmp ` snd ` RN"
  proof -
    have "cmp e \<in> cmp ` snd ` RC \<or> cmp e \<in> cmp ` snd ` RN"
      using present_iff [OF assms(1), of "cmp e"] assms(2) by (simp only: image_Un Un_iff) simp
    then show ?thesis
    proof
      assume "cmp e \<in> cmp ` snd ` RC"
      then obtain e' where "e' \<in> snd ` RC" "cmp e = cmp e'" by (rule imageE)
      then show ?thesis using prep_readsD(3) [OF assms(1), of e'] by simp
    qed simp
  qed
  fix e' assume "e' \<in> snd ` insert (i, e) RC"
  then have "e' = e \<or> e' \<in> snd ` RC" by simp
  then show "cmp e' \<in> cmp ` read_entries (nsToReads (recordRead i (cmp e) p)) \<union> cmp ` snd ` RN"
    unfolding readers_recordRead(3) using e prep_readsD(3) [OF assms(1), of e'] by (elim disjE) simp_all
next
  show "read_entries (nsToReads (recordRead i (cmp e) p)) \<subseteq> snd ` insert (i, e) RC"
    using prep_readsD(2) [OF assms(1)] unfolding readers_recordRead(3) by (simp add: subset_insertI2)
  show "nr_wf (nsToReads (recordRead i (cmp e) p))" using prep_readsD(1) [OF assms(1)] by (simp add: readers_recordRead(3))
  show "readers (readToTxIDs (recordRead i (cmp e) p)) cr = readers_of (insert (i, e) RC \<union> RN) cr"
    "readToTxIDs (recordRead i (cmp e) p) cr \<noteq> Some []" for cr
    by (simp_all only: recordRead_reads [OF assms(1)] Un_insert_left) simp
qed

lemma fresh_read:
  assumes "prep_reads p RC RN"
  shows "prep_reads ((recordRead i (cmp (ns, k, v)) p)\<lparr>nsToReads := nsReads_update ns (reads_append k v) (nsToReads p)\<rparr>)
    (insert (i, ns, k, v) RC) RN" (is "prep_reads ?p' _ _")
proof (rule prep_readsI)
  note u = reads_append_view [OF prep_readsD(1) [OF assms], of ns k v]
  let ?e = "(ns, k, v)"
  have n: "nsToReads ?p' = nsReads_update ns (reads_append k v) (nsToReads p)"
    "readToTxIDs ?p' = readToTxIDs (recordRead i (cmp ?e) p)" by simp_all
  show "nr_wf (nsToReads ?p')" using u(1) n by simp
  show "read_entries (nsToReads ?p') \<subseteq> snd ` insert (i, ?e) RC"
    using u(2) n prep_readsD(2) [OF assms] by (simp add: subset_insertI2)
  show "readers (readToTxIDs ?p') cr = readers_of (insert (i, ?e) RC \<union> RN) cr" "readToTxIDs ?p' cr \<noteq> Some []" for cr
    unfolding n using recordRead_reads [OF assms] by simp_all
  fix e' assume "e' \<in> snd ` insert (i, ?e) RC"
  then have "e' = ?e \<or> e' \<in> snd ` RC" by simp
  then show "cmp e' \<in> cmp ` read_entries (nsToReads ?p') \<union> cmp ` snd ` RN"
    using prep_readsD(3) [OF assms, of e'] u(2) unfolding n by auto
qed

lemma created_read:
  assumes "prep_reads p RC RN"
  shows "prep_reads (recordRead i (cmp e) p) RC (insert (i, e) RN)"
proof (rule prep_readsI)
  fix e' assume "e' \<in> snd ` RC"
  then show "cmp e' \<in> cmp ` read_entries (nsToReads (recordRead i (cmp e) p)) \<union> cmp ` snd ` insert (i, e) RN"
    using prep_readsD(3) [OF assms, of e'] unfolding readers_recordRead(3) by simp
next
  show "nr_wf (nsToReads (recordRead i (cmp e) p))" "read_entries (nsToReads (recordRead i (cmp e) p)) \<subseteq> snd ` RC"
    using prep_readsD(1,2) [OF assms] by (simp_all add: readers_recordRead(3))
  show "readers (readToTxIDs (recordRead i (cmp e) p)) cr = readers_of (RC \<union> insert (i, e) RN) cr"
    "readToTxIDs (recordRead i (cmp e) p) cr \<noteq> Some []" for cr
    by (simp_all only: recordRead_reads [OF assms] Un_insert_right) simp
qed

section \<open>One namespace\<close>

lemma prep_reads_cong:
  "nsToReads p' = nsToReads p \<Longrightarrow> readToTxIDs p' = readToTxIDs p \<Longrightarrow> prep_reads p' RC RN \<longleftrightarrow> prep_reads p RC RN"
  by (simp add: prep_reads_def)

lemma prep_writes_cong:
  "txIDToNsNonBlindWrites p' = txIDToNsNonBlindWrites p \<Longrightarrow> txIDToNsBlindWrites p' = txIDToNsBlindWrites p \<Longrightarrow>
   txIDToNsNewWrites p' = txIDToNsNewWrites p \<Longrightarrow> prep_writes p' NB BL NW \<longleftrightarrow> prep_writes p NB BL NW"
  by (simp add: prep_writes_def)

text \<open>The part of \<open>addRead\<close> and \<open>addReadWrite\<close> that concerns the reads.\<close>

definition noteRead :: "TxID \<Rightarrow> read \<Rightarrow> preparedTransactions \<Rightarrow> preparedTransactions" where
  "noteRead i e p =
     (if readToTxIDs p (cmp e) = None
      then (recordRead i (cmp e) p)\<lparr>nsToReads := nsReads_update (fst e) (reads_append (fst (snd e)) (snd (snd e))) (nsToReads p)\<rparr>
      else recordRead i (cmp e) p)"

lemma noteRead_reads:
  assumes "prep_reads p RC RN"
  shows "prep_reads (noteRead i e p) (insert (i, e) RC) RN"
proof (cases "readToTxIDs p (cmp e) = None")
  case True
  obtain ns k v where "e = (ns, k, v)" by (cases e)
  with fresh_read [OF assms, where i = i and ns = ns and k = k and v = v] True show ?thesis by (simp add: noteRead_def)
next
  case False
  from known_read [OF assms False, of i] False show ?thesis unfolding noteRead_def by (simp only: if_False)
qed

lemma noteRead_frame [simp]:
  "txIDToNsNonBlindWrites (noteRead i e p) = txIDToNsNonBlindWrites p" "txIDToNsBlindWrites (noteRead i e p) = txIDToNsBlindWrites p"
  "txIDToNsNewWrites (noteRead i e p) = txIDToNsNewWrites p" "txIDToHeight (noteRead i e p) = txIDToHeight p"
  "invalidTxIDStatus (noteRead i e p) = invalidTxIDStatus p" "prep_checkpoint (noteRead i e p) = prep_checkpoint p"
  by (simp_all add: noteRead_def recordRead_def)

lemma addRead_eq: "addRead i ns r p = noteRead i (ns, r_key r, r_version r) p"
  by (simp add: addRead_def noteRead_def cmp_def Let_def readers_recordRead(3))

lemma addRead_records: "records (addRead i ns r) {(i, ns, r_key r, r_version r)} {} {#} {#} {#}"
proof -
  have "prep_writes (noteRead i e p) NB BL NW \<longleftrightarrow> prep_writes p NB BL NW" for e p NB BL NW
    by (rule prep_writes_cong) simp_all
  with noteRead_reads show ?thesis by (simp add: records_def addRead_eq)
qed

definition rw_checked :: "TxID \<Rightarrow> string \<Rightarrow> ReadWrite \<Rightarrow> (TxID \<times> read) set" where
  "rw_checked i ns rw = (if rw_version rw = None then {} else {(i, ns, rw_key rw, rw_version rw)})"

definition rw_created :: "TxID \<Rightarrow> string \<Rightarrow> ReadWrite \<Rightarrow> (TxID \<times> read) set" where
  "rw_created i ns rw = (if rw_version rw = None then {(i, ns, rw_key rw, None)} else {})"

definition rw_update :: "TxID \<Rightarrow> string \<Rightarrow> ReadWrite \<Rightarrow> entry multiset" where
  "rw_update i ns rw = (case rw_version rw of None \<Rightarrow> {#} | Some v \<Rightarrow> {#(i, ns, rw_key rw, rw_value rw, v + 1)#})"

definition rw_insert :: "TxID \<Rightarrow> string \<Rightarrow> ReadWrite \<Rightarrow> entry multiset" where
  "rw_insert i ns rw = (case rw_version rw of None \<Rightarrow> {#(i, ns, rw_key rw, rw_value rw, 0)#} | Some v \<Rightarrow> {#})"

lemma addReadWrite_eq:
  "addReadWrite i ns rw p =
     (case rw_version rw of
        Some v \<Rightarrow> (noteRead i (ns, rw_key rw, Some v) p)\<lparr>txIDToNsNonBlindWrites :=
                    txWrites_update i ns (nw_append (rw_key rw) (rw_value rw) (v + 1)) (txIDToNsNonBlindWrites p)\<rparr>
      | None \<Rightarrow> (recordRead i (cmp (ns, rw_key rw, None)) p)\<lparr>txIDToNsNewWrites :=
                  txWrites_update i ns (nw_append (rw_key rw) (rw_value rw) 0) (txIDToNsNewWrites p)\<rparr>)"
proof -
  have r: "txIDToNsNewWrites (recordRead i cr p) = txIDToNsNewWrites p" for cr by (simp add: recordRead_def)
  have "addReadWrite i ns rw p = (let p2 = noteRead i (ns, rw_key rw, Some v) p in
    p2\<lparr>txIDToNsNonBlindWrites := txWrites_update i ns (nw_append (rw_key rw) (rw_value rw) (v + 1)) (txIDToNsNonBlindWrites p2)\<rparr>)"
    if "rw_version rw = Some v" for v
    using that by (simp add: addReadWrite_def noteRead_def cmp_def Let_def readers_recordRead(3))
  then show ?thesis
    by (cases "rw_version rw") (simp_all add: addReadWrite_def cmp_def Let_def r)
qed

lemma addReadWrite_records:
  "records (addReadWrite i ns rw) (rw_checked i ns rw) (rw_created i ns rw) (rw_update i ns rw) {#} (rw_insert i ns rw)"
proof (cases "rw_version rw")
  case None
  let ?e = "(ns, rw_key rw, None)"
  let ?tw = "\<lambda>p. txWrites_update i ns (nw_append (rw_key rw) (rw_value rw) 0) (txIDToNsNewWrites p)"
  have eq: "addReadWrite i ns rw p = (recordRead i (cmp ?e) p)\<lparr>txIDToNsNewWrites := ?tw p\<rparr>" for p
    by (simp add: addReadWrite_eq None)
  have "prep_reads (addReadWrite i ns rw p) RC (insert (i, ?e) RN)" if "prep_reads p RC RN" for p RC RN
    using created_read [OF that, of i ?e] unfolding eq by (subst prep_reads_cong) simp_all
  moreover have "prep_writes (addReadWrite i ns rw p) NB BL (add_mset (i, ns, rw_key rw, rw_value rw, 0) NW)"
    if "prep_writes p NB BL NW" for p NB BL NW
    using that txWrites_append_view [of "txIDToNsNewWrites p" i ns "rw_key rw" "rw_value rw" 0]
    by (simp add: eq prep_writes_def recordRead_def)
  ultimately show ?thesis
    by (simp add: records_def None rw_checked_def rw_created_def rw_update_def rw_insert_def eq recordRead_def)
next
  case (Some v)
  let ?e = "(ns, rw_key rw, Some v)"
  let ?tw = "\<lambda>p. txWrites_update i ns (nw_append (rw_key rw) (rw_value rw) (v + 1)) (txIDToNsNonBlindWrites p)"
  have eq: "addReadWrite i ns rw p = (noteRead i ?e p)\<lparr>txIDToNsNonBlindWrites := ?tw p\<rparr>" for p
    by (simp add: addReadWrite_eq Some)
  have "prep_reads (addReadWrite i ns rw p) (insert (i, ?e) RC) RN" if "prep_reads p RC RN" for p RC RN
    using noteRead_reads [OF that, of i ?e] unfolding eq by (subst prep_reads_cong) simp_all
  moreover have "prep_writes (addReadWrite i ns rw p) (add_mset (i, ns, rw_key rw, rw_value rw, v + 1) NB) BL NW"
    if "prep_writes p NB BL NW" for p NB BL NW
    using that txWrites_append_view [of "txIDToNsNonBlindWrites p" i ns "rw_key rw" "rw_value rw" "v + 1"]
    by (simp add: eq prep_writes_def)
  ultimately show ?thesis
    by (simp add: records_def Some rw_checked_def rw_created_def rw_update_def rw_insert_def eq)
qed

lemma getOrCreate_records: "records (\<lambda>p. p\<lparr>nsToReads := nsReads_getOrCreate ns (nsToReads p)\<rparr>) {} {} {#} {#} {#}"
proof -
  have g: "nr_wf (nsReads_getOrCreate ns nr) \<and> read_entries (nsReads_getOrCreate ns nr) = read_entries nr" if "nr_wf nr" for nr
  proof (cases "map_of nr ns")
    case None
    then have "go_get noReads nr ns = noReads" by (simp add: go_get_def)
    then have "nsReads_getOrCreate ns nr = nsReads_update ns (\<lambda>r. r) nr"
      using None by (simp add: nsReads_getOrCreate_def nsReads_update_def)
    with nsReads_update_view [OF that, of "\<lambda>r. r" "[]" ns] show ?thesis by simp
  qed (simp add: nsReads_getOrCreate_def that)
  have "prep_reads (p\<lparr>nsToReads := nsReads_getOrCreate ns (nsToReads p)\<rparr>) RC RN" if "prep_reads p RC RN" for p RC RN
    using that g [of "nsToReads p"] by (simp add: prep_reads_def)
  then show ?thesis by (simp add: records_def prep_writes_def)
qed

lemma addReadsOnly_records:
  "records (addReadsOnly i ns) (Pair i ` set (map (\<lambda>r. (ns_id ns, r_key r, r_version r)) (ns_reads_only ns))) {} {#} {#} {#}"
proof (cases "ns_reads_only ns = []")
  case True
  then have "addReadsOnly i ns = (\<lambda>p. p)" by (simp add: addReadsOnly_def fun_eq_iff)
  with records_id True show ?thesis by simp
next
  case False
  have "records (fold (addRead i (ns_id ns)) (ns_reads_only ns)) (\<Union>r \<in> set (ns_reads_only ns). {(i, ns_id ns, r_key r, r_version r)}) {} {#} {#} {#}"
    using records_fold [of "ns_reads_only ns" "addRead i (ns_id ns)", OF addRead_records] by simp
  from records_comp [OF getOrCreate_records this]
  have "records (addReadsOnly i ns) (\<Union>r \<in> set (ns_reads_only ns). {(i, ns_id ns, r_key r, r_version r)}) {} {#} {#} {#}"
    using False by (simp add: addReadsOnly_def [abs_def])
  then show ?thesis by (simp add: image_image UNION_singleton_eq_range)
qed

lemma createWrites_records:
  "records (\<lambda>p. p\<lparr>txIDToNsNonBlindWrites := txWrites_getOrCreate i ns (txIDToNsNonBlindWrites p),
                  txIDToNsNewWrites := txWrites_getOrCreate i ns (txIDToNsNewWrites p)\<rparr>) {} {} {#} {#} {#}"
  by (simp add: records_def prep_reads_def prep_writes_def txWrites_create_view)

lemma addReadWrites_records:
  "records (addReadWrites i ns)
    (Pair i ` set (map (\<lambda>rw. (ns_id ns, rw_key rw, rw_version rw)) (filter (\<lambda>rw. rw_version rw \<noteq> None) (ns_read_writes ns))))
    (Pair i ` set (ns_created ns)) (mset (ns_updates i ns)) {#} (mset (ns_inserts i ns))"
proof (cases "ns_read_writes ns = []")
  case True
  then have "addReadWrites i ns = (\<lambda>p. p)" by (simp add: addReadWrites_def fun_eq_iff)
  with records_id True show ?thesis by (simp add: ns_created_def ns_updates_def ns_inserts_def)
next
  case False
  let ?rws = "ns_read_writes ns" and ?ns = "ns_id ns"
  have "records (fold (addReadWrite i ?ns) ?rws) (\<Union>rw \<in> set ?rws. rw_checked i ?ns rw) (\<Union>rw \<in> set ?rws. rw_created i ?ns rw)
    (\<Sum>\<^sub># (mset (map (rw_update i ?ns) ?rws))) (\<Sum>\<^sub># (mset (map (\<lambda>_. {#}) ?rws))) (\<Sum>\<^sub># (mset (map (rw_insert i ?ns) ?rws)))"
    by (rule records_fold [OF addReadWrite_records])
  from records_comp [OF getOrCreate_records [of ?ns] records_comp [OF createWrites_records [of i ?ns] this]]
  have "records (addReadWrites i ns) (\<Union>rw \<in> set ?rws. rw_checked i ?ns rw) (\<Union>rw \<in> set ?rws. rw_created i ?ns rw)
    (\<Sum>\<^sub># (mset (map (rw_update i ?ns) ?rws))) {#} (\<Sum>\<^sub># (mset (map (rw_insert i ?ns) ?rws)))"
    using False by (simp add: addReadWrites_def [abs_def])
  moreover have "(\<Union>rw \<in> set ?rws. rw_checked i ?ns rw) =
    Pair i ` set (map (\<lambda>rw. (?ns, rw_key rw, rw_version rw)) (filter (\<lambda>rw. rw_version rw \<noteq> None) ?rws))"
    "(\<Union>rw \<in> set ?rws. rw_created i ?ns rw) = Pair i ` set (ns_created ns)"
    by (auto simp: rw_checked_def rw_created_def ns_created_def split: if_splits)
  moreover have "\<Sum>\<^sub># (mset (map (rw_update i ?ns) xs)) =
      mset (map (\<lambda>rw. (i, ?ns, rw_key rw, rw_value rw, the (rw_version rw) + 1)) (filter (\<lambda>rw. rw_version rw \<noteq> None) xs))" for xs
    by (induction xs) (auto simp: rw_update_def)
  moreover have "\<Sum>\<^sub># (mset (map (rw_insert i ?ns) xs)) =
      mset (map (\<lambda>rw. (i, ?ns, rw_key rw, rw_value rw, 0)) (filter (\<lambda>rw. rw_version rw = None) xs))" for xs
    by (induction xs) (auto simp: rw_insert_def)
  ultimately show ?thesis by (simp only: ns_updates_def ns_inserts_def)
qed

lemma addBlindWrites_records: "records (addBlindWrites i ns) {} {} {#} (mset (ns_blinds i ns)) {#}"
proof -
  let ?f = "\<lambda>w. txWrites_update i (ns_id ns) (nw_append (w_key w) (w_value w) 0)"
  have f: "tw_wf (fold ?f ws tw) \<and> mset (entries (fold ?f ws tw)) =
      mset (entries tw) + mset (map (\<lambda>w. (i, ns_id ns, w_key w, w_value w, 0)) ws)" if "tw_wf tw" for ws tw
    using that
  proof (induction ws arbitrary: tw)
    case (Cons w ws)
    note a = txWrites_append_view [OF Cons.prems, of i "ns_id ns" "w_key w" "w_value w" 0]
    from Cons.IH [OF a(1)] a(2) show ?case by simp
  qed simp
  have "prep_writes (addBlindWrites i ns p) NB (BL + mset (ns_blinds i ns)) NW" if "prep_writes p NB BL NW" for p NB BL NW
  proof -
    have "tw_wf (txIDToNsBlindWrites p)" using that by (simp add: prep_writes_def)
    note c = txWrites_create_view [OF this, of i "ns_id ns"]
    from that f [OF c(1), of "ns_blind_writes ns"] c(2) show ?thesis
      by (simp add: prep_writes_def addBlindWrites_def ns_blinds_def)
  qed
  then show ?thesis by (simp add: records_def prep_reads_def addBlindWrites_def)
qed

lemma addNamespaceVersion_records:
  assumes "ns_id ns \<noteq> SnapshotNamespaceID"
  shows "records (addNamespaceVersion i ns) (Pair i ` set (version_read ns)) {} {#} {#} {#}"
proof -
  have r: "records (addReadsOnly i (readOnlyNamespace n k v)) {(i, n, k, Some v)} {} {#} {#} {#}" for n k v
    using addReadsOnly_records [of i "readOnlyNamespace n k v"] by (simp add: readOnlyNamespace_def)
  show ?thesis
  proof (cases "ns_id ns = MetaNamespaceID")
    case True
    then have "addNamespaceVersion i ns = addReadsOnly i (readOnlyNamespace ConfigNamespaceID ConfigKey (ns_version ns))"
      by (simp add: addNamespaceVersion_def fun_eq_iff)
    with r True show ?thesis by (simp add: version_read_def)
  next
    case False
    show ?thesis
    proof (cases "ns_id ns = ConfigNamespaceID \<or> ns_id ns = CheckpointNamespaceID")
      case True
      then have "addNamespaceVersion i ns = (\<lambda>p. p)" using False by (auto simp: addNamespaceVersion_def fun_eq_iff)
      with records_id True False show ?thesis by (auto simp: version_read_def)
    next
      case nocp: False
      then have "addNamespaceVersion i ns = addReadsOnly i (readOnlyNamespace MetaNamespaceID (ns_id ns) (ns_version ns))"
        using False by (auto simp: addNamespaceVersion_def fun_eq_iff)
      with r nocp False assms show ?thesis by (simp add: version_read_def)
    qed
  qed
qed

text \<open>A snapshot transaction writes its own record, whatever its namespace says.\<close>

definition effective :: "wire \<Rightarrow> TxRef \<Rightarrow> TxNamespace \<Rightarrow> TxNamespace" where
  "effective w ref ns =
     (if ns_id ns = SnapshotNamespaceID
      then snapshotNamespace ref (case MarshalSnapshotState w (newSnapshotState ref) of None \<Rightarrow> [] | Some s \<Rightarrow> s) else ns)"

lemma prepareNamespace_records:
  assumes "snapshot_codec_law w"
  shows "\<exists>f. (\<forall>p. prepareNamespace w ref ns p = Inr (f p)) \<and>
    (let i = ref_tx_id ref; n = effective w ref ns
     in records f (Pair i ` set (ns_checked n)) (Pair i ` set (ns_created n)) (mset (ns_updates i n)) (mset (ns_blinds i n)) (mset (ns_inserts i n)))"
proof (cases "ns_id ns = SnapshotNamespaceID")
  case True
  let ?i = "ref_tx_id ref"
  obtain st where st: "MarshalSnapshotState w (newSnapshotState ref) = Some st"
    using assms by (auto simp: snapshot_codec_law_def)
  let ?n = "snapshotNamespace ref st"
  have n: "effective w ref ns = ?n" using True st by (simp add: effective_def)
  have c: "ns_checked ?n = []" "ns_blinds ?i ?n = []"
    by (simp_all add: ns_checked_def ns_blinds_def snapshotNamespace_def version_read_def)
  have "records (addReadWrites ?i ?n) {} (Pair ?i ` set (ns_created ?n)) (mset (ns_updates ?i ?n)) {#} (mset (ns_inserts ?i ?n))"
    using addReadWrites_records [of ?i ?n] by (simp add: snapshotNamespace_def)
  moreover have "\<forall>p. prepareNamespace w ref ns p = Inr (addReadWrites ?i ?n p)"
    using True st by (simp add: prepareNamespace_def)
  ultimately show ?thesis using n c by (intro exI [of _ "addReadWrites ?i ?n"]) (simp add: Let_def)
next
  case False
  let ?i = "ref_tx_id ref"
  let ?f = "\<lambda>p. addNamespaceVersion ?i ns (addBlindWrites ?i ns (addReadWrites ?i ns (addReadsOnly ?i ns p)))"
  note r = records_comp [OF records_comp [OF records_comp [OF addReadsOnly_records [of ?i ns] addReadWrites_records [of ?i ns]]
      addBlindWrites_records [of ?i ns]] addNamespaceVersion_records [OF False, of ?i]]
  have "records ?f (Pair ?i ` set (ns_checked ns)) (Pair ?i ` set (ns_created ns)) (mset (ns_updates ?i ns)) (mset (ns_blinds ?i ns)) (mset (ns_inserts ?i ns))"
    using r unfolding ns_checked_def set_append image_Un by (simp add: Un_assoc)
  moreover have "effective w ref ns = ns" "\<forall>p. prepareNamespace w ref ns p = Inr (?f p)"
    using False by (simp_all add: effective_def prepareNamespace_def Let_def)
  ultimately show ?thesis by (intro exI [of _ ?f]) (simp add: Let_def)
qed

section \<open>One transaction\<close>

definition tx_id :: "VcTx \<Rightarrow> TxID" where
  "tx_id tx = ref_tx_id (vc_ref tx)"

definition tx_ns :: "wire \<Rightarrow> VcTx \<Rightarrow> TxNamespace list" where
  "tx_ns w tx = map (effective w (vc_ref tx)) (vc_namespaces tx)"

definition tx_checked :: "wire \<Rightarrow> VcTx \<Rightarrow> read list" where
  "tx_checked w tx = concat (map ns_checked (tx_ns w tx))"

definition tx_created :: "wire \<Rightarrow> VcTx \<Rightarrow> read list" where
  "tx_created w tx = concat (map ns_created (tx_ns w tx))"

definition tx_updates :: "wire \<Rightarrow> VcTx \<Rightarrow> entry list" where
  "tx_updates w tx = concat (map (ns_updates (tx_id tx)) (tx_ns w tx))"

definition tx_blinds :: "wire \<Rightarrow> VcTx \<Rightarrow> entry list" where
  "tx_blinds w tx = concat (map (ns_blinds (tx_id tx)) (tx_ns w tx))"

definition tx_inserts :: "wire \<Rightarrow> VcTx \<Rightarrow> entry list" where
  "tx_inserts w tx = concat (map (ns_inserts (tx_id tx)) (tx_ns w tx))"

lemma prepareNamespaces_records:
  assumes "snapshot_codec_law w"
  shows "\<exists>f. (\<forall>p. loop_err (prepareNamespace w (vc_ref tx)) (vc_namespaces tx) p = Inr (f p)) \<and>
    records f (Pair (tx_id tx) ` set (tx_checked w tx)) (Pair (tx_id tx) ` set (tx_created w tx))
      (mset (tx_updates w tx)) (mset (tx_blinds w tx)) (mset (tx_inserts w tx))"
proof -
  let ?i = "tx_id tx" and ?e = "effective w (vc_ref tx)"
  have "\<exists>f. (\<forall>p. loop_err (prepareNamespace w (vc_ref tx)) nss p = Inr (f p)) \<and>
    records f (Pair ?i ` set (concat (map ns_checked (map ?e nss)))) (Pair ?i ` set (concat (map ns_created (map ?e nss))))
      (mset (concat (map (ns_updates ?i) (map ?e nss)))) (mset (concat (map (ns_blinds ?i) (map ?e nss))))
      (mset (concat (map (ns_inserts ?i) (map ?e nss))))" for nss
  proof (induction nss)
    case Nil
    then show ?case using records_id by (intro exI [of _ "\<lambda>p. p"]) simp
  next
    case (Cons ns nss)
    obtain f where f: "\<forall>p. prepareNamespace w (vc_ref tx) ns p = Inr (f p)"
      "records f (Pair ?i ` set (ns_checked (?e ns))) (Pair ?i ` set (ns_created (?e ns))) (mset (ns_updates ?i (?e ns)))
        (mset (ns_blinds ?i (?e ns))) (mset (ns_inserts ?i (?e ns)))"
      using prepareNamespace_records [OF assms, of "vc_ref tx" ns] unfolding Let_def tx_id_def by blast
    from Cons.IH obtain g where g: "\<forall>p. loop_err (prepareNamespace w (vc_ref tx)) nss p = Inr (g p)"
      "records g (Pair ?i ` set (concat (map ns_checked (map ?e nss)))) (Pair ?i ` set (concat (map ns_created (map ?e nss))))
      (mset (concat (map (ns_updates ?i) (map ?e nss)))) (mset (concat (map (ns_blinds ?i) (map ?e nss))))
      (mset (concat (map (ns_inserts ?i) (map ?e nss))))" by blast
    from f(1) g(1) have "\<forall>p. loop_err (prepareNamespace w (vc_ref tx)) (ns # nss) p = Inr (g (f p))" by simp
    with records_comp [OF f(2) g(2)] show ?case
      by (intro exI [of _ "\<lambda>p. g (f p)"]) (simp only: list.map concat.simps set_append image_Un mset_append simp_thms)
  qed
  then show ?thesis
    unfolding tx_checked_def tx_created_def tx_updates_def tx_blinds_def tx_inserts_def tx_ns_def by blast
qed

section \<open>A batch\<close>

text \<open>A transaction that is in the batch again, because it was sent again, is ignored.\<close>

definition add_tx :: "VcTx \<Rightarrow> VcTx list \<Rightarrow> VcTx list" where
  "add_tx tx txs = (if tx_id tx \<in> tx_id ` set txs then txs else txs @ [tx])"

definition unique_txs :: "VcTx list \<Rightarrow> VcTx list" where
  "unique_txs txs = fold add_tx txs []"

definition active :: "VcTx list \<Rightarrow> VcTx list" where
  "active txs = filter (\<lambda>tx. vc_prelim_invalid tx = None) txs"

definition batch_checked :: "wire \<Rightarrow> VcTx list \<Rightarrow> (TxID \<times> read) set" where
  "batch_checked w txs = (\<Union>tx \<in> set (active txs). Pair (tx_id tx) ` set (tx_checked w tx))"

definition batch_created :: "wire \<Rightarrow> VcTx list \<Rightarrow> (TxID \<times> read) set" where
  "batch_created w txs = (\<Union>tx \<in> set (active txs). Pair (tx_id tx) ` set (tx_created w tx))"

definition heights_of :: "VcTx list \<Rightarrow> TxID \<rightharpoonup> Height" where
  "heights_of txs = map_of (map (\<lambda>tx. (tx_id tx, NewHeightFromTxRef (vc_ref tx))) txs)"

definition prelims_of :: "VcTx list \<Rightarrow> TxID \<rightharpoonup> Status" where
  "prelims_of txs = map_of (map (\<lambda>tx. (tx_id tx, the (vc_prelim_invalid tx))) (filter (\<lambda>tx. vc_prelim_invalid tx \<noteq> None) txs))"

definition prepared_view :: "wire \<Rightarrow> preparedTransactions \<Rightarrow> VcTx list \<Rightarrow> bool" where
  "prepared_view w p txs \<longleftrightarrow>
     prep_reads p (batch_checked w txs) (batch_created w txs) \<and>
     prep_writes p (mset (concat (map (tx_updates w) (active txs)))) (mset (concat (map (tx_blinds w) (active txs))))
       (mset (concat (map (tx_inserts w) (active txs)))) \<and>
     txIDToHeight p = heights_of txs \<and> map_of (invalidTxIDStatus p) = prelims_of txs \<and>
     wf_gomap (invalidTxIDStatus p) \<and> prep_checkpoint p = None"

lemma map_of_snoc: "k \<notin> fst ` set xs \<Longrightarrow> map_of (xs @ [(k, v)]) = (map_of xs)(k \<mapsto> v)"
  by (induction xs) auto

lemma distinct_unique_txs: "distinct (map tx_id (unique_txs txs))"
  unfolding unique_txs_def by (rule fold_inv) (auto simp: add_tx_def)

lemma set_unique_txs: "tx_id ` set (unique_txs txs) = tx_id ` set txs" "set (unique_txs txs) \<subseteq> set txs"
proof -
  have "tx_id ` set (fold add_tx txs acc) = tx_id ` set acc \<union> tx_id ` set txs \<and> set (fold add_tx txs acc) \<subseteq> set acc \<union> set txs" for acc
  proof (induction txs arbitrary: acc)
    case (Cons tx txs)
    have "tx_id ` set (add_tx tx acc) = insert (tx_id tx) (tx_id ` set acc)" "set (add_tx tx acc) \<subseteq> insert tx (set acc)"
      by (auto simp: add_tx_def)
    with Cons [of "add_tx tx acc"] show ?case by auto
  qed simp
  from this [of "[]"] show "tx_id ` set (unique_txs txs) = tx_id ` set txs" "set (unique_txs txs) \<subseteq> set txs"
    by (simp_all add: unique_txs_def)
qed

lemma heights_snoc:
  "tx_id tx \<notin> tx_id ` set txs \<Longrightarrow> heights_of (txs @ [tx]) = (heights_of txs)(tx_id tx \<mapsto> NewHeightFromTxRef (vc_ref tx))"
  unfolding heights_of_def by (simp add: map_of_snoc image_image del: map_of_append)

lemma prelims_snoc:
  "tx_id tx \<notin> tx_id ` set txs \<Longrightarrow>
   prelims_of (txs @ [tx]) = (case vc_prelim_invalid tx of None \<Rightarrow> prelims_of txs | Some st \<Rightarrow> (prelims_of txs)(tx_id tx \<mapsto> st))"
  unfolding prelims_of_def by (auto simp: map_of_snoc image_iff simp del: map_of_append split: option.splits)

lemma heights_dom: "heights_of txs i \<noteq> None \<longleftrightarrow> i \<in> tx_id ` set txs"
  by (force simp: heights_of_def map_of_eq_None_iff)

lemma prepareTx_view:
  assumes "snapshot_codec_law w" "prepared_view w p txs"
  shows "\<exists>p'. prepareTx w tx p = Inr p' \<and> prepared_view w p' (add_tx tx txs)"
proof (cases "tx_id tx \<in> tx_id ` set txs")
  case True
  then have "txIDToHeight p (tx_id tx) \<noteq> None"
    using assms(2) heights_dom by (simp add: prepared_view_def)
  then show ?thesis using assms(2) True by (simp add: prepareTx_def add_tx_def tx_id_def)
next
  case False
  let ?p1 = "p\<lparr>txIDToHeight := (txIDToHeight p)(tx_id tx \<mapsto> NewHeightFromTxRef (vc_ref tx))\<rparr>"
  have h: "txIDToHeight p (tx_id tx) = None"
    using assms(2) False heights_dom [of txs "tx_id tx"] unfolding prepared_view_def by metis
  note v = assms(2) [unfolded prepared_view_def]
  show ?thesis
  proof (cases "vc_prelim_invalid tx")
    case (Some st)
    have "prepareTx w tx p = Inr (?p1\<lparr>invalidTxIDStatus := go_put (tx_id tx) st (invalidTxIDStatus p)\<rparr>)"
      using h Some by (simp add: prepareTx_def tx_id_def Let_def)
    moreover have "active (txs @ [tx]) = active txs" using Some by (simp add: active_def)
    ultimately show ?thesis
      using v False Some
      by (simp add: prepared_view_def add_tx_def batch_checked_def batch_created_def heights_snoc prelims_snoc prep_reads_def prep_writes_def)
  next
    case None
    obtain f where f: "\<forall>p. loop_err (prepareNamespace w (vc_ref tx)) (vc_namespaces tx) p = Inr (f p)"
      "records f (Pair (tx_id tx) ` set (tx_checked w tx)) (Pair (tx_id tx) ` set (tx_created w tx))
        (mset (tx_updates w tx)) (mset (tx_blinds w tx)) (mset (tx_inserts w tx))"
      using prepareNamespaces_records [OF assms(1)] by blast
    have p: "prepareTx w tx p = Inr (f ?p1)"
      using h None f(1) by (simp add: prepareTx_def tx_id_def Let_def)
    have a: "active (txs @ [tx]) = active txs @ [tx]" using None by (simp add: active_def)
    have "prep_reads ?p1 (batch_checked w txs) (batch_created w txs)"
      using v by (simp add: prep_reads_def)
    from records_readsD [OF f(2) this]
    have "prep_reads (f ?p1) (batch_checked w (txs @ [tx])) (batch_created w (txs @ [tx]))"
      by (simp add: batch_checked_def batch_created_def a Un_commute)
    moreover have "prep_writes ?p1 (mset (concat (map (tx_updates w) (active txs))))
        (mset (concat (map (tx_blinds w) (active txs)))) (mset (concat (map (tx_inserts w) (active txs))))"
      using v by (simp add: prep_writes_def)
    note records_writesD [OF f(2) this]
    moreover have "txIDToHeight (f ?p1) = txIDToHeight ?p1" "invalidTxIDStatus (f ?p1) = invalidTxIDStatus p"
      "prep_checkpoint (f ?p1) = prep_checkpoint p"
      using f(2) by (simp_all add: records_def)
    ultimately show ?thesis
      using v False None p by (simp add: prepared_view_def add_tx_def a heights_snoc prelims_snoc)
  qed
qed

lemma prepareTxs_view:
  assumes "snapshot_codec_law w"
  shows "\<exists>p. loop_err (prepareTx w) txs newPreparedTransactions = Inr p \<and> prepared_view w p (unique_txs txs)"
proof -
  have "\<exists>p'. loop_err (prepareTx w) txs p = Inr p' \<and> prepared_view w p' (fold add_tx txs acc)" if "prepared_view w p acc" for p acc
    using that
  proof (induction txs arbitrary: p acc)
    case (Cons tx txs)
    obtain p1 where "prepareTx w tx p = Inr p1" "prepared_view w p1 (add_tx tx acc)"
      using prepareTx_view [OF assms Cons.prems] by blast
    with Cons.IH show ?case by simp
  qed simp
  moreover have "prepared_view w newPreparedTransactions []"
    by (simp add: prepared_view_def newPreparedTransactions_def prep_reads_def prep_writes_def batch_checked_def
        batch_created_def active_def heights_of_def prelims_of_def readers_def readers_of_def)
  ultimately show ?thesis by (simp add: unique_txs_def)
qed

text \<open>The prepared batch, without the empty entries.\<close>

definition prepared_batch :: "wire \<Rightarrow> preparedTransactions \<Rightarrow> VcTx list \<Rightarrow> bool" where
  "prepared_batch w p txs \<longleftrightarrow>
     prep_reads p (batch_checked w txs) (batch_created w txs) \<and>
     prep_writes p (mset (concat (map (tx_updates w) (active txs)))) (mset (concat (map (tx_blinds w) (active txs))))
       (mset (concat (map (tx_inserts w) (active txs)))) \<and>
     txIDToHeight p = heights_of txs \<and> map_of (invalidTxIDStatus p) = prelims_of txs \<and>
     wf_gomap (invalidTxIDStatus p) \<and>
     (\<forall>(ns, r) \<in> set (nsToReads p). rd_keys r \<noteq> []) \<and>
     tw_tight (txIDToNsNonBlindWrites p) \<and> tw_tight (txIDToNsBlindWrites p) \<and> tw_tight (txIDToNsNewWrites p)"

lemma filter_reads_view:
  assumes "nr_wf nr"
  shows "nr_wf (filter (\<lambda>(ns, r). length (rd_keys r) \<noteq> 0) nr)"
    "read_entries (filter (\<lambda>(ns, r). length (rd_keys r) \<noteq> 0) nr) = read_entries nr"
  using assms by (auto simp: nr_wf_def wf_gomap_def distinct_map_filter read_entries_def set_flat)

definition drop_empty :: "preparedTransactions \<Rightarrow> preparedTransactions" where
  "drop_empty p = p\<lparr>nsToReads := filter (\<lambda>(ns, r). length (rd_keys r) \<noteq> 0) (nsToReads p),
     txIDToNsNonBlindWrites := clearEmpty (txIDToNsNonBlindWrites p),
     txIDToNsBlindWrites := clearEmpty (txIDToNsBlindWrites p),
     txIDToNsNewWrites := clearEmpty (txIDToNsNewWrites p)\<rparr>"

lemma drop_empty_batch:
  assumes "prepared_view w p txs"
  shows "prepared_batch w (drop_empty p\<lparr>prep_checkpoint := cp\<rparr>) txs"
proof -
  note v = assms [unfolded prepared_view_def]
  then have n: "nr_wf (nsToReads p)" by (simp add: prep_reads_def)
  have "prep_reads (drop_empty p\<lparr>prep_checkpoint := cp\<rparr>) (batch_checked w txs) (batch_created w txs)"
    using v filter_reads_view [OF n] by (simp add: prep_reads_def drop_empty_def)
  moreover have "prep_writes (drop_empty p\<lparr>prep_checkpoint := cp\<rparr>) (mset (concat (map (tx_updates w) (active txs))))
      (mset (concat (map (tx_blinds w) (active txs)))) (mset (concat (map (tx_inserts w) (active txs))))"
    using v by (simp add: prep_writes_def drop_empty_def clearEmpty_view)
  moreover have "tw_tight (clearEmpty (txIDToNsNonBlindWrites p))" "tw_tight (clearEmpty (txIDToNsBlindWrites p))"
    "tw_tight (clearEmpty (txIDToNsNewWrites p))"
    using v by (simp_all add: prep_writes_def clearEmpty_view)
  ultimately show ?thesis
    using v unfolding prepared_batch_def by (auto simp: drop_empty_def)
qed

lemma prepare_eq:
  "prepare w txs =
     (case loop_err (prepareTx w) txs newPreparedTransactions of
        Inl e \<Rightarrow> Inl e
      | Inr p \<Rightarrow> (case checkpointWriteInBatch w (drop_empty p) of
                   Inl e \<Rightarrow> Inl e | Inr cp \<Rightarrow> Inr (drop_empty p\<lparr>prep_checkpoint := cp\<rparr>)))"
  by (simp add: prepare_def drop_empty_def Let_def split: sum.splits)

lemma prepare_batch:
  assumes "snapshot_codec_law w" "prepare w txs = Inr p"
  shows "prepared_batch w p (unique_txs txs)"
proof -
  obtain p0 where p0: "loop_err (prepareTx w) txs newPreparedTransactions = Inr p0" "prepared_view w p0 (unique_txs txs)"
    using prepareTxs_view [OF assms(1)] by blast
  with assms(2) obtain cp where "p = drop_empty p0\<lparr>prep_checkpoint := cp\<rparr>"
    by (auto simp: prepare_eq split: sum.splits)
  with drop_empty_batch [OF p0(2)] show ?thesis by simp
qed

text \<open>A batch without checkpoint transactions is prepared without an error.\<close>

lemma no_entry_empty:
  assumes "ntw_wf m" "ns \<notin> fst ` set (ntw_entries m)"
  shows "nw_empty (go_get noWrites m ns)"
proof (cases "map_of m ns")
  case (Some nw)
  then have "(ns, nw) \<in> set m" "nw_wf nw" "go_get noWrites m ns = nw"
    using assms(1) go_get_in [OF Some, of noWrites] by (auto simp: ntw_wf_def)
  moreover have "nw_entries nw = []"
  proof (rule ccontr)
    assume "nw_entries nw \<noteq> []"
    then obtain e where "e \<in> set (nw_entries nw)" by (meson list.set_sel(1))
    then have "(ns, e) \<in> set (ntw_entries m)" using \<open>(ns, nw) \<in> set m\<close> by (force simp: ntw_entries_def set_flat)
    with assms(2) show False by force
  qed
  ultimately show ?thesis by (simp add: nw_empty_entries)
qed (simp add: go_get_def nw_empty_def noWrites_def)

lemma checkpointWriteInBatch_none:
  assumes "tw_wf (txIDToNsNewWrites p)" "\<forall>(i, ns, e) \<in> set (entries (txIDToNsNewWrites p)). ns \<noteq> CheckpointNamespaceID"
  shows "checkpointWriteInBatch w p = Inr None"
proof -
  have "nw_empty (go_get noWrites m CheckpointNamespaceID)" if "(i, m) \<in> set (txIDToNsNewWrites p)" for i m
  proof (rule no_entry_empty)
    show "ntw_wf m" using assms(1) that by (auto simp: tw_wf_def)
    show "CheckpointNamespaceID \<notin> fst ` set (ntw_entries m)"
      using assms(2) that by (force simp: entries_def set_flat)
  qed
  then have "loop_err (checkpointOfTx w h) xs None = Inr None" if "set xs \<subseteq> set (txIDToNsNewWrites p)" for xs h
    using that by (induction xs) (auto simp: checkpointOfTx_def Let_def)
  then show ?thesis by (simp add: checkpointWriteInBatch_def)
qed

lemma prepare_ordinary:
  assumes "snapshot_codec_law w" "\<forall>tx \<in> set (active (unique_txs txs)). \<forall>e \<in> set (tx_inserts w tx). fst (snd e) \<noteq> CheckpointNamespaceID"
  shows "\<exists>p. prepare w txs = Inr p \<and> prepared_batch w p (unique_txs txs) \<and> prep_checkpoint p = None"
proof -
  obtain p0 where p0: "loop_err (prepareTx w) txs newPreparedTransactions = Inr p0" "prepared_view w p0 (unique_txs txs)"
    using prepareTxs_view [OF assms(1)] by blast
  then have wf: "tw_wf (txIDToNsNewWrites p0)"
    "mset (entries (txIDToNsNewWrites p0)) = mset (concat (map (tx_inserts w) (active (unique_txs txs))))"
    by (simp_all add: prepared_view_def prep_writes_def)
  have "checkpointWriteInBatch w (drop_empty p0) = Inr None"
  proof (rule checkpointWriteInBatch_none)
    show "tw_wf (txIDToNsNewWrites (drop_empty p0))" using wf(1) by (simp add: drop_empty_def clearEmpty_view)
    have "entries (txIDToNsNewWrites (drop_empty p0)) = entries (txIDToNsNewWrites p0)"
      using wf(1) by (simp add: drop_empty_def clearEmpty_view)
    with mset_eq_setD [OF wf(2)] assms(2)
    show "\<forall>(i, ns, e) \<in> set (entries (txIDToNsNewWrites (drop_empty p0))). ns \<noteq> CheckpointNamespaceID" by fastforce
  qed
  then have "prepare w txs = Inr (drop_empty p0\<lparr>prep_checkpoint := None\<rparr>)" by (simp add: prepare_eq p0(1))
  with drop_empty_batch [OF p0(2), of None] show ?thesis by simp
qed

end
