(* ===== verification/VC_Commit_Loop.thy ===== *)
theory VC_Commit_Loop
  imports VC_Prepared
begin

text \<open>
  One attempt of the commit loop and the loop itself: an attempt is refused for the transactions that
  have a status already, or else for the new keys that exist already; what is refused once is not
  refused for the same reason again, so a few attempts are enough.
\<close>

section \<open>Statuses\<close>

definition validated_ok :: "validatedTransactions \<Rightarrow> bool" where
  "validated_ok v \<longleftrightarrow>
     tw_wf (validTxNonBlindWrites v) \<and> tw_tight (validTxNonBlindWrites v) \<and>
     tw_wf (validTxBlindWrites v) \<and> tw_tight (validTxBlindWrites v) \<and>
     tw_wf (newWrites v) \<and> tw_tight (newWrites v) \<and> wf_gomap (invalidTxStatus v)"

definition writers :: "validatedTransactions \<Rightarrow> TxID set" where
  "writers v = fst ` (set (entries (validTxNonBlindWrites v)) \<union> set (entries (validTxBlindWrites v)) \<union> set (entries (newWrites v)))"

definition status_map :: "validatedTransactions \<Rightarrow> TxID \<rightharpoonup> Status" where
  "status_map v i =
     (case map_of (invalidTxStatus v) i of
        Some st \<Rightarrow> Some st
      | None \<Rightarrow> if i \<in> writers v then Some COMMITTED else None)"

definition height_at :: "validatedTransactions \<Rightarrow> TxID \<Rightarrow> Height" where
  "height_at v i = (case v_txIDToHeight v i of None \<Rightarrow> NewHeight 0 0 | Some h \<Rightarrow> h)"

definition status_list :: "validatedTransactions \<Rightarrow> (TxID \<times> Status) list" where
  "status_list v =
     fold (\<lambda>(i, st). go_put i st) (invalidTxStatus v)
       (fold (addStatus COMMITTED) (go_keys (validTxNonBlindWrites v) @ go_keys (validTxBlindWrites v) @ go_keys (newWrites v)) [])"

lemma prepareStatusForCommit_eq:
  "prepareStatusForCommit v = map (\<lambda>(i, st). WithStatus (height_at v i) i st) (status_list v)"
  by (simp add: prepareStatusForCommit_def status_list_def height_at_def Let_def)

lemma fold_go_put:
  assumes "wf_gomap m"
  shows "wf_gomap (fold (\<lambda>(i, st). go_put i st) xs m)"
    "distinct (map fst xs) \<Longrightarrow> map_of (fold (\<lambda>(i, st). go_put i st) xs m) = map_of m ++ map_of xs"
  using assms
proof (induction xs arbitrary: m)
  case (Cons x xs)
  obtain i st where x: "x = (i, st)" by (cases x)
  {
    case 1
    show ?case using Cons.IH(1) [of "go_put i st m"] 1 by (simp add: x)
  next
    case 2
    have "map_of xs i = None" using 2 by (simp add: x map_of_eq_None_iff)
    then have "(map_of m)(i \<mapsto> st) ++ map_of xs = map_of m ++ map_of (x # xs)"
      by (auto simp: x map_add_def fun_eq_iff split: option.splits)
    with Cons.IH(2) [of "go_put i st m"] 2 show ?case by (simp add: x del: fun_upd_apply)
  }
qed simp_all

lemma fold_addStatus:
  assumes "wf_gomap m"
  shows "wf_gomap (fold (addStatus st) is m) \<and>
    map_of (fold (addStatus st) is m) = (\<lambda>i. if i \<in> set is then Some st else map_of m i)"
  using assms by (induction "is" arbitrary: m) (auto simp: addStatus_def fun_eq_iff)

lemma status_list_view:
  assumes "validated_ok v"
  shows "wf_gomap (status_list v)" "map_of (status_list v) = status_map v"
proof -
  let ?is = "go_keys (validTxNonBlindWrites v) @ go_keys (validTxBlindWrites v) @ go_keys (newWrites v)"
  note f = fold_addStatus [OF wf_gomap_Nil, of COMMITTED ?is]
  have w: "set ?is = writers v"
    using assms by (auto simp: validated_ok_def writers_def tw_tight_keys)
  show "wf_gomap (status_list v)" unfolding status_list_def by (rule fold_go_put) (use f in blast)
  have "map_of (status_list v) = map_of (fold (addStatus COMMITTED) ?is []) ++ map_of (invalidTxStatus v)"
    unfolding status_list_def
    by (rule fold_go_put(2)) (use f assms in \<open>auto simp: validated_ok_def wf_gomap_def\<close>)
  also have "\<dots> = status_map v"
    using f w by (auto simp: status_map_def map_add_def fun_eq_iff split: option.splits)
  finally show "map_of (status_list v) = status_map v" .
qed

lemma zip_three: "zip (map fst r) (zip (map snd r) (map f r)) = map (\<lambda>x. (fst x, snd x, f x)) r"
  by (induction r) auto

text \<open>The rows of an attempt: the statuses other than those of duplicates.\<close>

definition fresh_rows :: "validatedTransactions \<Rightarrow> (TxID \<times> Status) list" where
  "fresh_rows v = filter (\<lambda>(i, st). st \<noteq> REJECTED_DUPLICATE_TX_ID) (status_list v)"

lemma statusRow_WithStatus:
  "statusRow w hs (WithStatus h i st) (a, b, c) =
     (if st = REJECTED_DUPLICATE_TX_ID then Inr (a, b, c)
      else case hs i of None \<Rightarrow> Inl (HeightNotPassed i)
           | Some ht \<Rightarrow> (case ToBytes w ht of None \<Rightarrow> Inl EncodingPanic | Some bs \<Rightarrow> Inr (a @ [i], b @ [st], c @ [bs])))"
  by (simp add: statusRow_def split: option.splits)

lemma loop_statusRow:
  assumes "loop_err (statusRow w hs) (map (\<lambda>(i, st). WithStatus (h i) i st) l) (a, b, c) = Inr r"
  shows "r = (a @ map fst (filter (\<lambda>(i, st). st \<noteq> REJECTED_DUPLICATE_TX_ID) l),
              b @ map snd (filter (\<lambda>(i, st). st \<noteq> REJECTED_DUPLICATE_TX_ID) l),
              c @ map (\<lambda>(i, st). the (ToBytes w (the (hs i)))) (filter (\<lambda>(i, st). st \<noteq> REJECTED_DUPLICATE_TX_ID) l))"
  using assms
proof (induction l arbitrary: a b c)
  case (Cons x l)
  obtain i st where x: "x = (i, st)" by (cases x)
  show ?case
  proof (cases "st = REJECTED_DUPLICATE_TX_ID")
    case True
    with Cons show ?thesis by (simp add: x statusRow_WithStatus)
  next
    case False
    with Cons.prems obtain ht bs where hb: "hs i = Some ht" "ToBytes w ht = Some bs"
      "loop_err (statusRow w hs) (map (\<lambda>(i, st). WithStatus (h i) i st) l) (a @ [i], b @ [st], c @ [bs]) = Inr r"
      by (auto simp: x statusRow_WithStatus split: option.splits)
    from Cons.IH [OF hb(3)] hb(1,2) False show ?thesis by (simp add: x)
  qed
qed simp

lemma loop_statusRow_total:
  assumes "varint_law w" "\<forall>(i, st) \<in> set l. hs i \<noteq> None"
  shows "\<exists>r. loop_err (statusRow w hs) (map (\<lambda>(i, st). WithStatus (h i) i st) l) (a, b, c) = Inr r"
  using assms(2)
proof (induction l arbitrary: a b c)
  case (Cons x l)
  obtain i st where x: "x = (i, st)" by (cases x)
  obtain ht bs where "hs i = Some ht" "ToBytes w ht = Some bs"
    using Cons.prems ToBytes_total [OF assms(1)] by (force simp: x)
  with Cons show ?case by (auto simp: x statusRow_WithStatus)
qed simp

definition row_bytes :: "wire \<Rightarrow> validatedTransactions \<Rightarrow> TxID \<Rightarrow> bytes" where
  "row_bytes w v i = the (ToBytes w (the (v_txIDToHeight v i)))"

text \<open>The transactions of the attempt that have a status in the database.\<close>

definition stored :: "validatedTransactions \<Rightarrow> database \<Rightarrow> TxID set" where
  "stored v db = {i. tx_status db i \<noteq> None \<and> status_map v i \<noteq> None \<and> status_map v i \<noteq> Some REJECTED_DUPLICATE_TX_ID}"

lemma fresh_rows_view:
  assumes "validated_ok v"
  shows "distinct (map fst (fresh_rows v))"
    "set (fresh_rows v) = {(i, st). status_map v i = Some st \<and> st \<noteq> REJECTED_DUPLICATE_TX_ID}"
proof -
  note s = status_list_view [OF assms]
  show "distinct (map fst (fresh_rows v))"
    using s(1) by (simp add: fresh_rows_def wf_gomap_def distinct_map_filter)
  show "set (fresh_rows v) = {(i, st). status_map v i = Some st \<and> st \<noteq> REJECTED_DUPLICATE_TX_ID}"
    using wf_gomap_in [OF s(1)] s(2) by (auto simp: fresh_rows_def)
qed

lemma insertTxStatus_view:
  assumes "validated_ok v" "insertTxStatus w (statesOf v) db = Inr (dups, db')"
  shows "set dups = stored v db"
    and "dups = [] \<Longrightarrow> db' = db\<lparr>tx_status := tx_status db ++ map_of (map (\<lambda>(i, st). (i, st, row_bytes w v i)) (fresh_rows v))\<rparr>"
proof -
  let ?rows = "fresh_rows v"
  let ?ids = "map fst ?rows" and ?sts = "map snd ?rows" and ?hs = "map (\<lambda>(i, st). row_bytes w v i) ?rows"
  note f = fresh_rows_view [OF assms(1)]
  have db: "dups = fst (insert_tx_status ?ids ?sts ?hs (tx_status db)) \<and>
    db' = db\<lparr>tx_status := snd (insert_tx_status ?ids ?sts ?hs (tx_status db))\<rparr>"
  proof (cases "status_list v = []")
    case True
    then show ?thesis
      using assms(2) by (simp add: insertTxStatus_def statesOf_def prepareStatusForCommit_eq fresh_rows_def insert_tx_status_def)
  next
    case False
    then obtain ids sts hs where l: "loop_err (statusRow w (v_txIDToHeight v)) (map (\<lambda>(i, st). WithStatus (height_at v i) i st) (status_list v))
        ([], [], []) = Inr (ids, sts, hs)"
      and i: "(dups, db') = (fst (insert_tx_status ids sts hs (tx_status db)), db\<lparr>tx_status := snd (insert_tx_status ids sts hs (tx_status db))\<rparr>)"
      using assms(2) by (auto simp: insertTxStatus_def statesOf_def prepareStatusForCommit_eq split: sum.splits prod.splits)
    from loop_statusRow [OF l] have "ids = ?ids" "sts = ?sts" "hs = ?hs"
      by (simp_all add: fresh_rows_def row_bytes_def split_def)
    with i show ?thesis by simp
  qed
  have ids: "set ?ids = {i. status_map v i \<noteq> None \<and> status_map v i \<noteq> Some REJECTED_DUPLICATE_TX_ID}"
    using f(2) by force
  then show "set dups = stored v db"
    using db insert_tx_status_duplicates [OF f(1)] by (auto simp: stored_def)
  assume "dups = []"
  then have "\<forall>i \<in> set ?ids. tx_status db i = None"
    using insert_tx_status_duplicates [OF f(1), of ?sts ?hs "tx_status db"] db by auto
  then have "insert_tx_status ?ids ?sts ?hs (tx_status db) = ([], tx_status db ++ map_of (zip ?ids (zip ?sts ?hs)))"
    by (intro insert_tx_status_ok [OF f(1)]) simp_all
  moreover have "zip ?ids (zip ?sts ?hs) = map (\<lambda>(i, st). (i, st, row_bytes w v i)) ?rows"
    by (simp add: zip_three split_def)
  ultimately show "db' = db\<lparr>tx_status := tx_status db ++ map_of (map (\<lambda>(i, st). (i, st, row_bytes w v i)) ?rows)\<rparr>"
    using db by simp
qed

section \<open>Writes\<close>

definition same_rest :: "database \<Rightarrow> database \<Rightarrow> bool" where
  "same_rest db db' \<longleftrightarrow> tx_status db' = tx_status db \<and> metadata db' = metadata db \<and> clones db' = clones db"

text \<open>The value and version to be written for a key.\<close>

definition write_map :: "namespaceToWrites \<Rightarrow> string \<times> bytes \<rightharpoonup> bytes \<times> u64" where
  "write_map m = map_of (map (\<lambda>(ns, k, v, ver). ((ns, k), (v, ver))) (ntw_entries m))"

definition write_keys :: "namespaceToWrites \<Rightarrow> (string \<times> bytes) list" where
  "write_keys m = map (\<lambda>(ns, k, v, ver). (ns, k)) (ntw_entries m)"

lemma write_keys_Cons: "write_keys ((ns, nw) # m) = map (\<lambda>e. (ns, fst e)) (nw_entries nw) @ write_keys m"
  by (simp add: write_keys_def ntw_entries_def split_def)

lemma nw_keys_write_keys: "ntw_wf ((ns, nw) # m) \<Longrightarrow> write_keys ((ns, nw) # m) = map (Pair ns) (nw_keys nw) @ write_keys m"
  using nw_entries_maps(1) [of nw, symmetric] by (simp add: write_keys_Cons ntw_wf_def)

lemma ntw_wf_ConsD: "ntw_wf ((ns, nw) # m) \<Longrightarrow> ntw_wf m \<and> nw_wf nw \<and> ns \<notin> fst ` set m"
  by (auto simp: ntw_wf_def wf_gomap_def)

lemma write_keys_ns: "(ns, k) \<in> set (write_keys m) \<Longrightarrow> ns \<in> fst ` set m"
  by (force simp: write_keys_def ntw_entries_def set_flat)

lemma write_map_dom: "write_map m x \<noteq> None \<longleftrightarrow> x \<in> set (write_keys m)"
  by (force simp: write_map_def write_keys_def map_of_eq_None_iff)

lemma write_map_None: "ns \<notin> fst ` set m \<Longrightarrow> write_map m (ns, k) = None"
  using write_map_dom [of m "(ns, k)"] write_keys_ns [of ns k m] by blast

lemma write_map_Cons:
  assumes "ntw_wf ((ns, nw) # m)"
  shows "write_map ((ns, nw) # m) (ns', k) =
    (if ns' = ns then map_of (zip (nw_keys nw) (zip (nw_values nw) (nw_versions nw))) k else write_map m (ns', k))"
proof -
  have e: "map_of (map (\<lambda>(k, v, ver). ((ns, k), (v, ver))) xs) (ns', k) = (if ns' = ns then map_of xs k else None)"
    for xs :: "(bytes \<times> bytes \<times> u64) list"
    by (induction xs) auto
  have "write_map m (ns, k) = None"
    by (rule write_map_None) (use assms ntw_wf_ConsD in blast)
  then show ?thesis
    using e [of "nw_entries nw"]
    by (auto simp: write_map_def ntw_entries_def nw_entries_def comp_def split_def map_add_def split: option.splits)
qed

lemma row_of_upd: "row_of (db\<lparr>db_ns := (db_ns db)(ns \<mapsto> t)\<rparr>) ns' k = (if ns' = ns then t k else row_of db ns' k)"
  by (simp add: row_of_def)

text \<open>The conflicts an attempt finds are the new keys that exist.\<close>

lemma insertStates_conflicts:
  assumes "ntw_wf m" "nr_wf acc" "loop_err insertNsStates m (acc, db) = Inr (conf, db')"
  shows "nr_wf conf \<and> read_entries conf = read_entries acc \<union> {(ns, k, None) |ns k. (ns, k) \<in> set (write_keys m) \<and> row_of db ns k \<noteq> None}"
  using assms
proof (induction m arbitrary: acc db)
  case (Cons x m)
  obtain ns nw where x: "x = (ns, nw)" by (cases x)
  have wf: "ntw_wf m" "nw_wf nw" "ns \<notin> fst ` set m" using Cons.prems(1) ntw_wf_ConsD by (auto simp: x)
  have wk: "write_keys (x # m) = map (Pair ns) (nw_keys nw) @ write_keys m"
    using Cons.prems(1) nw_keys_write_keys by (simp add: x)
  show ?case
  proof (cases "nw_empty nw")
    case True
    with Cons.prems(3) have "loop_err insertNsStates m (acc, db) = Inr (conf, db')" by (simp add: x insertNsStates_def)
    with Cons.IH [OF wf(1) Cons.prems(2)] True show ?thesis by (simp add: wk nw_empty_def)
  next
    case False
    with Cons.prems(3) obtain t viol t' where t: "db_ns db ns = Some t" "insert_ns (nw_keys nw) (nw_values nw) t = (viol, t')"
      "loop_err insertNsStates m
         (if length viol > 0 then nsReads_update ns (reads_appendMany viol (replicate (length viol) None)) acc else acc,
          db\<lparr>db_ns := (db_ns db)(ns \<mapsto> t')\<rparr>) = Inr (conf, db')"
      by (auto simp: x insertNsStates_def split: option.splits prod.splits)
    let ?acc = "if length viol > 0 then nsReads_update ns (reads_appendMany viol (replicate (length viol) None)) acc else acc"
    let ?db = "db\<lparr>db_ns := (db_ns db)(ns \<mapsto> t')\<rparr>"
    have v: "set viol = {k \<in> set (nw_keys nw). t k \<noteq> None}"
      using t(2) by (auto simp: insert_ns_def split: if_splits)
    have a: "nr_wf ?acc" "read_entries ?acc = read_entries acc \<union> (\<lambda>k. (ns, k, None)) ` set viol"
      using reads_appendMany_view [OF Cons.prems(2), of "replicate (length viol) None" viol ns] Cons.prems(2)
      by (auto simp: zip_replicate2)
    have r: "row_of ?db ns' k = row_of db ns' k" if "(ns', k) \<in> set (write_keys m)" for ns' k
      using write_keys_ns [OF that] wf(3) by (auto simp: row_of_upd)
    have e1: "{(ns', k, None) |ns' k. (ns', k) \<in> set (write_keys m) \<and> row_of ?db ns' k \<noteq> None} =
        {(ns', k, None) |ns' k. (ns', k) \<in> set (write_keys m) \<and> row_of db ns' k \<noteq> None}"
      by (intro Collect_cong iff_exI conj_cong refl) (simp only: r)
    have "row_of db ns k = t k" for k by (simp add: row_of_def t(1))
    then have e2: "{(ns', k, None) |ns' k. (ns', k) \<in> set (write_keys (x # m)) \<and> row_of db ns' k \<noteq> None} =
        (\<lambda>k. (ns, k, None)) ` set viol \<union> {(ns', k, None) |ns' k. (ns', k) \<in> set (write_keys m) \<and> row_of db ns' k \<noteq> None}"
      by (auto simp: wk v)
    from Cons.IH [OF wf(1) a(1) t(3)] a(2) show ?thesis unfolding e1 e2 by (simp add: Un_assoc)
  qed
qed (simp add: write_keys_def)

lemma map_of_new_rows:
  fixes ks :: "bytes list" and vs :: "bytes list" and vers :: "u64 list"
  assumes "length vs = length ks" "length vers = length ks"
  shows "map_of (map (\<lambda>(k, v). (k, \<lparr>row_value = v, row_version = 0\<rparr>)) (zip ks vs)) k =
    (case map_of (zip ks (zip vs vers)) k of Some (v, ver) \<Rightarrow> Some \<lparr>row_value = v, row_version = 0\<rparr> | None \<Rightarrow> None)"
  using assms
proof (induction ks arbitrary: vs vers)
  case (Cons k ks)
  then show ?case by (cases vs; cases vers) auto
qed simp

lemma insertStates_ok:
  assumes "ntw_wf m" "distinct (write_keys m)" "\<forall>(ns, k) \<in> set (write_keys m). db_ns db ns \<noteq> None \<and> row_of db ns k = None"
  shows "\<exists>db'. loop_err insertNsStates m (acc, db) = Inr (acc, db') \<and> same_rest db db' \<and> dom (db_ns db') = dom (db_ns db) \<and>
    (\<forall>ns k. row_of db' ns k =
       (case write_map m (ns, k) of Some (v, ver) \<Rightarrow> Some \<lparr>row_value = v, row_version = 0\<rparr> | None \<Rightarrow> row_of db ns k))"
  using assms
proof (induction m arbitrary: db)
  case (Cons x m)
  obtain ns nw where x: "x = (ns, nw)" by (cases x)
  have wf: "ntw_wf m" "nw_wf nw" "ns \<notin> fst ` set m" using Cons.prems(1) ntw_wf_ConsD by (auto simp: x)
  have wk: "write_keys (x # m) = map (Pair ns) (nw_keys nw) @ write_keys m"
    using Cons.prems(1) nw_keys_write_keys by (simp add: x)
  note wm = write_map_Cons [OF Cons.prems(1) [unfolded x]]
  show ?case
  proof (cases "nw_keys nw = []")
    case True
    then have "write_map (x # m) (ns', k) = write_map m (ns', k)" for ns' k
      using wm [of ns' k] write_map_None [OF wf(3)] True by (simp add: x)
    moreover have "insertNsStates x (acc, db) = Inr (acc, db)" using True by (simp add: x insertNsStates_def nw_empty_def)
    ultimately show ?thesis using Cons.IH [OF wf(1), of db] Cons.prems(2,3) by (simp add: wk)
  next
    case False
    then obtain k0 where "k0 \<in> set (nw_keys nw)" by (meson list.set_sel(1))
    have h: "db_ns db ns' \<noteq> None \<and> row_of db ns' k = None" if "(ns', k) \<in> set (write_keys (x # m))" for ns' k
      using Cons.prems(3) that by blast
    obtain t where t: "db_ns db ns = Some t" using h [of ns k0] \<open>k0 \<in> set (nw_keys nw)\<close> by (auto simp: wk)
    let ?t = "t ++ map_of (map (\<lambda>(k, v). (k, \<lparr>row_value = v, row_version = 0\<rparr>)) (zip (nw_keys nw) (nw_values nw)))"
    let ?db = "db\<lparr>db_ns := (db_ns db)(ns \<mapsto> ?t)\<rparr>"
    have "t k = None" if "k \<in> set (nw_keys nw)" for k
      using h [of ns k] that by (simp add: wk row_of_def t)
    then have "distinct (nw_keys nw)" "\<forall>k \<in> set (nw_keys nw). t k = None"
      using Cons.prems(2) by (simp_all add: wk distinct_map)
    then have "insert_ns (nw_keys nw) (nw_values nw) t = ([], ?t)"
      using wf(2) by (intro insert_ns_ok) (simp_all add: nw_wf_def)
    then have i: "insertNsStates x (acc, db) = Inr (acc, ?db)" using False t by (simp add: x insertNsStates_def nw_empty_def)
    have "db_ns ?db ns' \<noteq> None \<and> row_of ?db ns' k = None" if "(ns', k) \<in> set (write_keys m)" for ns' k
      using h [of ns' k] that write_keys_ns [OF that] wf(3) by (auto simp: wk row_of_upd)
    then have "\<forall>(ns', k) \<in> set (write_keys m). db_ns ?db ns' \<noteq> None \<and> row_of ?db ns' k = None" by blast
    moreover have d: "distinct (write_keys m)" using Cons.prems(2) by (simp add: wk)
    ultimately obtain db' where db': "loop_err insertNsStates m (acc, ?db) = Inr (acc, db')" "same_rest ?db db'" "dom (db_ns db') = dom (db_ns ?db)"
      "\<forall>ns k. row_of db' ns k = (case write_map m (ns, k) of Some (v, ver) \<Rightarrow> Some \<lparr>row_value = v, row_version = 0\<rparr> | None \<Rightarrow> row_of ?db ns k)"
      using Cons.IH [OF wf(1) d] by blast
    have "row_of db' ns' k = (case write_map (x # m) (ns', k) of Some (v, ver) \<Rightarrow> Some \<lparr>row_value = v, row_version = 0\<rparr> | None \<Rightarrow> row_of db ns' k)" for ns' k
    proof (cases "ns' = ns")
      case True
      have "write_map m (ns, k) = None" by (rule write_map_None [OF wf(3)])
      with db'(4) [rule_format, of ns k] have r: "row_of db' ns k = ?t k" by (simp add: row_of_upd)
      have l: "length (nw_values nw) = length (nw_keys nw)" "length (nw_versions nw) = length (nw_keys nw)"
        using wf(2) by (simp_all add: nw_wf_def)
      have "?t k = (case map_of (zip (nw_keys nw) (zip (nw_values nw) (nw_versions nw))) k of
          Some (v, ver) \<Rightarrow> Some \<lparr>row_value = v, row_version = 0\<rparr> | None \<Rightarrow> t k)"
        unfolding map_add_def map_of_new_rows [OF l] by (auto split: option.splits)
      note r [unfolded this]
      moreover have "row_of db ns k = t k" by (simp add: row_of_def t)
      ultimately show ?thesis unfolding True x wm by (simp only: if_True refl)
    next
      case False
      then have "row_of ?db ns' k = row_of db ns' k" by (simp add: row_of_upd)
      with db'(4) [rule_format, of ns' k] False show ?thesis unfolding x wm by (simp only: if_False)
    qed
    moreover have "dom (db_ns db') = dom (db_ns db)" using db'(3) t by auto
    ultimately show ?thesis using db'(1,2) i by (auto simp: same_rest_def)
  qed
qed (simp add: write_keys_def write_map_def same_rest_def)

lemma map_of_zip_unat:
  fixes ks :: "bytes list" and vs :: "bytes list" and vers :: "u64 list"
  assumes "length vs = length ks" "length vers = length ks"
  shows "map_of (zip ks (zip vs (map unat vers))) k = map_option (\<lambda>(v, ver). (v, unat ver)) (map_of (zip ks (zip vs vers)) k)"
  using assms
proof (induction ks arbitrary: vs vers)
  case (Cons k ks)
  then show ?case by (cases vs; cases vers) auto
qed simp

lemma encode_bigints: "bigint_law w \<Longrightarrow> \<forall>v \<in> set vs. unat v < 2 ^ 63 \<Longrightarrow> those (map (EncodeBigint w) vs) = Some (map unat vs)"
  by (induction vs) (simp_all add: bigint_law_def)

lemma loop_updateNsStates:
  assumes "bigint_law w" "ntw_wf m" "distinct (write_keys m)"
    "\<forall>(ns, k, v, ver) \<in> set (ntw_entries m). db_ns db ns \<noteq> None \<and> unat ver < 2 ^ 63"
  shows "\<exists>db'. loop_err (updateNsStates w) m db = Inr db' \<and> same_rest db db' \<and> dom (db_ns db') = dom (db_ns db) \<and>
    (\<forall>ns k. row_of db' ns k =
       (case write_map m (ns, k) of
          Some (v, ver) \<Rightarrow> map_option (\<lambda>_. \<lparr>row_value = v, row_version = unat ver\<rparr>) (row_of db ns k) | None \<Rightarrow> row_of db ns k))"
  using assms(2-4)
proof (induction m arbitrary: db)
  case (Cons x m)
  obtain ns nw where x: "x = (ns, nw)" by (cases x)
  have wf: "ntw_wf m" "nw_wf nw" "ns \<notin> fst ` set m" using Cons.prems(1) ntw_wf_ConsD by (auto simp: x)
  have wk: "write_keys (x # m) = map (Pair ns) (nw_keys nw) @ write_keys m"
    using Cons.prems(1) nw_keys_write_keys by (simp add: x)
  have d: "distinct (write_keys m)" "distinct (nw_keys nw)" using Cons.prems(2) by (simp_all add: wk distinct_map)
  have en: "ntw_entries (x # m) = map (Pair ns) (nw_entries nw) @ ntw_entries m" by (simp add: x ntw_entries_def)
  have h: "db_ns db ns' \<noteq> None \<and> unat ver < 2 ^ 63" if "(ns', k, v, ver) \<in> set (ntw_entries (x # m))" for ns' k v ver
    using Cons.prems(3) that by blast
  note wm = write_map_Cons [OF Cons.prems(1) [unfolded x]]
  show ?case
  proof (cases "nw_keys nw = []")
    case True
    then have "write_map (x # m) (ns', k) = write_map m (ns', k)" for ns' k
      using wm [of ns' k] write_map_None [OF wf(3)] True by (simp add: x)
    moreover have "updateNsStates w x db = Inr db" using True by (simp add: x updateNsStates_def nw_empty_def)
    ultimately show ?thesis using Cons.IH [OF wf(1) d(1), of db] Cons.prems(3) by (simp add: en)
  next
    case False
    then have "nw_entries nw \<noteq> []" using wf(2) nw_empty_entries by (simp add: nw_empty_def)
    then obtain e where "e \<in> set (nw_entries nw)" by (meson list.set_sel(1))
    then obtain k0 v0 ver0 where "(k0, v0, ver0) \<in> set (nw_entries nw)" by (metis prod_cases3)
    then obtain t where t: "db_ns db ns = Some t" using h [of ns k0 v0 ver0] by (auto simp: en)
    have "\<forall>v \<in> set (nw_versions nw). unat v < 2 ^ 63"
    proof
      fix v assume "v \<in> set (nw_versions nw)"
      then have "v \<in> set (map (snd \<circ> snd) (nw_entries nw))" by (simp only: nw_entries_maps(3) [OF wf(2)])
      then obtain k v' where "(k, v', v) \<in> set (nw_entries nw)" by auto
      then show "unat v < 2 ^ 63" using h [of ns k v' v] by (simp add: en)
    qed
    note vs = encode_bigints [OF assms(1) this]
    let ?t = "update_ns (nw_keys nw) (nw_values nw) (map unat (nw_versions nw)) t"
    let ?db = "db\<lparr>db_ns := (db_ns db)(ns \<mapsto> ?t)\<rparr>"
    have u: "updateNsStates w x db = Inr ?db" using False t vs by (simp add: x updateNsStates_def nw_empty_def)
    have "db_ns ?db ns' \<noteq> None \<and> unat ver < 2 ^ 63" if "(ns', k, v, ver) \<in> set (ntw_entries m)" for ns' k v ver
      using h [of ns' k v ver] that by (simp add: en)
    then have "\<forall>(ns', k, v, ver) \<in> set (ntw_entries m). db_ns ?db ns' \<noteq> None \<and> unat ver < 2 ^ 63" by blast
    then obtain db' where db': "loop_err (updateNsStates w) m ?db = Inr db'" "same_rest ?db db'" "dom (db_ns db') = dom (db_ns ?db)"
      "\<forall>ns k. row_of db' ns k = (case write_map m (ns, k) of
          Some (v, ver) \<Rightarrow> map_option (\<lambda>_. \<lparr>row_value = v, row_version = unat ver\<rparr>) (row_of ?db ns k) | None \<Rightarrow> row_of ?db ns k)"
      using Cons.IH [OF wf(1) d(1)] by blast
    have "row_of db' ns' k = (case write_map (x # m) (ns', k) of
        Some (v, ver) \<Rightarrow> map_option (\<lambda>_. \<lparr>row_value = v, row_version = unat ver\<rparr>) (row_of db ns' k) | None \<Rightarrow> row_of db ns' k)" for ns' k
    proof (cases "ns' = ns")
      case True
      have l: "length (nw_values nw) = length (nw_keys nw)" "length (nw_versions nw) = length (nw_keys nw)"
        using wf(2) by (simp_all add: nw_wf_def)
      have "write_map m (ns, k) = None" by (rule write_map_None [OF wf(3)])
      with db'(4) [rule_format, of ns k] have "row_of db' ns k = ?t k" by (simp add: row_of_upd)
      also have "\<dots> = (case map_of (zip (nw_keys nw) (zip (nw_values nw) (nw_versions nw))) k of
          Some (v, ver) \<Rightarrow> map_option (\<lambda>_. \<lparr>row_value = v, row_version = unat ver\<rparr>) (t k) | None \<Rightarrow> t k)"
        using update_ns_ok [OF d(2), of "nw_values nw" "map unat (nw_versions nw)" t k] l
        by (cases "t k"; cases "map_of (zip (nw_keys nw) (zip (nw_values nw) (nw_versions nw))) k")
           (auto simp: map_of_zip_unat [OF l] simp del: map_of_zip_is_None)
      finally have "row_of db' ns k = (case map_of (zip (nw_keys nw) (zip (nw_values nw) (nw_versions nw))) k of
          Some (v, ver) \<Rightarrow> map_option (\<lambda>_. \<lparr>row_value = v, row_version = unat ver\<rparr>) (t k) | None \<Rightarrow> t k)" .
      moreover have "row_of db ns k = t k" by (simp add: row_of_def t)
      ultimately show ?thesis unfolding True x wm by (simp only: if_True refl)
    next
      case False
      then have "row_of ?db ns' k = row_of db ns' k" by (simp add: row_of_upd)
      with db'(4) [rule_format, of ns' k] False show ?thesis unfolding x wm by (simp only: if_False)
    qed
    moreover have "dom (db_ns db') = dom (db_ns db)" using db'(3) t by auto
    ultimately show ?thesis using db'(1,2) u by (auto simp: same_rest_def)
  qed
qed (simp add: write_map_def same_rest_def)

lemma updateStates_ok:
  assumes "bigint_law w" "ntw_wf m" "distinct (write_keys m)"
    "\<forall>(ns, k, v, ver) \<in> set (ntw_entries m). db_ns db ns \<noteq> None \<and> unat ver < 2 ^ 63"
  shows "\<exists>db'. updateStates w m db = Inr db' \<and> same_rest db db' \<and> dom (db_ns db') = dom (db_ns db) \<and>
    (\<forall>ns k. row_of db' ns k =
       (case write_map m (ns, k) of
          Some (v, ver) \<Rightarrow> map_option (\<lambda>_. \<lparr>row_value = v, row_version = unat ver\<rparr>) (row_of db ns k) | None \<Rightarrow> row_of db ns k))"
proof (cases "namespaceToWrites_empty m")
  case True
  then have "write_map m = Map.empty" using ntw_empty_entries [OF assms(2)] by (simp add: write_map_def)
  with True show ?thesis by (intro exI [of _ db]) (simp add: updateStates_def same_rest_def)
next
  case False
  with loop_updateNsStates [OF assms] show ?thesis by (simp add: updateStates_def)
qed

section \<open>One attempt\<close>

definition key_of :: "entry \<Rightarrow> string \<times> bytes" where
  "key_of e = (fst (snd e), fst (snd (snd e)))"

lemma key_of_simp [simp]: "key_of (i, ns, k, x) = (ns, k)"
  by (simp add: key_of_def)

lemma write_keys_group:
  assumes "tw_wf tw"
  shows "mset (write_keys (groupWritesByNamespace tw)) = mset (map key_of (entries tw))"
proof -
  let ?f = "\<lambda>(ns, k, v :: bytes, ver :: u64). (ns :: string, k :: bytes)"
  have "mset (write_keys (groupWritesByNamespace tw)) = image_mset ?f (image_mset snd (mset (entries tw)))"
    using groupWritesByNamespace_view(2) [OF assms] by (simp add: write_keys_def)
  also have "\<dots> = mset (map key_of (entries tw))"
    by (simp add: image_mset.compositionality comp_def split_def key_of_def [abs_def])
  finally show ?thesis .
qed

text \<open>The new keys of the batch that exist in the database.\<close>

definition conflicting :: "validatedTransactions \<Rightarrow> database \<Rightarrow> (string \<times> bytes) set" where
  "conflicting v db = {x \<in> key_of ` set (entries (newWrites v)). row_of db (fst x) (snd x) \<noteq> None}"

lemma conflicting_iff:
  "(ns, k) \<in> conflicting v db \<longleftrightarrow> row_of db ns k \<noteq> None \<and> (\<exists>i x y. (i, ns, k, x, y) \<in> set (entries (newWrites v)))"
  by (force simp: conflicting_def)

lemma commit_refused:
  assumes "validated_ok v" "commit w (statesOf v) db = Inr (Some res, db')"
  shows "db' = db"
    and "(stored v db \<noteq> {} \<and> res_conflicts res = [] \<and> set (res_duplicates res) = stored v db) \<or>
         (stored v db = {} \<and> res_duplicates res = [] \<and> conflicting v db \<noteq> {} \<and>
          read_entries (res_conflicts res) = (\<lambda>(ns, k). (ns, k, None)) ` conflicting v db)"
proof -
  from assms(2) obtain db0 where w: "writeStatesByGroup w (statesOf v) db = Inr (Some res, db0)" and d: "db' = db"
    by (auto simp: commit_def Let_def split: if_splits sum.splits option.splits)
  show "db' = db" by (rule d)
  from w obtain dups db1 where i: "insertTxStatus w (statesOf v) db = Inr (dups, db1)"
    by (auto simp: writeStatesByGroup_def split: sum.splits)
  note t = insertTxStatus_view [OF assms(1) i]
  have wf: "tw_wf (newWrites v)" using assms(1) by (simp add: validated_ok_def)
  let ?m = "groupWritesByNamespace (newWrites v)"
  show "(stored v db \<noteq> {} \<and> res_conflicts res = [] \<and> set (res_duplicates res) = stored v db) \<or>
         (stored v db = {} \<and> res_duplicates res = [] \<and> conflicting v db \<noteq> {} \<and>
          read_entries (res_conflicts res) = (\<lambda>(ns, k). (ns, k, None)) ` conflicting v db)"
  proof (cases "dups = []")
    case False
    with w i have "res = \<lparr>res_conflicts = [], res_duplicates = dups\<rparr>" by (simp add: writeStatesByGroup_def)
    with t(1) False show ?thesis by auto
  next
    case True
    have r: "row_of db1 ns k = row_of db ns k" for ns k using t(2) [OF True] by (simp add: row_of_def)
    from w i True obtain conf db2 where c: "insertStates ?m db1 = Inr (conf, db2)" "\<not> namespaceToReads_empty conf"
      "res = \<lparr>res_conflicts = conf, res_duplicates = []\<rparr>"
      by (auto simp: writeStatesByGroup_def statesOf_def Let_def split: sum.splits prod.splits if_splits)
    have e: "nr_wf conf \<and> read_entries conf = {(ns, k, None) |ns k. (ns, k) \<in> set (write_keys ?m) \<and> row_of db1 ns k \<noteq> None}"
      using insertStates_conflicts [OF groupWritesByNamespace_view(1) [OF wf] _ c(1) [unfolded insertStates_def]] by simp
    have "conflicting v db = {x \<in> set (write_keys ?m). row_of db (fst x) (snd x) \<noteq> None}"
      unfolding conflicting_def mset_eq_setD [OF write_keys_group [OF wf]] set_map ..
    then have "{(ns, k, None) |ns k. (ns, k) \<in> set (write_keys ?m) \<and> row_of db1 ns k \<noteq> None} =
        (\<lambda>(ns, k). (ns, k, None)) ` conflicting v db"
      by (auto simp: r)
    with e have "read_entries conf = (\<lambda>(ns, k). (ns, k, None)) ` conflicting v db" by simp
    moreover have "conflicting v db \<noteq> {}" using e c(2) read_entries_empty [of conf] calculation by auto
    moreover have "stored v db = {}" using t(1) True by simp
    ultimately show ?thesis by (simp add: c(3))
  qed
qed

section \<open>The loop\<close>

text \<open>A new key that exists has been announced as a read of a key that does not exist.\<close>

definition loop_ok :: "validatedTransactions \<Rightarrow> database \<Rightarrow> bool" where
  "loop_ok v db \<longleftrightarrow> validated_ok v \<and>
     (\<forall>(i, ns, k, e) \<in> set (entries (newWrites v)). row_of db ns k \<noteq> None \<longrightarrow> i \<in> readers (v_readToTxIDs v) (cmp (ns, k, None)))"

lemma invalidated_ok: "invalidated_by v I st v' \<Longrightarrow> validated_ok v \<Longrightarrow> validated_ok v'"
  by (simp add: invalidated_by_def without_def validated_ok_def)

lemma invalidated_loop_ok: "invalidated_by v I st v' \<Longrightarrow> loop_ok v db \<Longrightarrow> loop_ok v' db"
  using invalidated_ok by (auto simp: loop_ok_def invalidated_by_def without_def)

lemma fst_filter: "fst ` set (filter (\<lambda>e. fst e \<notin> I) l) = fst ` set l - I"
  by force

lemma invalidated_writers: "invalidated_by v I st v' \<Longrightarrow> writers v' = writers v - I"
  by (simp add: invalidated_by_def without_def writers_def image_Un fst_filter del: set_filter) blast

lemma invalidated_status_map:
  "invalidated_by v I st v' \<Longrightarrow> status_map v' i = (if i \<in> I then Some st else status_map v i)"
  using invalidated_writers [of v I st v']
  by (auto simp: status_map_def invalidated_by_def split: option.splits)

lemma invalidated_conflicting:
  assumes "invalidated_by v I st v'"
  shows "conflicting v' db \<subseteq> conflicting v db"
proof -
  have "set (entries (newWrites v')) \<subseteq> set (entries (newWrites v))"
    using assms by (simp add: invalidated_by_def without_def)
  from image_mono [OF this, of key_of] show ?thesis unfolding conflicting_def by blast
qed

lemma duplicates_step:
  assumes "invalidated_by v (stored v db) REJECTED_DUPLICATE_TX_ID v'"
  shows "stored v' db = {}"
  using invalidated_status_map [OF assms] by (auto simp: stored_def split: if_splits)

lemma conflicts_step:
  assumes "loop_ok v db"
    "invalidated_by v (\<Union>x \<in> conflicting v db. readers (v_readToTxIDs v) (cmp (fst x, snd x, None))) ABORTED_MVCC_CONFLICT v'"
  shows "conflicting v' db = {}"
proof (rule ccontr)
  assume "conflicting v' db \<noteq> {}"
  then obtain ns k where "(ns, k) \<in> conflicting v' db" by (metis ex_in_conv surj_pair)
  then obtain i x y where e: "row_of db ns k \<noteq> None" "(i, ns, k, x, y) \<in> set (entries (newWrites v'))"
    unfolding conflicting_iff by blast
  then have n: "(i, ns, k, x, y) \<in> set (entries (newWrites v))"
    "i \<notin> (\<Union>x \<in> conflicting v db. readers (v_readToTxIDs v) (cmp (fst x, snd x, None)))"
    using assms(2) by (auto simp: invalidated_by_def without_def)
  have "i \<in> readers (v_readToTxIDs v) (cmp (ns, k, None))"
    using assms(1) e(1) n(1) by (auto simp: loop_ok_def)
  moreover have "(ns, k) \<in> conflicting v db" using e(1) n(1) unfolding conflicting_iff by blast
  ultimately show False using n(2) by force
qed

lemma conflicts_found:
  assumes "loop_ok v db" "read_entries rc = (\<lambda>(ns, k). (ns, k, None)) ` conflicting v db"
  shows "\<exists>v'. invalidateTxsOnReadConflicts rc v = Inr v' \<and>
    invalidated_by v (\<Union>x \<in> conflicting v db. readers (v_readToTxIDs v) (cmp (fst x, snd x, None))) ABORTED_MVCC_CONFLICT v'"
proof -
  have "v_readToTxIDs v (cmp e) \<noteq> None" if e: "e \<in> read_entries rc" for e
  proof -
    from e obtain ns k where k: "e = (ns, k, None)" "(ns, k) \<in> conflicting v db" using assms(2) by auto
    then obtain i x y where "(i, ns, k, x, y) \<in> set (entries (newWrites v))" "row_of db ns k \<noteq> None"
      unfolding conflicting_iff by blast
    then have "i \<in> readers (v_readToTxIDs v) (cmp e)" using assms(1) k(1) by (auto simp: loop_ok_def)
    then show ?thesis by (auto simp: readers_def split: option.splits)
  qed
  moreover have "(\<Union>e \<in> read_entries rc. readers (v_readToTxIDs v) (cmp e)) =
    (\<Union>x \<in> conflicting v db. readers (v_readToTxIDs v) (cmp (fst x, snd x, None)))"
    unfolding assms(2) by auto
  ultimately show ?thesis using invalidateTxsOnReadConflicts_ok [of rc v] by auto
qed

text \<open>The errors that would be a bug of the committer.\<close>

definition internal_error :: "db_error \<Rightarrow> bool" where
  "internal_error e \<longleftrightarrow> e = TooManyRetries \<or> (\<exists>r. e = ReadNotFound r)"

lemma loop_err_Inl: "loop_err f xs s = Inl e \<Longrightarrow> \<exists>x \<in> set xs. \<exists>s. f x s = Inl e"
  by (induction xs arbitrary: s) (auto split: sum.splits)

lemma readStatusWithHeight_error: "readStatusWithHeight w is db = Inl e \<Longrightarrow> \<not> internal_error e"
  by (auto simp: readStatusWithHeight_def readStatusRow_def internal_error_def dest!: loop_err_Inl split: option.splits sum.splits)

lemma writes_error:
  "insertTxStatus w s db = Inl e \<Longrightarrow> \<not> internal_error e"
  "insertStates m db = Inl e \<Longrightarrow> \<not> internal_error e"
  "updateStates w m db = Inl e \<Longrightarrow> \<not> internal_error e"
  by (auto simp: insertTxStatus_def statusRow_def insertStates_def insertNsStates_def updateStates_def updateNsStates_def internal_error_def
      dest!: loop_err_Inl split: option.splits sum.splits if_splits prod.splits)

lemma mark_error: "MarkSnapshotTerminalInTx w n st db = Inl e \<Longrightarrow> \<not> internal_error e"
  by (auto simp: MarkSnapshotTerminalInTx_def latestSnapshotKey_def selectSnapshotRecord_def DecodeSnapshotState_def
      EncodeSnapshotState_def updateSnapshotRecord_def internal_error_def split: option.splits if_splits)

lemma commit_error:
  assumes "commit w s db = Inl e"
  shows "\<not> internal_error e"
proof -
  have "\<not> internal_error e" if "writeStatesByGroup w s db = Inl e"
    using that writes_error by (auto simp: writeStatesByGroup_def Let_def split: sum.splits if_splits prod.splits)
  then show ?thesis
    using assms mark_error by (auto simp: commit_def Let_def split: sum.splits if_splits prod.splits option.splits)
qed

lemma setCorrectStatus_error: "setCorrectStatusForDuplicateTxID w db sts hs = Inl e \<Longrightarrow> \<not> internal_error e"
  using readStatusWithHeight_error by (auto simp: setCorrectStatusForDuplicateTxID_def Let_def split: sum.splits if_splits)

text \<open>One unfolding of the loop: it ends, or an attempt is refused.\<close>

lemma commitLoop_step:
  assumes "loop_ok v db" "commitLoop (Suc n) w v db = (Inl e, db')" "internal_error e"
  shows "\<exists>v'. commitLoop n w v' db = (Inl e, db') \<and> loop_ok v' db \<and>
    (if stored v db \<noteq> {} then stored v' db = {} \<and> conflicting v' db \<subseteq> conflicting v db
     else conflicting v db \<noteq> {} \<and> conflicting v' db = {})"
proof -
  have ok: "validated_ok v" using assms(1) by (simp add: loop_ok_def)
  from assms(2,3) obtain res db1 where r: "commit w (statesOf v) db = Inr (Some res, db1)"
    using commit_error setCorrectStatus_error
    by (cases "commit w (statesOf v) db") (auto split: option.splits sum.splits)
  note c = commit_refused [OF ok r]
  show ?thesis
  proof (cases "stored v db = {}")
    case False
    let ?v' = "updateInvalidTxs (res_duplicates res) REJECTED_DUPLICATE_TX_ID v"
    have d: "res_conflicts res = []" "set (res_duplicates res) = stored v db" using c(2) False by blast+
    have i: "invalidated_by v (stored v db) REJECTED_DUPLICATE_TX_ID ?v'"
      using invalidated_by_updateInvalidTxs [of v "res_duplicates res"] d(2) by simp
    have "commitLoop n w ?v' db = (Inl e, db')"
      using assms(2) r c(1) d(1) by (simp add: invalidateTxsOnReadConflicts_def)
    with duplicates_step [OF i] invalidated_conflicting [OF i, of db] invalidated_loop_ok [OF i assms(1)] False
    show ?thesis by (intro exI [of _ ?v']) simp
  next
    case True
    then have d: "res_duplicates res = []" "conflicting v db \<noteq> {}"
      "read_entries (res_conflicts res) = (\<lambda>(ns, k). (ns, k, None)) ` conflicting v db" using c(2) by blast+
    obtain v' where v': "invalidateTxsOnReadConflicts (res_conflicts res) v = Inr v'"
      "invalidated_by v (\<Union>x \<in> conflicting v db. readers (v_readToTxIDs v) (cmp (fst x, snd x, None))) ABORTED_MVCC_CONFLICT v'"
      using conflicts_found [OF assms(1) d(3)] by blast
    have "commitLoop n w v' db = (Inl e, db')"
      using assms(2) r c(1) d(1) v'(1) by (simp add: updateInvalidTxs_def)
    with conflicts_step [OF assms(1) v'(2)] invalidated_loop_ok [OF v'(2) assms(1)] True d(2) show ?thesis
      by (intro exI [of _ v']) simp
  qed
qed

text \<open>Four attempts are always enough: duplicates, conflicts, the duplicates among the conflicts, and the commit.\<close>

lemma commitLoop_no_internal_error:
  assumes "loop_ok v db" "commitLoop (Suc (Suc (Suc (Suc n)))) w v db = (Inl e, db')"
  shows "\<not> internal_error e"
proof
  assume e: "internal_error e"
  have stop: False if "loop_ok v db" "commitLoop (Suc m) w v db = (Inl e, db')" "stored v db = {}" "conflicting v db = {}" for v m
    using commitLoop_step [OF that(1,2) e] that(3,4) by auto
  have one: False if "loop_ok v db" "commitLoop (Suc (Suc m)) w v db = (Inl e, db')" "conflicting v db = {}" for v m
    using commitLoop_step [OF that(1,2) e] that(3) stop by (auto split: if_splits)
  have two: False if "loop_ok v db" "commitLoop (Suc (Suc (Suc m))) w v db = (Inl e, db')" "stored v db = {}" for v m
    using commitLoop_step [OF that(1,2) e] that(3) one by (auto split: if_splits)
  show False using commitLoop_step [OF assms e] one two by (cases "stored v db = {}") auto
qed

end
