(* ===== verification/VC_Batch.thy ===== *)
theory VC_Batch
  imports VC_Commit_Loop
begin

text \<open>
  A batch through the validator-committer: the placement of the blind writes, the creation of the
  snapshot database, and the composition of the three stages.
\<close>

section \<open>Blind writes\<close>

definition placeEntry :: "(string \<rightharpoonup> bytes \<rightharpoonup> u64) \<Rightarrow> entry \<Rightarrow> validatedTransactions \<Rightarrow> validatedTransactions" where
  "placeEntry state = (\<lambda>(i, ns, k, val, ver). placeBlindWrite state i ns (k, val))"

definition version_at :: "(string \<rightharpoonup> bytes \<rightharpoonup> u64) \<Rightarrow> string \<times> bytes \<Rightarrow> u64 option" where
  "version_at state x = (case state (fst x) of None \<Rightarrow> None | Some m \<Rightarrow> m (snd x))"

definition blind_updates :: "(string \<times> bytes \<Rightarrow> u64 option) \<Rightarrow> entry list \<Rightarrow> entry list" where
  "blind_updates vs es = map (\<lambda>(i, ns, k, val, ver). (i, ns, k, val, the (vs (ns, k)) + 1)) (filter (\<lambda>e. vs (key_of e) \<noteq> None) es)"

definition blind_inserts :: "(string \<times> bytes \<Rightarrow> u64 option) \<Rightarrow> entry list \<Rightarrow> entry list" where
  "blind_inserts vs es = map (\<lambda>(i, ns, k, val, ver). (i, ns, k, val, 0)) (filter (\<lambda>e. vs (key_of e) = None) es)"

lemma placeTxBlindWrites_entries:
  assumes "tw_wf tw"
  shows "fold (placeTxBlindWrites state) tw v = fold (placeEntry state) (entries tw) v"
proof -
  have z: "zip (nw_keys nw) (nw_values nw) = map (\<lambda>(k, val, ver). (k, val)) (nw_entries nw)" if "nw_wf nw" for nw
    using that unfolding nw_wf_def nw_entries_def by (intro nth_equalityI) auto
  have n: "fold (\<lambda>(ns, nw). fold (placeBlindWrite state i ns) (zip (nw_keys nw) (nw_values nw))) m v =
      fold (placeEntry state) (map (Pair i) (ntw_entries m)) v" if "\<forall>(ns, nw) \<in> set m. nw_wf nw" for i m v
    using that
  proof (induction m arbitrary: v)
    case (Cons x m)
    obtain ns nw where x: "x = (ns, nw)" by (cases x)
    have "fold (placeBlindWrite state i ns) (zip (nw_keys nw) (nw_values nw)) v =
      fold (placeEntry state) (map (Pair i) (map (Pair ns) (nw_entries nw))) v" for v
      using Cons.prems by (simp add: x z fold_map comp_def placeEntry_def split_def)
    with Cons show ?case by (simp add: x ntw_entries_def)
  qed simp
  show ?thesis
    using assms
  proof (induction tw arbitrary: v)
    case (Cons x tw)
    obtain i m where x: "x = (i, m)" by (cases x)
    have "placeTxBlindWrites state x v = fold (placeEntry state) (map (Pair i) (ntw_entries m)) v"
      using Cons.prems n [of m i v] by (auto simp: x placeTxBlindWrites_def tw_wf_def ntw_wf_def)
    moreover have "tw_wf tw" using Cons.prems by (auto simp: tw_wf_def wf_gomap_def x)
    ultimately show ?case using Cons.IH by (simp add: x entries_def)
  qed simp
qed

text \<open>The batch \<open>v'\<close> is \<open>v\<close> with the blind writes \<open>es\<close> placed among the updates and the new keys.\<close>

definition placed :: "(string \<times> bytes \<Rightarrow> u64 option) \<Rightarrow> entry list \<Rightarrow> validatedTransactions \<Rightarrow> validatedTransactions \<Rightarrow> bool" where
  "placed vs es v v' \<longleftrightarrow>
     validated_ok v' \<and>
     mset (entries (validTxNonBlindWrites v')) = mset (entries (validTxNonBlindWrites v)) + mset (blind_updates vs es) \<and>
     mset (entries (newWrites v')) = mset (entries (newWrites v)) + mset (blind_inserts vs es) \<and>
     invalidTxStatus v' = invalidTxStatus v \<and> v_readToTxIDs v' = v_readToTxIDs v \<and>
     v_txIDToHeight v' = v_txIDToHeight v \<and> v_checkpoint v' = v_checkpoint v \<and> checkpointFeedback v' = checkpointFeedback v"

lemma placeEntry_placed:
  fixes e :: entry
  assumes "validated_ok v"
  shows "placed (version_at state) [e] v (placeEntry state e v)"
proof -
  obtain i ns k val ver where e: "e = (i, ns, k, val, ver)" by (cases e)
  have w: "tw_wf (validTxNonBlindWrites v)" "tw_wf (newWrites v)" "tw_tight (validTxNonBlindWrites v)" "tw_tight (newWrites v)"
    using assms by (simp_all add: validated_ok_def)
  have p: "placeEntry state e v =
    (case version_at state (ns, k) of
       Some x \<Rightarrow> v\<lparr>validTxNonBlindWrites := txWrites_update i ns (nw_append k val (x + 1)) (validTxNonBlindWrites v)\<rparr>
     | None \<Rightarrow> v\<lparr>newWrites := txWrites_update i ns (nw_append k val 0) (newWrites v)\<rparr>)"
    unfolding placeEntry_def placeBlindWrite_def version_at_def e by (simp only: prod.case fst_conv snd_conv)
  show ?thesis
  proof (cases "version_at state (ns, k)")
    case None
    note a = txWrites_append_view [OF w(2), of i ns k val 0] tw_tight_append [OF w(2,4), of i ns k val 0]
    from None have "placeEntry state e v = v\<lparr>newWrites := txWrites_update i ns (nw_append k val 0) (newWrites v)\<rparr>" by (simp add: p)
    with None a assms show ?thesis by (simp add: placed_def e validated_ok_def blind_updates_def blind_inserts_def)
  next
    case (Some x)
    note a = txWrites_append_view [OF w(1), of i ns k val "x + 1"] tw_tight_append [OF w(1,3), of i ns k val "x + 1"]
    from Some have "placeEntry state e v =
      v\<lparr>validTxNonBlindWrites := txWrites_update i ns (nw_append k val (x + 1)) (validTxNonBlindWrites v)\<rparr>" by (simp add: p)
    with Some a assms show ?thesis by (simp add: placed_def e validated_ok_def blind_updates_def blind_inserts_def)
  qed
qed

lemma placed_trans:
  assumes "placed vs es v v1" "placed vs fs v1 v2"
  shows "placed vs (es @ fs) v v2"
  using assms by (simp add: placed_def blind_updates_def blind_inserts_def)

lemma fold_placeEntry_placed:
  assumes "validated_ok v"
  shows "placed (version_at state) es v (fold (placeEntry state) es v)"
  using assms
proof (induction es arbitrary: v)
  case Nil
  then show ?case by (simp add: placed_def blind_updates_def blind_inserts_def)
next
  case (Cons e es)
  note p = placeEntry_placed [OF Cons.prems, of state e]
  then have "validated_ok (placeEntry state e v)" by (simp add: placed_def)
  from placed_trans [OF p Cons.IH [OF this]] show ?case by simp
qed

definition db_version :: "database \<Rightarrow> string \<times> bytes \<Rightarrow> u64 option" where
  "db_version db x = map_option (\<lambda>r. of_nat (row_version r)) (row_of db (fst x) (snd x))"

lemma loop_queryNsVersions:
  assumes "ntw_wf m" "loop_err (queryNsVersions db) m s = Inr st"
  shows "(\<forall>x \<in> set (write_keys m). version_at st x = db_version db x) \<and> (\<forall>ns. ns \<notin> fst ` set m \<longrightarrow> st ns = s ns)"
  using assms
proof (induction m arbitrary: s)
  case (Cons y m)
  obtain ns nw where y: "y = (ns, nw)" by (cases y)
  have wf: "ntw_wf m" "ns \<notin> fst ` set m" using Cons.prems(1) ntw_wf_ConsD by (auto simp: y)
  have wk: "write_keys (y # m) = map (Pair ns) (nw_keys nw) @ write_keys m"
    using Cons.prems(1) nw_keys_write_keys by (simp add: y)
  from Cons.prems(2) obtain t where t: "db_ns db ns = Some t" and
    l: "loop_err (queryNsVersions db) m (s(ns \<mapsto> \<lambda>k. if k \<in> set (nw_keys nw) then map_option (\<lambda>r. of_nat (row_version r)) (t k) else None)) = Inr st"
    by (auto simp: y queryNsVersions_def queryVersionsIfPresent_def split: option.splits sum.splits)
  note IH = Cons.IH [OF wf(1) l]
  then have "st ns = Some (\<lambda>k. if k \<in> set (nw_keys nw) then map_option (\<lambda>r. of_nat (row_version r)) (t k) else None)"
    using wf(2) by simp
  then have "version_at st (ns, k) = db_version db (ns, k)" if "k \<in> set (nw_keys nw)" for k
    using that by (simp add: version_at_def db_version_def row_of_def t)
  with IH show ?case unfolding wk by (auto simp: y)
qed (simp add: write_keys_def)

lemma loop_queryNsVersions_total:
  assumes "\<forall>(ns, nw) \<in> set m. db_ns db ns \<noteq> None"
  shows "\<exists>st. loop_err (queryNsVersions db) m s = Inr st"
  using assms by (induction m arbitrary: s) (auto simp: queryNsVersions_def queryVersionsIfPresent_def)

lemma group_keys: "tw_wf tw \<Longrightarrow> set (write_keys (groupWritesByNamespace tw)) = key_of ` set (entries tw)"
  using mset_eq_setD [OF write_keys_group] by simp

lemma blind_cong:
  assumes "\<forall>x \<in> key_of ` set es. vs x = vs' x"
  shows "blind_updates vs es = blind_updates vs' es" "blind_inserts vs es = blind_inserts vs' es"
proof -
  have f: "filter (\<lambda>e. vs (key_of e) \<noteq> None) es = filter (\<lambda>e. vs' (key_of e) \<noteq> None) es"
    "filter (\<lambda>e. vs (key_of e) = None) es = filter (\<lambda>e. vs' (key_of e) = None) es"
    using assms by (simp_all cong: filter_cong)
  show "blind_updates vs es = blind_updates vs' es" "blind_inserts vs es = blind_inserts vs' es"
    using assms unfolding blind_updates_def blind_inserts_def f by (auto intro!: map_cong)
qed

lemma populate_placed:
  assumes "validated_ok v" "populateVersionsAndCategorizeBlindWrites db v = Inr v1"
  shows "placed (db_version db) (entries (validTxBlindWrites v)) v v1" "validTxBlindWrites v1 = []"
proof -
  let ?es = "entries (validTxBlindWrites v)"
  have wf: "tw_wf (validTxBlindWrites v)" using assms(1) by (simp add: validated_ok_def)
  from assms(2) obtain st where st: "loop_err (queryNsVersions db) (groupWritesByNamespace (validTxBlindWrites v)) Map.empty = Inr st"
    and v1: "v1 = (fold (placeEntry st) ?es v)\<lparr>validTxBlindWrites := []\<rparr>"
    by (auto simp: populateVersionsAndCategorizeBlindWrites_def placeTxBlindWrites_entries [OF wf] split: sum.splits)
  have "\<forall>x \<in> key_of ` set ?es. version_at st x = db_version db x"
    using loop_queryNsVersions [OF groupWritesByNamespace_view(1) [OF wf] st] by (simp add: group_keys [OF wf])
  note b = blind_cong [OF this]
  have "placed (version_at st) ?es v (fold (placeEntry st) ?es v)" by (rule fold_placeEntry_placed [OF assms(1)])
  then show "placed (db_version db) ?es v v1"
    using assms(1) unfolding placed_def b v1 validated_ok_def by (simp add: tw_wf_def tw_tight_def)
  show "validTxBlindWrites v1 = []" by (simp add: v1)
qed

section \<open>The snapshot record\<close>

lemma createSnapshot_clones:
  assumes "createSnapshotIfPresent w admin nw db = (r, db1)"
  shows "db_ns db1 = db_ns db \<and> tx_status db1 = tx_status db \<and> metadata db1 = metadata db"
  using assms
  by (auto simp: createSnapshotIfPresent_def createSnapshotDatabaseAndRewriteRecord_def createSnapshotDatabase_def
      split: if_splits option.splits sum.splits prod.splits)

definition slots_of :: "transactionToWrites \<Rightarrow> (TxID \<times> string \<times> bytes) list" where
  "slots_of = flat (\<lambda>i m. map (Pair i) (flat (\<lambda>ns nw. map (Pair ns) (nw_keys nw)) m))"

lemma ns_slots_entries:
  "ntw_wf m \<Longrightarrow> flat (\<lambda>ns nw. map (Pair ns) (nw_keys nw)) m = map (\<lambda>(ns, k, x). (ns, k)) (ntw_entries m)"
proof (induction m)
  case (Cons y m)
  obtain ns nw where y: "y = (ns, nw)" by (cases y)
  have "ntw_wf m" "nw_wf nw" using Cons.prems ntw_wf_ConsD by (auto simp: y)
  with Cons.IH nw_entries_maps(1) [of nw, symmetric] show ?case by (simp add: y ntw_entries_def split_def)
qed simp

lemma slots_of_entries: "tw_wf tw \<Longrightarrow> slots_of tw = map (\<lambda>(i, ns, k, x). (i, ns, k)) (entries tw)"
proof (induction tw)
  case (Cons y tw)
  obtain i m where y: "y = (i, m)" by (cases y)
  have "tw_wf tw" "ntw_wf m" using Cons.prems by (auto simp: y tw_wf_def wf_gomap_def)
  with Cons.IH ns_slots_entries show ?case by (simp add: y slots_of_def entries_def split_def)
qed (simp add: slots_of_def)

lemma mset_flat_replace:
  assumes "wf_gomap m" "map_of m k = Some v" "mset (g k v') = mset (g k v)"
  shows "mset (flat g (go_put k v' m)) = mset (flat g m)"
  using mset_flat_put [OF assms(1), of g k v'] assms(2,3) by simp

text \<open>Rewriting the value of a write leaves the keys of the batch as they are.\<close>

lemma txWrites_set_value:
  assumes wf: "tw_wf tw" and i: "map_of tw i = Some m" and ns: "map_of m ns = Some nw"
    and f: "\<And>x. nw_wf x \<Longrightarrow> nw_wf (f x) \<and> nw_keys (f x) = nw_keys x"
  shows "tw_wf (txWrites_update i ns f tw)" "mset (slots_of (txWrites_update i ns f tw)) = mset (slots_of tw)"
    "tw_tight tw \<Longrightarrow> tw_tight (txWrites_update i ns f tw)"
proof -
  have m: "ntw_wf m" using wf i by (auto simp: tw_wf_def dest: map_of_SomeD)
  have nw: "nw_wf nw" using m ns by (auto simp: ntw_wf_def dest: map_of_SomeD)
  let ?m = "go_put ns (f nw) m"
  have u: "txWrites_update i ns f tw = go_put i ?m tw"
    using i ns by (simp add: txWrites_update_def nsWrites_update_def go_get_def)
  have "nw_wf x" if "(k, x) \<in> set ?m" for k x
    using that m f [OF nw] by (rule_tac go_put_all) (auto simp: ntw_wf_def)
  then have m': "ntw_wf ?m" using m by (auto simp: ntw_wf_def)
  have "ntw_wf x" if "(k, x) \<in> set (go_put i ?m tw)" for k x
    using that wf m' by (rule_tac go_put_all) (auto simp: tw_wf_def)
  then show "tw_wf (txWrites_update i ns f tw)" using wf by (auto simp: tw_wf_def u)
  have "mset (flat (\<lambda>ns nw. map (Pair ns) (nw_keys nw)) ?m) = mset (flat (\<lambda>ns nw. map (Pair ns) (nw_keys nw)) m)"
    using m ns f [OF nw] by (intro mset_flat_replace) (simp_all add: ntw_wf_def)
  note k = this
  then show "mset (slots_of (txWrites_update i ns f tw)) = mset (slots_of tw)"
    unfolding u slots_of_def using wf i by (intro mset_flat_replace) (simp_all add: tw_wf_def)
  assume t: "tw_tight tw"
  then have "ntw_entries m \<noteq> []" using i by (auto simp: tw_tight_def dest: map_of_SomeD)
  then have "ntw_entries ?m \<noteq> []" using k ns_slots_entries [OF m] ns_slots_entries [OF m'] by auto
  then have "ntw_entries x \<noteq> []" if "(k, x) \<in> set (go_put i ?m tw)" for k x
    using that t by (rule_tac go_put_all) (auto simp: tw_tight_def)
  then show "tw_tight (txWrites_update i ns f tw)" by (auto simp: tw_tight_def u)
qed

lemma createSnapshot_newWrites:
  assumes "tw_wf nw" "createSnapshotIfPresent w admin nw db = (Inr nw', db1)"
  shows "tw_wf nw' \<and> mset (slots_of nw') = mset (slots_of nw) \<and> (tw_tight nw \<longrightarrow> tw_tight nw')"
proof (cases "nw' = nw")
  case False
  with assms(2) obtain i writes st where s: "snapshotWriteInBatch nw = Some (i, writes)"
    "nw' = txWrites_update i SnapshotNamespaceID (\<lambda>x. x\<lparr>nw_values := (nw_values x)[0 := st]\<rparr>) nw"
    by (auto simp: createSnapshotIfPresent_def split: if_splits option.splits sum.splits prod.splits)
  then obtain m where m: "(i, m) \<in> set nw" "\<not> nw_empty (go_get noWrites m SnapshotNamespaceID)"
    by (auto simp: snapshotWriteInBatch_def filter_eq_Cons_iff split: list.splits prod.splits)
  have mi: "map_of nw i = Some m" using assms(1) m(1) by (simp add: tw_wf_def wf_gomap_in)
  from m(2) obtain x where x: "map_of m SnapshotNamespaceID = Some x"
    by (cases "map_of m SnapshotNamespaceID") (auto simp: go_get_def nw_empty_def noWrites_def)
  show ?thesis
    using txWrites_set_value [OF assms(1) mi x, of "\<lambda>x. x\<lparr>nw_values := (nw_values x)[0 := st]\<rparr>"]
    by (simp add: s(2) nw_wf_def)
qed (simp add: assms(1))

section \<open>No internal error\<close>

text \<open>Every new key of the batch is recorded as a read of a key that does not exist.\<close>

definition announced :: "validatedTransactions \<Rightarrow> bool" where
  "announced v \<longleftrightarrow> validated_ok v \<and>
     (\<forall>e \<in> set (entries (newWrites v)). fst e \<in> readers (v_readToTxIDs v) (cmp (fst (key_of e), snd (key_of e), None)))"

lemma prepared_announced:
  assumes "prepared_batch w p txs"
  shows "announced (newValidated p)"
proof -
  note b = assms [unfolded prepared_batch_def prep_writes_def]
  have r: "prep_reads p (batch_checked w txs) (batch_created w txs)" using b by blast
  have "validated_ok (newValidated p)" using b by (simp add: validated_ok_def newValidated_def)
  moreover have "fst e \<in> readers (readToTxIDs p) (cmp (fst (key_of e), snd (key_of e), None))"
    if e: "e \<in> set (entries (txIDToNsNewWrites p))" for e
  proof -
    have "mset (entries (txIDToNsNewWrites p)) = mset (concat (map (tx_inserts w) (active txs)))" using b by blast
    from mset_eq_setD [OF this] e obtain tx where tx: "tx \<in> set (active txs)" "e \<in> set (tx_inserts w tx)" by auto
    then have "(fst e, fst (key_of e), snd (key_of e), None) \<in> Pair (tx_id tx) ` set (tx_created w tx)"
      by (force simp: tx_inserts_def tx_created_def ns_inserts_def ns_created_def)
    with tx(1) have "(fst e, fst (key_of e), snd (key_of e), None) \<in> batch_created w txs"
      unfolding batch_created_def by blast
    then show ?thesis unfolding prep_readsD(4) [OF r] readers_of_def by force
  qed
  ultimately show ?thesis by (simp add: announced_def newValidated_def)
qed

lemma invalidated_announced: "invalidated_by v I st v' \<Longrightarrow> announced v \<Longrightarrow> announced v'"
  using invalidated_ok by (auto simp: announced_def invalidated_by_def without_def)

lemma validateNamespaceReads_sub:
  assumes "validateNamespaceReads w db ns r = Inr c" "reads_wf r"
  shows "reads_wf c \<and> set (zip (rd_keys c) (rd_versions c)) \<subseteq> set (zip (rd_keys r) (rd_versions r))"
proof -
  obtain es t where "c = fold (\<lambda>i. reads_append (rd_keys r ! (i - 1)) (rd_versions r ! (i - 1)))
      (validate_reads_ns (rd_keys r) es t) noReads"
    using assms(1) by (auto simp: validateNamespaceReads_def split: option.splits)
  moreover have "reads_wf noReads" by (simp add: reads_wf_def noReads_def)
  note f = fold_reads_append [OF this, of "rd_keys r" "rd_versions r" "validate_reads_ns (rd_keys r) es t"]
  have "(rd_keys r ! (i - 1), rd_versions r ! (i - 1)) \<in> set (zip (rd_keys r) (rd_versions r))"
    if "i \<in> set (validate_reads_ns (rd_keys r) es t)" for i
    using validate_reads_ns_range [OF that] assms(2) by (auto simp: in_set_zip reads_wf_def intro!: exI [of _ "i - 1"])
  ultimately show ?thesis using f by (auto simp: Let_def noReads_def)
qed

lemma validateReads_sub:
  assumes "\<forall>(ns, r) \<in> set nr. reads_wf r" "nr_wf acc" "loop_err (validateReadsOfNs w db) nr acc = Inr rc"
  shows "read_entries rc \<subseteq> read_entries acc \<union> read_entries nr"
  using assms
proof (induction nr arbitrary: acc)
  case (Cons x nr)
  obtain ns r where x: "x = (ns, r)" by (cases x)
  from Cons.prems(3) obtain c where c: "validateNamespaceReads w db ns r = Inr c"
    "loop_err (validateReadsOfNs w db) nr (nsReads_update ns (reads_appendMany (rd_keys c) (rd_versions c)) acc) = Inr rc"
    by (auto simp: x validateReadsOfNs_def split: sum.splits)
  have s: "reads_wf c" "set (zip (rd_keys c) (rd_versions c)) \<subseteq> set (zip (rd_keys r) (rd_versions r))"
    using validateNamespaceReads_sub [OF c(1)] Cons.prems(1) by (simp_all add: x)
  note a = reads_appendMany_view [OF Cons.prems(2), of "rd_versions c" "rd_keys c" ns]
  have "read_entries rc \<subseteq> read_entries acc \<union> Pair ns ` set (zip (rd_keys c) (rd_versions c)) \<union> read_entries nr"
    using Cons.IH [OF _ _ c(2)] a s(1) Cons.prems(1) by (simp add: reads_wf_def)
  moreover have "read_entries (x # nr) = Pair ns ` set (zip (rd_keys r) (rd_versions r)) \<union> read_entries nr"
    by (simp add: read_entries_def x)
  ultimately show ?case using image_mono [OF s(2), of "Pair ns"] by blast
qed simp

lemma validateReads_error: "validateReads w db nr = Inl e \<Longrightarrow> \<not> internal_error e"
  by (auto simp: validateReads_def validateReadsOfNs_def validateNamespaceReads_def internal_error_def
      dest!: loop_err_Inl split: option.splits sum.splits)

lemma mvccValidate_cases:
  assumes "prepared_batch w p txs"
  shows "case mvccValidate w db p of
           Inl e \<Rightarrow> \<not> internal_error e
         | Inr v \<Rightarrow> \<exists>I. invalidated_by (newValidated p) I ABORTED_MVCC_CONFLICT v"
proof (cases "validateReads w db (nsToReads p)")
  case (Inl e)
  then show ?thesis using validateReads_error by (simp add: mvccValidate_def)
next
  case (Inr rc)
  have r: "prep_reads p (batch_checked w txs) (batch_created w txs)" using assms by (simp add: prepared_batch_def)
  have "read_entries rc \<subseteq> read_entries (nsToReads p)"
    using validateReads_sub [of "nsToReads p" "[]" w db rc] Inr prep_readsD(1) [OF r] by (simp add: nr_wf_def validateReads_def)
  then have sub: "read_entries rc \<subseteq> snd ` batch_checked w txs" using prep_readsD(2) [OF r] by (rule subset_trans)
  have "v_readToTxIDs (newValidated p) (cmp e) \<noteq> None" if "e \<in> read_entries rc" for e
  proof -
    have "cmp e \<in> cmp ` snd ` batch_checked w txs" using sub that by (intro imageI) (rule subsetD)
    then show ?thesis using present_iff [OF r, of "cmp e"] by (simp add: newValidated_def image_Un)
  qed
  then have "\<forall>e \<in> read_entries rc. v_readToTxIDs (newValidated p) (cmp e) \<noteq> None" by (rule ballI)
  from invalidateTxsOnReadConflicts_ok [OF this] show ?thesis using Inr by (auto simp: mvccValidate_def)
qed

lemma ReadLatest_error: "ReadLatest w db = Inl e \<Longrightarrow> \<not> internal_error e"
  by (auto simp: ReadLatest_def latestSnapshotKey_def readRecord_def selectSnapshotRecord_def DecodeSnapshotState_def internal_error_def
      split: option.splits if_splits sum.splits)

lemma rejectSnapshot_cases:
  "case rejectSnapshotIfPriorNotCheckpointed w db v of
     Inl e \<Rightarrow> \<not> internal_error e
   | Inr v' \<Rightarrow> \<exists>I st. invalidated_by v I st v'"
proof (cases "rejectSnapshotIfPriorNotCheckpointed w db v")
  case (Inl e)
  then show ?thesis
    using readStatusWithHeight_error ReadLatest_error
    by (auto simp: rejectSnapshotIfPriorNotCheckpointed_def determineSnapshotStatus_def Let_def split: if_splits sum.splits option.splits)
next
  case (Inr v')
  then have "v' = v \<or> (\<exists>ids st. v' = updateInvalidTxs ids st v)"
    by (auto simp: rejectSnapshotIfPriorNotCheckpointed_def Let_def split: if_splits sum.splits)
  then have "\<exists>I st. invalidated_by v I st v'"
    using invalidated_by_refl [of v] invalidated_by_updateInvalidTxs [of v] by blast
  then show ?thesis using Inr by simp
qed

text \<open>The record the pointer of the database names is the one of the transaction with that identifier.\<close>

definition snapshot_keyed :: "wire \<Rightarrow> database \<Rightarrow> bool" where
  "snapshot_keyed w db \<longleftrightarrow>
     (case latestSnapshotKey db of
        Inl e \<Rightarrow> True
      | Inr key \<Rightarrow>
          (case readRecord w key db of
             Inl e \<Rightarrow> True
           | Inr st \<Rightarrow> (case ss_tx_ref st of None \<Rightarrow> True | Some ref \<Rightarrow> ref_tx_id ref = key)))"

lemma Update_same_status:
  assumes "readRecord w key db = Inr st" "upd_expected u = [ss_status st]" "Update w key u db = Inl e"
  shows "e \<noteq> UnexpectedSnapshotStatus" "\<not> internal_error e"
  using assms
  by (auto simp: Update_def readRecord_def selectSnapshotRecord_def DecodeSnapshotState_def EncodeSnapshotState_def
      updateSnapshotRecord_def internal_error_def split: option.splits sum.splits if_splits)

lemma verifyCheckpoint_returns:
  assumes "snapshot_keyed w db"
  shows "\<exists>r db'. verifyCheckpoint w [] cp db = Some (r, db') \<and> (\<forall>e. r = Inl e \<longrightarrow> \<not> internal_error e)"
proof (cases "ReadLatest w db")
  case (Inl e)
  then show ?thesis using ReadLatest_error [OF Inl] by (simp add: verifyCheckpoint.simps)
next
  case (Inr o_st)
  show ?thesis
  proof (cases o_st)
    case None
    then show ?thesis using Inr by (simp add: verifyCheckpoint.simps)
  next
    case (Some st)
    with Inr obtain key where key: "latestSnapshotKey db = Inr key" "readRecord w key db = Inr st"
      by (auto simp: ReadLatest_def split: sum.splits if_splits)
    have ref: "ref_tx_id ref = key" if "ss_tx_ref st = Some ref" for ref
      using assms key that by (simp add: snapshot_keyed_def)
    let ?x = "\<lparr>upd_status = ss_status st, upd_digest = None, upd_err_msg = divergenceReason st cp,
                upd_expected = [ss_status st], upd_clear_clone = False\<rparr>"
    have "e \<noteq> UnexpectedSnapshotStatus \<and> \<not> internal_error e"
      if "ss_tx_ref st = Some ref" "Update w (ref_tx_id ref) ?x db = Inl e" for ref e
      using Update_same_status [OF key(2), of ?x e] ref [OF that(1)] that(2) by simp
    then show ?thesis
      using Inr Some by (cases "ss_tx_ref st") (auto simp: verifyCheckpoint.simps Let_def split: sum.split)
  qed
qed

lemma rejectCheckpoint_returns:
  assumes "snapshot_keyed w db" "announced v"
  shows "\<exists>r db'. rejectCheckpointIfNotVerified w [] db v = Some (r, db') \<and>
    (case r of Inl e \<Rightarrow> \<not> internal_error e | Inr v' \<Rightarrow> announced v')"
proof (cases "v_checkpoint v")
  case None
  then show ?thesis using assms(2) by (simp add: rejectCheckpointIfNotVerified_def)
next
  case (Some cp)
  obtain r db' where r: "verifyCheckpoint w [] cp db = Some (r, db')" "\<forall>e. r = Inl e \<longrightarrow> \<not> internal_error e"
    using verifyCheckpoint_returns [OF assms(1)] by blast
  have a: "announced (updateInvalidTxs ids st v)" for ids st
    by (rule invalidated_announced [OF invalidated_by_updateInvalidTxs assms(2)])
  have d: "announced (v\<lparr>newWrites := go_del i (newWrites v), v_checkpoint := None, checkpointFeedback := fb\<rparr>)" for i fb
    using assms(2) by (auto simp: announced_def validated_ok_def tw_wf_del tw_tight_del entries_del)
  show ?thesis
    using r a d assms(2) readStatusWithHeight_error [of w "[cp_txID cp]" db]
    by (auto simp: rejectCheckpointIfNotVerified_def Some split: sum.splits option.splits)
qed

lemma row_of_cong: "db_ns db' = db_ns db \<Longrightarrow> row_of db' ns k = row_of db ns k"
  by (simp add: row_of_def)

lemma blind_inserts_new:
  assumes "e \<in> set (blind_inserts (db_version db) es)"
  shows "row_of db (fst (key_of e)) (snd (key_of e)) = None"
  using assms by (auto simp: blind_inserts_def db_version_def)

text \<open>A write without its value.\<close>

definition slot :: "entry \<Rightarrow> TxID \<times> string \<times> bytes" where
  "slot = (\<lambda>(i, ns, k, x). (i, ns, k))"

lemma commit_starts_ok:
  assumes "announced v" "populateVersionsAndCategorizeBlindWrites db v = Inr v1"
    "createSnapshotIfPresent w admin (newWrites v1) db = (Inr nw, db1)"
  shows "loop_ok (v1\<lparr>newWrites := nw\<rparr>) db1"
proof -
  have ok: "validated_ok v" using assms(1) by (simp add: announced_def)
  have p: "validated_ok v1" "v_readToTxIDs v1 = v_readToTxIDs v"
    and nw1: "mset (entries (newWrites v1)) = mset (entries (newWrites v) @ blind_inserts (db_version db) (entries (validTxBlindWrites v)))"
    using populate_placed(1) [OF ok assms(2)] by (simp_all add: placed_def)
  have wf: "tw_wf (newWrites v1)" "tw_tight (newWrites v1)" using p(1) by (simp_all add: validated_ok_def)
  note c = createSnapshot_newWrites [OF wf(1) assms(3)]
  have ok': "validated_ok (v1\<lparr>newWrites := nw\<rparr>)" using p(1) c wf(2) by (simp add: validated_ok_def)
  have sl: "set (map slot (entries nw)) = set (map slot (entries (newWrites v1)))"
  proof -
    have "set (slots_of nw) = set (slots_of (newWrites v1))" "tw_wf nw" using c by (auto dest: mset_eq_setD)
    with wf(1) show ?thesis by (simp add: slots_of_entries slot_def)
  qed
  have row: "row_of db1 ns k = row_of db ns k" for ns k
    using createSnapshot_clones [OF assms(3)] by (intro row_of_cong) simp
  have "i \<in> readers (v_readToTxIDs v1) (cmp (ns, k, None))"
    if e: "(i, ns, k, x) \<in> set (entries nw)" and r: "row_of db1 ns k \<noteq> None" for i ns k x
  proof -
    have "(i, ns, k) \<in> set (map slot (entries (newWrites v1)))"
      unfolding sl [symmetric] using e by (force simp: slot_def)
    then obtain e' where e': "e' \<in> set (entries (newWrites v1))" "slot e' = (i, ns, k)" by auto
    then have k: "fst e' = i" "key_of e' = (ns, k)" by (auto simp: slot_def key_of_def split: prod.splits)
    have "e' \<in> set (entries (newWrites v)) \<or> e' \<in> set (blind_inserts (db_version db) (entries (validTxBlindWrites v)))"
      using e'(1) mset_eq_setD [OF nw1] by simp
    then show ?thesis
    proof
      assume "e' \<in> set (entries (newWrites v))"
      then show ?thesis using assms(1) k p(2) by (auto simp: announced_def)
    next
      assume "e' \<in> set (blind_inserts (db_version db) (entries (validTxBlindWrites v)))"
      from blind_inserts_new [OF this] show ?thesis using r row k by simp
    qed
  qed
  then show ?thesis using ok' by (auto simp: loop_ok_def)
qed

lemma populate_error: "populateVersionsAndCategorizeBlindWrites db v = Inl e \<Longrightarrow> \<not> internal_error e"
  by (auto simp: populateVersionsAndCategorizeBlindWrites_def queryNsVersions_def queryVersionsIfPresent_def internal_error_def
      dest!: loop_err_Inl split: option.splits sum.splits)

lemma createSnapshot_error:
  assumes "createSnapshotIfPresent w admin nw db = (Inl e, db')"
  shows "\<not> internal_error e"
proof -
  have "\<not> internal_error e" if "createSnapshotDatabaseAndRewriteRecord w admin v db = (Inl e, db')" for v
    using that readStatusWithHeight_error
    by (auto simp: createSnapshotDatabaseAndRewriteRecord_def createSnapshotDatabase_def DecodeSnapshotState_def EncodeSnapshotState_def
        internal_error_def split: option.splits sum.splits if_splits)
  with assms show ?thesis
    by (auto simp: createSnapshotIfPresent_def split: if_splits option.splits prod.splits sum.splits)
qed

lemma commitTransactions_no_internal_error:
  assumes "announced v" "commitTransactions w admin v db = (Inl e, db')"
  shows "\<not> internal_error e"
proof -
  have c: "\<not> internal_error e" if "commitLoop 1024 w v db = (Inl e, db')" "loop_ok v db" for v db
    using commitLoop_no_internal_error [OF that(2), of 1020 w e db'] that(1) by (simp del: commitLoop.simps)
  show ?thesis
    using assms(2) populate_error createSnapshot_error commit_starts_ok [OF assms(1)] c
    by (auto simp: commitTransactions_def split: sum.splits prod.splits simp del: commitLoop.simps)
qed

section \<open>Every batch is answered\<close>

lemma prepare_error:
  assumes "snapshot_codec_law w" "prepare w txs = Inl e"
  shows "\<not> internal_error e"
proof -
  obtain p where "loop_err (prepareTx w) txs newPreparedTransactions = Inr p" using prepareTxs_view [OF assms(1)] by blast
  with assms(2) have "checkpointWriteInBatch w (drop_empty p) = Inl e" by (auto simp: prepare_eq split: sum.splits)
  then show ?thesis
    by (auto simp: checkpointWriteInBatch_def checkpointOfTx_def Let_def internal_error_def
        dest!: loop_err_Inl split: if_splits sum.splits option.splits)
qed

lemma validate_returns:
  assumes "prepared_batch w p txs" "snapshot_keyed w db"
  shows "\<exists>r db'. validate w [] db p = Some (r, db') \<and> (case r of Inl e \<Rightarrow> \<not> internal_error e | Inr v \<Rightarrow> announced v)"
proof (cases "mvccValidate w db p")
  case (Inl e)
  then show ?thesis using mvccValidate_cases [OF assms(1), of db] by (simp add: validate_def)
next
  case (Inr v)
  then have a: "announced v"
    using mvccValidate_cases [OF assms(1), of db] invalidated_announced prepared_announced [OF assms(1)] by auto
  show ?thesis
  proof (cases "rejectSnapshotIfPriorNotCheckpointed w db v")
    case (Inl e)
    then show ?thesis using Inr rejectSnapshot_cases [of v w db] by (simp add: validate_def)
  next
    case r: (Inr v')
    then have "announced v'" using rejectSnapshot_cases [of v w db] invalidated_announced a by auto
    from rejectCheckpoint_returns [OF assms(2) this] show ?thesis using Inr r by (simp add: validate_def)
  qed
qed

lemma processBatch_answers:
  assumes "snapshot_codec_law w" "snapshot_keyed w db"
  shows "\<exists>r db'. processBatch w admin txs db = Some (r, db') \<and> (\<forall>e. r = Inl e \<longrightarrow> \<not> internal_error e)"
proof (cases "prepare w txs")
  case (Inl e)
  have "\<not> internal_error e" by (rule prepare_error [OF assms(1) Inl])
  with Inl show ?thesis by (simp add: processBatch_def)
next
  case (Inr p)
  note b = prepare_batch [OF assms(1) Inr]
  have "\<exists>r db'. validate w [] db p = Some (r, db') \<and> (case r of Inl e \<Rightarrow> \<not> internal_error e | Inr v \<Rightarrow> announced v)"
    by (rule validate_returns [OF b assms(2)])
  then obtain r db1 where v: "validate w [] db p = Some (r, db1)" "case r of Inl e \<Rightarrow> \<not> internal_error e | Inr v \<Rightarrow> announced v"
    by blast
  show ?thesis
  proof (cases r)
    case (Inl e)
    with v Inr show ?thesis by (simp add: processBatch_def)
  next
    case (Inr v)
    obtain r' db' where c: "commitTransactions w admin v db1 = (r', db')" by fastforce
    moreover have "\<not> internal_error e" if "r' = Inl e" for e
      using commitTransactions_no_internal_error [of v w admin db1 e db'] c that v(2) Inr by simp
    ultimately show ?thesis using v(1) Inr \<open>prepare w txs = Inr p\<close> by (simp add: processBatch_def)
  qed
qed

lemma processBatch_total: "snapshot_codec_law w \<Longrightarrow> snapshot_keyed w db \<Longrightarrow> processBatch w admin txs db \<noteq> None"
  using processBatch_answers by fastforce

text \<open>
  C28: the pipeline of the validator-committer returns on every batch, in particular the loop of
  \<open>commitTransactions\<close> that retries a refused commit ends, and it never fails with one of the two errors that
  would be a mistake of the committer itself: too many retries, or a conflicting read that no transaction of
  the batch has. The database may be in any state in which the snapshot pointer names the record of the
  transaction with that identifier.
\<close>

theorem processBatch_returns:
  assumes "snapshot_codec_law w" "snapshot_keyed w db"
  shows "\<exists>r db'. processBatch w admin txs db = Some (r, db') \<and> (\<forall>e. r = Inl e \<longrightarrow> \<not> internal_error e)"
  by (rule processBatch_answers [OF assms])

text \<open>A batch with a transaction that writes a new key, and one that was found invalid before.\<close>

definition demo_batch :: "VcTx list" where
  "demo_batch =
     [\<lparr>vc_ref = \<lparr>ref_block_num = 9, ref_tx_id = ''t1'', ref_tx_num = 0\<rparr>,
       vc_namespaces = [\<lparr>ns_id = ''1'', ns_version = 0, ns_reads_only = [],
          ns_read_writes = [\<lparr>rw_key = ''k'', rw_version = None, rw_value = ''v''\<rparr>], ns_blind_writes = []\<rparr>],
       vc_prelim_invalid = None\<rparr>,
      \<lparr>vc_ref = \<lparr>ref_block_num = 9, ref_tx_id = ''t2'', ref_tx_num = 1\<rparr>, vc_namespaces = [],
       vc_prelim_invalid = Some MALFORMED_EMPTY_KEY\<rparr>]"

theorem processBatch_returns_witness:
  "snapshot_keyed ref_wire demo_closed \<and>
   (\<exists>r db'. processBatch ref_wire (\<lambda>name. True) demo_batch demo_closed = Some (r, db') \<and> (\<forall>e. r = Inl e \<longrightarrow> \<not> internal_error e))"
proof -
  have k: "snapshot_keyed ref_wire demo_closed"
    using demo_closed_read
    by (simp add: snapshot_keyed_def latestSnapshotKey_def demo_closed_def demo_closed_record_def)
  with processBatch_returns [OF ref_wire_snapshot k, of "\<lambda>name. True" demo_batch] show ?thesis by simp
qed

end
