(* ===== verification/VC_Typed.thy ===== *)
theory VC_Typed
  imports VC_Batch
begin

text \<open>
  What every database the committer writes looks like: each snapshot record is stored under the
  identifier of its transaction, each namespace that is declared has a table, and each stored status has
  a height that can be read back. A batch keeps that, so the pipeline can be run on batch after batch.
\<close>

section \<open>Well-formed databases\<close>

definition keyed_value :: "wire \<Rightarrow> bytes \<Rightarrow> bytes \<Rightarrow> bool" where
  "keyed_value w k raw \<longleftrightarrow>
     (case DecodeSnapshotState w raw of
        Inl e \<Rightarrow> True
      | Inr st \<Rightarrow> (case ss_tx_ref st of None \<Rightarrow> True | Some ref \<Rightarrow> ref_tx_id ref = k))"

definition records_keyed :: "wire \<Rightarrow> database \<Rightarrow> bool" where
  "records_keyed w db \<longleftrightarrow> (\<forall>k r. row_of db SnapshotNamespaceID k = Some r \<longrightarrow> keyed_value w k (row_value r))"

definition namespaces_have_tables :: "database \<Rightarrow> bool" where
  "namespaces_have_tables db \<longleftrightarrow> (\<forall>k. row_of db MetaNamespaceID k \<noteq> None \<longrightarrow> db_ns db k \<noteq> None)"

definition statuses_typed :: "wire \<Rightarrow> tx_status_table \<Rightarrow> bool" where
  "statuses_typed w t \<longleftrightarrow> (\<forall>i st h. t i = Some (st, h) \<longrightarrow> st \<noteq> REJECTED_DUPLICATE_TX_ID \<and> (\<exists>ht. ToBytes w ht = Some h))"

definition db_typed :: "wire \<Rightarrow> database \<Rightarrow> bool" where
  "db_typed w db \<longleftrightarrow> records_keyed w db \<and> namespaces_have_tables db \<and> statuses_typed w (tx_status db)"

lemma db_typed_cong: "db_ns db' = db_ns db \<Longrightarrow> tx_status db' = tx_status db \<Longrightarrow> db_typed w db' \<longleftrightarrow> db_typed w db"
  by (simp add: db_typed_def records_keyed_def namespaces_have_tables_def row_of_def)

lemma db_typed_keyed:
  assumes "db_typed w db"
  shows "snapshot_keyed w db"
proof -
  have "ref_tx_id ref = key" if "readRecord w key db = Inr st" "ss_tx_ref st = Some ref" for key st ref
  proof -
    from that(1) obtain r where "row_of db SnapshotNamespaceID key = Some r" "DecodeSnapshotState w (row_value r) = Inr st"
      by (auto simp: readRecord_simps row_of_def)
    with assms that(2) show ?thesis by (fastforce simp: db_typed_def records_keyed_def keyed_value_def)
  qed
  then show ?thesis by (auto simp: snapshot_keyed_def split: sum.splits option.splits)
qed

section \<open>Updates of a record\<close>

lemma keyed_encode:
  assumes "snapshot_codec_law w" "EncodeSnapshotState w st = Inr raw" "\<And>ref. ss_tx_ref st = Some ref \<Longrightarrow> ref_tx_id ref = k"
  shows "keyed_value w k raw"
proof -
  have "UnmarshalSnapshotState w raw = Some st"
    using assms(1,2) by (auto simp: snapshot_codec_law_def EncodeSnapshotState_def split: option.splits) (metis option.inject)
  with assms(3) show ?thesis by (auto simp: keyed_value_def DecodeSnapshotState_def split: option.splits)
qed

lemma updateSnapshotRecord_typed:
  assumes "db_typed w db" "updateSnapshotRecord key raw db = Inr db'" "keyed_value w key raw"
  shows "db_typed w db'"
proof -
  have r: "row_of db' SnapshotNamespaceID k = Some r \<Longrightarrow> keyed_value w k (row_value r)" for k r
    using assms by (auto simp: updateSnapshotRecord_def row_of_def db_typed_def records_keyed_def split: option.splits if_splits)
  have "row_of db' MetaNamespaceID k = row_of db MetaNamespaceID k" "db_ns db' k = None \<longleftrightarrow> db_ns db k = None" "tx_status db' = tx_status db" for k
    using assms(2) by (auto simp: updateSnapshotRecord_def row_of_def split: option.splits if_splits)
  with r assms(1) show ?thesis by (simp add: db_typed_def records_keyed_def namespaces_have_tables_def)
qed

lemma applyUpdate_ref [simp]: "ss_tx_ref (applyUpdate u st) = ss_tx_ref st"
  by (simp add: applyUpdate_def Let_def split: option.splits)

lemma select_keyed:
  assumes "db_typed w db" "selectSnapshotRecord key db = Inr (Some raw)" "DecodeSnapshotState w raw = Inr st" "ss_tx_ref st = Some ref"
  shows "ref_tx_id ref = key"
proof -
  from assms(2) obtain r where "row_of db SnapshotNamespaceID key = Some r" "row_value r = raw"
    by (auto simp: selectSnapshotRecord_def row_of_def split: option.splits)
  with assms(1,3,4) show ?thesis by (fastforce simp: db_typed_def records_keyed_def keyed_value_def)
qed

lemma Update_typed:
  assumes "snapshot_codec_law w" "db_typed w db" "Update w key u db = Inr db'"
  shows "db_typed w db'"
proof -
  from assms(3) obtain raw st newRaw where u: "selectSnapshotRecord key db = Inr (Some raw)" "DecodeSnapshotState w raw = Inr st"
    "EncodeSnapshotState w (applyUpdate u st) = Inr newRaw" "updateSnapshotRecord key newRaw db = Inr db'"
    by (auto simp: Update_def split: if_splits sum.splits option.splits)
  have "keyed_value w key newRaw"
    by (rule keyed_encode [OF assms(1) u(3)]) (use select_keyed [OF assms(2) u(1,2)] in simp)
  then show ?thesis by (rule updateSnapshotRecord_typed [OF assms(2) u(4)])
qed

lemma Mark_typed:
  assumes "snapshot_codec_law w" "db_typed w db" "MarkSnapshotTerminalInTx w n target db = Inr db'"
  shows "db_typed w db'"
proof (cases "db' = db")
  case False
  with assms(3) obtain key raw st newRaw where u: "selectSnapshotRecord key db = Inr (Some raw)" "DecodeSnapshotState w raw = Inr st"
    "EncodeSnapshotState w (st\<lparr>ss_status := target\<rparr>) = Inr newRaw" "updateSnapshotRecord key newRaw db = Inr db'"
    by (auto simp: MarkSnapshotTerminalInTx_def split: if_splits sum.splits option.splits)
  have "keyed_value w key newRaw"
    by (rule keyed_encode [OF assms(1) u(3)]) (use select_keyed [OF assms(2) u(1,2)] in simp)
  then show ?thesis by (rule updateSnapshotRecord_typed [OF assms(2) u(4)])
qed (simp add: assms(2))

section \<open>The effects of a commit\<close>

lemma fold_upd_cases:
  "fold (\<lambda>(i, s, h) t. t(i \<mapsto> (s, h))) xs t i = Some x \<Longrightarrow> t i = Some x \<or> (i, x) \<in> set xs"
  by (induction xs arbitrary: t) (fastforce split: if_splits)+

definition rows_typed :: "wire \<Rightarrow> Status list \<Rightarrow> bytes list \<Rightarrow> bool" where
  "rows_typed w sts hs \<longleftrightarrow> REJECTED_DUPLICATE_TX_ID \<notin> set sts \<and> (\<forall>h \<in> set hs. \<exists>ht. ToBytes w ht = Some h)"

lemma loop_statusRow_typed:
  assumes "loop_err (statusRow w heights) l (ids, sts, hs) = Inr (ids', sts', hs')" "rows_typed w sts hs"
  shows "rows_typed w sts' hs'"
  using assms
proof (induction l arbitrary: ids sts hs)
  case (Cons x l)
  from Cons.prems(1) obtain r where r: "statusRow w heights x (ids, sts, hs) = Inr r" "loop_err (statusRow w heights) l r = Inr (ids', sts', hs')"
    by (auto split: sum.splits)
  obtain a b c where "r = (a, b, c)" by (cases r)
  moreover from this r(1) Cons.prems(2) have "rows_typed w b c"
    by (auto simp: statusRow_def rows_typed_def split: if_splits option.splits)
  ultimately show ?case using Cons.IH r(2) by blast
qed simp

lemma insertTxStatus_typed:
  assumes "insertTxStatus w s db = Inr (dups, db')" "statuses_typed w (tx_status db)"
  shows "statuses_typed w (tx_status db') \<and> db_ns db' = db_ns db"
proof (cases "sc_batchStatus s = []")
  case True
  with assms show ?thesis by (simp add: insertTxStatus_def)
next
  case False
  with assms(1) obtain ids sts hs where l: "loop_err (statusRow w (sc_txIDToHeight s)) (sc_batchStatus s) ([], [], []) = Inr (ids, sts, hs)"
    and db': "db' = db\<lparr>tx_status := snd (insert_tx_status ids sts hs (tx_status db))\<rparr>"
    by (auto simp: insertTxStatus_def split: sum.splits prod.splits)
  have "rows_typed w sts hs" using loop_statusRow_typed [OF l] by (simp add: rows_typed_def)
  then have "st \<noteq> REJECTED_DUPLICATE_TX_ID \<and> (\<exists>ht. ToBytes w ht = Some h)" if "(i, st, h) \<in> set (zip ids (zip sts hs))" for i st h
    using set_zip_leftD [OF set_zip_rightD [OF that]] set_zip_rightD [OF set_zip_rightD [OF that]] by (auto simp: rows_typed_def)
  then show ?thesis
    using assms(2) fold_upd_cases [of "zip ids (zip sts hs)" "tx_status db"]
    by (fastforce simp: db' statuses_typed_def insert_tx_status_def)
qed

lemma insert_ns_cases:
  "snd (insert_ns ks vs t) k = t k \<or> (\<exists>v. (k, v) \<in> set (zip ks vs) \<and> snd (insert_ns ks vs t) k = Some \<lparr>row_value = v, row_version = 0\<rparr>)"
proof -
  have "fold (\<lambda>(k, v) t. t(k \<mapsto> \<lparr>row_value = v, row_version = 0\<rparr>)) xs t k = t k \<or>
    (\<exists>v. (k, v) \<in> set xs \<and> fold (\<lambda>(k, v) t. t(k \<mapsto> \<lparr>row_value = v, row_version = 0\<rparr>)) xs t k = Some \<lparr>row_value = v, row_version = 0\<rparr>)" for xs
  proof (induction xs rule: rev_induct)
    case (snoc x xs)
    then show ?case by (cases x) auto
  qed simp
  then show ?thesis by (auto simp: insert_ns_def)
qed

definition inserted :: "namespaceToWrites \<Rightarrow> database \<Rightarrow> database \<Rightarrow> bool" where
  "inserted m db db' \<longleftrightarrow> same_rest db db' \<and> dom (db_ns db') = dom (db_ns db) \<and>
     (\<forall>ns k r. row_of db' ns k = Some r \<longrightarrow> row_of db ns k = Some r \<or>
        (\<exists>nw v. (ns, nw) \<in> set m \<and> (k, v) \<in> set (zip (nw_keys nw) (nw_values nw)) \<and> r = \<lparr>row_value = v, row_version = 0\<rparr>))"

lemma inserted_trans:
  "inserted m db db1 \<Longrightarrow> inserted m' db1 db2 \<Longrightarrow> set m \<subseteq> M \<Longrightarrow> set m' \<subseteq> M \<Longrightarrow> set n = M \<Longrightarrow> inserted n db db2"
  unfolding inserted_def same_rest_def by (intro conjI allI impI) (simp_all, blast)

lemma insertNsStates_inserted:
  assumes "insertNsStates x (acc, db) = Inr (acc', db')"
  shows "inserted [x] db db'"
proof -
  obtain ns nw where x: "x = (ns, nw)" by (cases x)
  show ?thesis
  proof (cases "nw_empty nw")
    case True
    with assms show ?thesis by (simp add: x insertNsStates_def inserted_def same_rest_def)
  next
    case False
    with assms obtain t where t: "db_ns db ns = Some t" "db' = db\<lparr>db_ns := (db_ns db)(ns \<mapsto> snd (insert_ns (nw_keys nw) (nw_values nw) t))\<rparr>"
      by (auto simp: x insertNsStates_def split: option.splits prod.splits)
    have "dom (db_ns db') = dom (db_ns db)" using t by auto
    moreover have "row_of db ns k = t k" for k by (simp add: row_of_def t(1))
    ultimately show ?thesis
      using insert_ns_cases [of "nw_keys nw" "nw_values nw" t]
      unfolding inserted_def t(2) row_of_upd by (auto simp: x same_rest_def split: if_splits) (metis option.inject)+
  qed
qed

lemma insertStates_inserted:
  assumes "loop_err insertNsStates m (acc, db) = Inr (conf, db')"
  shows "inserted m db db'"
  using assms
proof (induction m arbitrary: acc db)
  case (Cons x m)
  from Cons.prems obtain acc1 db1 where "insertNsStates x (acc, db) = Inr (acc1, db1)" "loop_err insertNsStates m (acc1, db1) = Inr (conf, db')"
    by (auto split: sum.splits)
  then have "inserted [x] db db1" "inserted m db1 db'" using insertNsStates_inserted Cons.IH by blast+
  then show ?case by (rule inserted_trans [where M = "set (x # m)"]) auto
qed (simp add: inserted_def same_rest_def)

lemma create_tables:
  "row_of (fold create_ns_table ks db) ns k = row_of db ns k \<and> tx_status (fold create_ns_table ks db) = tx_status db \<and>
   metadata (fold create_ns_table ks db) = metadata db \<and> clones (fold create_ns_table ks db) = clones db \<and>
   dom (db_ns (fold create_ns_table ks db)) = dom (db_ns db) \<union> set ks"
proof (induction ks arbitrary: db)
  case (Cons x ks)
  have "row_of (create_ns_table x db) ns k = row_of db ns k" "dom (db_ns (create_ns_table x db)) = insert x (dom (db_ns db))"
    "tx_status (create_ns_table x db) = tx_status db" "metadata (create_ns_table x db) = metadata db" "clones (create_ns_table x db) = clones db"
    by (auto simp: create_ns_table_def row_of_def)
  with Cons.IH [of "create_ns_table x db"] show ?case by auto
qed simp

lemma update_ns_dom: "update_ns ks vs vers t k = None \<longleftrightarrow> t k = None"
proof -
  have "fold (\<lambda>(k, v, ver) t. if t k = None then t else t(k \<mapsto> \<lparr>row_value = v, row_version = ver\<rparr>)) xs t k = None \<longleftrightarrow> t k = None" for xs
  proof (induction xs rule: rev_induct)
    case (snoc x xs)
    then show ?case by (cases x) auto
  qed simp
  then show ?thesis by (simp add: update_ns_def)
qed

text \<open>An update changes no set of keys, and only the tables it is for.\<close>

definition updated :: "string set \<Rightarrow> database \<Rightarrow> database \<Rightarrow> bool" where
  "updated N db db' \<longleftrightarrow> same_rest db db' \<and> dom (db_ns db') = dom (db_ns db) \<and>
     (\<forall>ns k. row_of db' ns k = None \<longleftrightarrow> row_of db ns k = None) \<and> (\<forall>ns. ns \<notin> N \<longrightarrow> db_ns db' ns = db_ns db ns)"

lemma updateNsStates_updated:
  assumes "updateNsStates w (ns, nw) db = Inr db'"
  shows "updated {ns} db db'"
proof (cases "nw_empty nw")
  case True
  with assms show ?thesis by (simp add: updateNsStates_def updated_def same_rest_def)
next
  case False
  with assms obtain vers t where t: "db_ns db ns = Some t"
    "db' = db\<lparr>db_ns := (db_ns db)(ns \<mapsto> update_ns (nw_keys nw) (nw_values nw) vers t)\<rparr>"
    by (auto simp: updateNsStates_def split: option.splits)
  have "row_of db' ns' k = None \<longleftrightarrow> row_of db ns' k = None" for ns' k
    unfolding t(2) row_of_upd using update_ns_dom by (simp add: row_of_def t(1))
  then show ?thesis using t by (auto simp: updated_def same_rest_def)
qed

lemma loop_updateNsStates_updated:
  assumes "loop_err (updateNsStates w) m db = Inr db'"
  shows "updated (fst ` set m) db db'"
  using assms
proof (induction m arbitrary: db)
  case (Cons x m)
  obtain ns nw where x: "x = (ns, nw)" by (cases x)
  from Cons.prems obtain db1 where "updateNsStates w (ns, nw) db = Inr db1" "loop_err (updateNsStates w) m db1 = Inr db'"
    by (auto simp: x split: sum.splits)
  then have "updated {ns} db db1" "updated (fst ` set m) db1 db'" using updateNsStates_updated Cons.IH by blast+
  then show ?case by (auto simp: x updated_def same_rest_def)
qed (simp add: updated_def same_rest_def)

section \<open>A commit keeps the database well-formed\<close>

definition states_keyed :: "wire \<Rightarrow> statesToBeCommitted \<Rightarrow> bool" where
  "states_keyed w s \<longleftrightarrow>
     wf_gomap (sc_newWrites s) \<and> SnapshotNamespaceID \<notin> fst ` set (sc_updateWrites s) \<and>
     (\<forall>nw k v. (SnapshotNamespaceID, nw) \<in> set (sc_newWrites s) \<longrightarrow> (k, v) \<in> set (zip (nw_keys nw) (nw_values nw)) \<longrightarrow> keyed_value w k v)"

lemma writeStates_typed:
  assumes "db_typed w db" "states_keyed w s" "writeStatesByGroup w s db = Inr (None, db')"
  shows "db_typed w db'"
proof -
  from assms(3) obtain dups db1 conf db2 where s: "insertTxStatus w s db = Inr (dups, db1)"
      "loop_err insertNsStates (sc_newWrites s) ([], db1) = Inr (conf, db2)"
    and u: "updateStates w (sc_updateWrites s) (createTablesAndFunctionsForNamespaces (go_get noWrites (sc_newWrites s) MetaNamespaceID) db2) = Inr db'"
    by (auto simp: writeStatesByGroup_def insertStates_def Let_def split: sum.splits prod.splits if_splits)
  let ?ks = "nw_keys (go_get noWrites (sc_newWrites s) MetaNamespaceID)"
  let ?db3 = "fold create_ns_table ?ks db2"
  have 1: "statuses_typed w (tx_status db1)" "db_ns db1 = db_ns db"
    using insertTxStatus_typed [OF s(1)] assms(1) by (simp_all add: db_typed_def)
  note i = insertStates_inserted [OF s(2), unfolded inserted_def]
  have up: "updated (fst ` set (sc_updateWrites s)) ?db3 db'"
    using u loop_updateNsStates_updated
    by (auto simp: updateStates_def createTablesAndFunctionsForNamespaces_def updated_def same_rest_def split: if_splits)
  have r1: "row_of db1 ns k = row_of db ns k" for ns k using 1(2) by (rule row_of_cong)
  have "keyed_value w k (row_value r)" if "row_of db' SnapshotNamespaceID k = Some r" for k r
  proof -
    have "row_of ?db3 SnapshotNamespaceID k = Some r" using up that assms(2) by (simp add: updated_def states_keyed_def row_of_def)
    then have "row_of db2 SnapshotNamespaceID k = Some r" by (simp only: create_tables)
    then consider "row_of db SnapshotNamespaceID k = Some r" | nw v where "(SnapshotNamespaceID, nw) \<in> set (sc_newWrites s)"
      "(k, v) \<in> set (zip (nw_keys nw) (nw_values nw))" "r = \<lparr>row_value = v, row_version = 0\<rparr>"
      using i r1 by metis
    then show ?thesis
      by cases (use assms(1,2) in \<open>auto simp: db_typed_def records_keyed_def states_keyed_def\<close>)
  qed
  moreover have "db_ns db' k \<noteq> None" if "row_of db' MetaNamespaceID k \<noteq> None" for k
  proof -
    have "row_of ?db3 MetaNamespaceID k \<noteq> None" using up that by (simp add: updated_def)
    then have "row_of db2 MetaNamespaceID k \<noteq> None" using create_tables [of ?ks db2 MetaNamespaceID k] by simp
    then consider "row_of db MetaNamespaceID k \<noteq> None" | nw v where "(MetaNamespaceID, nw) \<in> set (sc_newWrites s)"
      "(k, v) \<in> set (zip (nw_keys nw) (nw_values nw))"
      using i r1 by (metis not_None_eq)
    then have "k \<in> dom (db_ns db) \<union> set ?ks"
    proof cases
      case 1
      then show ?thesis using assms(1) by (auto simp: db_typed_def namespaces_have_tables_def)
    next
      case (2 nw v)
      then have "go_get noWrites (sc_newWrites s) MetaNamespaceID = nw" using assms(2) by (simp add: states_keyed_def wf_gomap_get)
      with 2 show ?thesis by (auto dest: set_zip_leftD)
    qed
    then have "k \<in> dom (db_ns ?db3)" using create_tables [of ?ks db2] i 1(2) by simp
    then show ?thesis using up by (auto simp: updated_def)
  qed
  moreover have "tx_status db' = tx_status db1"
    using up i create_tables [of ?ks db2] by (simp add: updated_def same_rest_def)
  ultimately show ?thesis using 1(1) by (simp add: db_typed_def records_keyed_def namespaces_have_tables_def)
qed

lemma commit_typed:
  assumes "snapshot_codec_law w" "db_typed w db" "states_keyed w s" "commit w s db = Inr (r, db')"
  shows "db_typed w db'"
proof -
  have l: "db_typed w (setLatestSnapshotKeyIfPresent nw d) \<longleftrightarrow> db_typed w d" for nw d
    by (rule db_typed_cong) (simp_all add: setLatestSnapshotKeyIfPresent_def setMetadata_def)
  have m: "db_typed w d'" if "db_typed w d" "MarkSnapshotTerminalInTx w n t (setLatestSnapshotKeyIfPresent nw d) = Inr d'" for d d' n t nw
    using Mark_typed [OF assms(1) _ that(2)] that(1) by (simp add: l)
  show ?thesis
    using assms(2,4) writeStates_typed [OF assms(2,3)] m l
    by (auto simp: commit_def Let_def split: if_splits sum.splits option.splits)
qed

section \<open>The batch\<close>

definition value_of :: "entry \<Rightarrow> bytes" where
  "value_of = (\<lambda>(i, ns, k, v, ver). v)"

definition keyed_entry :: "wire \<Rightarrow> entry \<Rightarrow> bool" where
  "keyed_entry w e \<longleftrightarrow> (fst (key_of e) = SnapshotNamespaceID \<longrightarrow> keyed_value w (snd (key_of e)) (value_of e))"

text \<open>The snapshot records a batch writes are new ones, stored under the identifier of their transaction.\<close>

definition batch_keyed :: "wire \<Rightarrow> validatedTransactions \<Rightarrow> bool" where
  "batch_keyed w v \<longleftrightarrow>
     (\<forall>e \<in> set (entries (newWrites v)). keyed_entry w e) \<and>
     (\<forall>e \<in> set (entries (validTxNonBlindWrites v)) \<union> set (entries (validTxBlindWrites v)). fst (key_of e) \<noteq> SnapshotNamespaceID)"

lemma effective_snapshot:
  assumes "snapshot_codec_law w" "ns_id (effective w ref ns) = SnapshotNamespaceID"
  shows "\<exists>raw. effective w ref ns = snapshotNamespace ref raw \<and> keyed_value w (ref_tx_id ref) raw"
proof -
  have e: "effective w ref ns = snapshotNamespace ref (case MarshalSnapshotState w (newSnapshotState ref) of None \<Rightarrow> [] | Some s \<Rightarrow> s)"
    using assms(2) by (auto simp: effective_def)
  obtain raw where raw: "MarshalSnapshotState w (newSnapshotState ref) = Some raw" using assms(1) by (auto simp: snapshot_codec_law_def)
  have "keyed_value w (ref_tx_id ref) raw"
    by (rule keyed_encode [OF assms(1), of "newSnapshotState ref"]) (simp_all add: EncodeSnapshotState_def raw, simp add: newSnapshotState_def)
  with e raw show ?thesis by auto
qed

lemma tx_keyed:
  assumes "snapshot_codec_law w"
  shows "e \<in> set (tx_inserts w tx) \<Longrightarrow> keyed_entry w e"
    "e \<in> set (tx_updates w tx) \<union> set (tx_blinds w tx) \<Longrightarrow> fst (key_of e) \<noteq> SnapshotNamespaceID"
proof -
  have s: "\<exists>raw. effective w (vc_ref tx) ns = snapshotNamespace (vc_ref tx) raw \<and> keyed_value w (ref_tx_id (vc_ref tx)) raw"
    if "ns_id (effective w (vc_ref tx) ns) = SnapshotNamespaceID" for ns
    by (rule effective_snapshot [OF assms that])
  show "keyed_entry w e" if "e \<in> set (tx_inserts w tx)"
    using that by (auto simp: tx_inserts_def tx_ns_def ns_inserts_def keyed_entry_def value_of_def snapshotNamespace_def dest!: s)
  show "fst (key_of e) \<noteq> SnapshotNamespaceID" if "e \<in> set (tx_updates w tx) \<union> set (tx_blinds w tx)"
    using that by (auto simp: tx_updates_def tx_blinds_def tx_ns_def ns_updates_def ns_blinds_def snapshotNamespace_def dest!: s)
qed

lemma prepared_keyed:
  assumes "snapshot_codec_law w" "prepared_batch w p txs"
  shows "batch_keyed w (newValidated p)"
proof -
  have "mset (entries (txIDToNsNonBlindWrites p)) = mset (concat (map (tx_updates w) (active txs)))"
    "mset (entries (txIDToNsBlindWrites p)) = mset (concat (map (tx_blinds w) (active txs)))"
    "mset (entries (txIDToNsNewWrites p)) = mset (concat (map (tx_inserts w) (active txs)))"
    using assms(2) by (simp_all add: prepared_batch_def prep_writes_def)
  note e = this [THEN mset_eq_setD]
  show ?thesis
    unfolding batch_keyed_def newValidated_def validatedTransactions.simps e
    by (auto simp del: split_paired_All dest: tx_keyed(1) [OF assms(1)] tx_keyed(2) [OF assms(1), OF UnI1] tx_keyed(2) [OF assms(1), OF UnI2])
qed

lemma without_entries: "without I tw tw' \<Longrightarrow> set (entries tw') \<subseteq> set (entries tw)"
  by (simp add: without_def)

lemma batch_keyedD:
  assumes "batch_keyed w v"
  shows "e \<in> set (entries (newWrites v)) \<Longrightarrow> keyed_entry w e"
    "e \<in> set (entries (validTxNonBlindWrites v)) \<Longrightarrow> fst (key_of e) \<noteq> SnapshotNamespaceID"
    "e \<in> set (entries (validTxBlindWrites v)) \<Longrightarrow> fst (key_of e) \<noteq> SnapshotNamespaceID"
proof -
  note b = assms [unfolded batch_keyed_def]
  show "e \<in> set (entries (newWrites v)) \<Longrightarrow> keyed_entry w e" by (rule bspec [OF conjunct1 [OF b]])
  show "e \<in> set (entries (validTxNonBlindWrites v)) \<Longrightarrow> fst (key_of e) \<noteq> SnapshotNamespaceID"
    by (rule bspec [OF conjunct2 [OF b] UnI1])
  show "e \<in> set (entries (validTxBlindWrites v)) \<Longrightarrow> fst (key_of e) \<noteq> SnapshotNamespaceID"
    by (rule bspec [OF conjunct2 [OF b] UnI2])
qed

lemma batch_keyedI:
  assumes "\<And>e. e \<in> set (entries (newWrites v)) \<Longrightarrow> keyed_entry w e"
    "\<And>e. e \<in> set (entries (validTxNonBlindWrites v)) \<Longrightarrow> fst (key_of e) \<noteq> SnapshotNamespaceID"
    "\<And>e. e \<in> set (entries (validTxBlindWrites v)) \<Longrightarrow> fst (key_of e) \<noteq> SnapshotNamespaceID"
  shows "batch_keyed w v"
  unfolding batch_keyed_def by (intro conjI ballI; (elim UnE)?) (fact assms)+

lemma batch_keyed_mono:
  assumes "batch_keyed w v" "set (entries (newWrites v')) \<subseteq> set (entries (newWrites v))"
    "set (entries (validTxNonBlindWrites v')) \<subseteq> set (entries (validTxNonBlindWrites v))"
    "set (entries (validTxBlindWrites v')) \<subseteq> set (entries (validTxBlindWrites v))"
  shows "batch_keyed w v'"
proof (rule batch_keyedI)
  fix e
  show "keyed_entry w e" if "e \<in> set (entries (newWrites v'))"
    by (rule batch_keyedD(1) [OF assms(1) subsetD [OF assms(2) that]])
  show "fst (key_of e) \<noteq> SnapshotNamespaceID" if "e \<in> set (entries (validTxNonBlindWrites v'))"
    by (rule batch_keyedD(2) [OF assms(1) subsetD [OF assms(3) that]])
  show "fst (key_of e) \<noteq> SnapshotNamespaceID" if "e \<in> set (entries (validTxBlindWrites v'))"
    by (rule batch_keyedD(3) [OF assms(1) subsetD [OF assms(4) that]])
qed

lemma invalidated_batch_keyed:
  assumes "invalidated_by v I st v'" "batch_keyed w v"
  shows "batch_keyed w v'"
proof (rule batch_keyed_mono [OF assms(2)])
  have w: "without I (newWrites v) (newWrites v')" "without I (validTxNonBlindWrites v) (validTxNonBlindWrites v')"
    "without I (validTxBlindWrites v) (validTxBlindWrites v')"
    using assms(1) unfolding invalidated_by_def by simp_all
  show "set (entries (newWrites v')) \<subseteq> set (entries (newWrites v))" by (rule without_entries [OF w(1)])
  show "set (entries (validTxNonBlindWrites v')) \<subseteq> set (entries (validTxNonBlindWrites v))" by (rule without_entries [OF w(2)])
  show "set (entries (validTxBlindWrites v')) \<subseteq> set (entries (validTxBlindWrites v))" by (rule without_entries [OF w(3)])
qed

lemma blind_keys:
  "e \<in> set (blind_updates vs es) \<union> set (blind_inserts vs es) \<Longrightarrow> \<exists>e' \<in> set es. key_of e = key_of e'"
  by (force simp: blind_updates_def blind_inserts_def)

lemma placed_keyed:
  assumes "placed vs (entries (validTxBlindWrites v)) v v'" "validTxBlindWrites v' = []" "batch_keyed w v"
  shows "batch_keyed w v'"
proof (rule batch_keyedI)
  let ?es = "entries (validTxBlindWrites v)"
  have m: "mset (entries (validTxNonBlindWrites v')) = mset (entries (validTxNonBlindWrites v) @ blind_updates vs ?es)"
    "mset (entries (newWrites v')) = mset (entries (newWrites v) @ blind_inserts vs ?es)"
    using assms(1) by (simp_all add: placed_def)
  have b: "fst (key_of e) \<noteq> SnapshotNamespaceID" if "e \<in> set (blind_updates vs ?es) \<union> set (blind_inserts vs ?es)" for e
    using blind_keys [OF that] batch_keyedD(3) [OF assms(3)] by auto
  fix e
  show "keyed_entry w e" if "e \<in> set (entries (newWrites v'))"
    using that batch_keyedD(1) [OF assms(3), of e] b [of e] unfolding mset_eq_setD [OF m(2)] by (auto simp: keyed_entry_def)
  show "fst (key_of e) \<noteq> SnapshotNamespaceID" if "e \<in> set (entries (validTxNonBlindWrites v'))"
    using that batch_keyedD(2) [OF assms(3), of e] b [of e] unfolding mset_eq_setD [OF m(1)] by auto
  show "fst (key_of e) \<noteq> SnapshotNamespaceID" if "e \<in> set (entries (validTxBlindWrites v'))"
    using that assms(2) by simp
qed

end
