(* ===== verification/VC_Runs.thy ===== *)
theory VC_Runs
  imports VC_Typed
begin

text \<open>
  Batch after batch: the stages of the pipeline keep the database well-formed, so a service that starts
  on a database it has set up answers every batch of any sequence.
\<close>

section \<open>The stages\<close>

lemma invalidateOnRead_invalidates:
  "loop_err (invalidateOnRead ns) kvs v = Inr v' \<Longrightarrow> \<exists>I. invalidated_by v I ABORTED_MVCC_CONFLICT v'"
proof (induction kvs arbitrary: v)
  case Nil
  then show ?case using invalidated_by_refl by auto
next
  case (Cons kv kvs)
  obtain k ver where kv: "kv = (k, ver)" by (cases kv)
  with Cons.prems obtain v1 where v1: "invalidateOnRead ns (k, ver) v = Inr v1" "loop_err (invalidateOnRead ns) kvs v1 = Inr v'"
    by (auto split: sum.splits)
  from Cons.IH [OF v1(2)] invalidateOnRead_ok [OF v1(1)] show ?case by (blast intro: invalidated_by_trans)
qed

lemma invalidateTxs_invalidates:
  "invalidateTxsOnReadConflicts rc v = Inr v' \<Longrightarrow> \<exists>I. invalidated_by v I ABORTED_MVCC_CONFLICT v'"
proof (induction rc arbitrary: v)
  case Nil
  then show ?case using invalidated_by_refl by (auto simp: invalidateTxsOnReadConflicts_def)
next
  case (Cons x rc)
  obtain ns r where x: "x = (ns, r)" by (cases x)
  with Cons.prems obtain v1 where v1: "loop_err (invalidateOnRead ns) (zip (rd_keys r) (rd_versions r)) v = Inr v1"
    "invalidateTxsOnReadConflicts rc v1 = Inr v'"
    by (auto simp: invalidateTxsOnReadConflicts_def split: sum.splits)
  from Cons.IH [OF v1(2)] invalidateOnRead_invalidates [OF v1(1)] show ?case by (blast intro: invalidated_by_trans)
qed

text \<open>No namespace is grouped without a write.\<close>

lemma group_nonempty:
  assumes "tw_wf tw" "(ns, nw) \<in> set (groupWritesByNamespace tw)"
  shows "nw_entries nw \<noteq> []"
proof -
  define Q where "Q m \<longleftrightarrow> ntw_wf m \<and> (\<forall>(ns, nw) \<in> set m. nw_entries nw \<noteq> [])" for m
  have one: "Q (groupNsWrites (ns, nw) m)" if "Q m" "nw_wf nw" for ns nw m
  proof (cases "nw_empty nw")
    case False
    let ?nw = "nw_appendWrites nw (go_get noWrites m ns)"
    have wf: "ntw_wf m" using that(1) by (simp add: Q_def)
    have "nw_entries ?nw \<noteq> []" using False that(2) nw_empty_entries ntw_wf_get [OF wf] by simp
    then have "nw_entries x \<noteq> []" if "(k, x) \<in> set (go_put ns ?nw m)" for k x
      using \<open>Q m\<close> that by (rule_tac go_put_all) (auto simp: Q_def)
    then show ?thesis
      using groupNsWrites_view(1) [OF wf that(2), of ns] False by (auto simp: Q_def groupNsWrites_def nsWrites_update_def)
  qed (use that in \<open>simp add: groupNsWrites_def\<close>)
  have "Q (fold groupNsWrites xs m)" if "Q m" "\<forall>(ns, nw) \<in> set xs. nw_wf nw" for xs m
    using that by (induction xs arbitrary: m) (auto simp: one)
  then have "Q (fold (\<lambda>(i, nsWrites). fold groupNsWrites nsWrites) tw m)" if "Q m" "\<forall>(i, m) \<in> set tw. ntw_wf m" for tw m
    using that by (induction tw arbitrary: m) (auto simp: ntw_wf_def)
  from this [of "[]" tw] assms show ?thesis by (auto simp: Q_def tw_wf_def groupWritesByNamespace_def)
qed

lemma keyed_statesOf:
  assumes "validated_ok v" "batch_keyed w v"
  shows "states_keyed w (statesOf v)"
proof -
  have wf: "tw_wf (newWrites v)" "tw_wf (validTxNonBlindWrites v)" using assms(1) by (simp_all add: validated_ok_def)
  note g = groupWritesByNamespace_view [OF wf(1)] and u = groupWritesByNamespace_view [OF wf(2)]
  have e: "\<exists>i. (i, ns, x) \<in> set (entries tw)" if "(ns, nw) \<in> set (groupWritesByNamespace tw)" "x \<in> set (nw_entries nw)" "tw_wf tw"
    for ns nw x tw
  proof -
    have "(ns, x) \<in> set (ntw_entries (groupWritesByNamespace tw))" using that by (force simp: ntw_entries_def set_flat)
    then have "(ns, x) \<in># mset (ntw_entries (groupWritesByNamespace tw))" by simp
    then show ?thesis unfolding groupWritesByNamespace_view(2) [OF that(3)] by force
  qed
  have "keyed_value w k val" if "(SnapshotNamespaceID, nw) \<in> set (groupWritesByNamespace (newWrites v))"
    "(k, val) \<in> set (zip (nw_keys nw) (nw_values nw))" for nw k val
  proof -
    have "nw_wf nw" using g(1) that(1) by (auto simp: ntw_wf_def)
    with that(2) obtain ver where "(k, val, ver) \<in> set (nw_entries nw)"
      by (force simp: nw_entries_def nw_wf_def in_set_zip)
    from e [OF that(1) this wf(1)] obtain i where "(i, SnapshotNamespaceID, k, val, ver) \<in> set (entries (newWrites v))" by blast
    from batch_keyedD(1) [OF assms(2) this] show ?thesis by (simp add: keyed_entry_def value_of_def)
  qed
  moreover have "SnapshotNamespaceID \<notin> fst ` set (groupWritesByNamespace (validTxNonBlindWrites v))"
  proof
    assume "SnapshotNamespaceID \<in> fst ` set (groupWritesByNamespace (validTxNonBlindWrites v))"
    then obtain nw where nw: "(SnapshotNamespaceID, nw) \<in> set (groupWritesByNamespace (validTxNonBlindWrites v))" by auto
    moreover have "nw_entries nw \<noteq> []" using group_nonempty [OF wf(2) nw] .
    then obtain x where "x \<in> set (nw_entries nw)" by (meson list.set_sel(1))
    ultimately obtain i where "(i, SnapshotNamespaceID, x) \<in> set (entries (validTxNonBlindWrites v))" using e wf(2) by blast
    from batch_keyedD(2) [OF assms(2) this] show False by (simp add: key_of_def)
  qed
  ultimately show ?thesis using g(1) by (auto simp: states_keyed_def statesOf_def ntw_wf_def)
qed

lemma go_put_cases: "(k, v) \<in> set (go_put k0 v0 m) \<Longrightarrow> (k, v) \<in> set m \<or> k = k0 \<and> v = v0"
proof -
  have "set (AList.update k0 v0 m) \<subseteq> insert (k0, v0) (set m)" by (induction m) auto
  then show "(k, v) \<in> set (go_put k0 v0 m) \<Longrightarrow> ?thesis" by (auto simp: go_put_def)
qed

lemma entries_iff: "(i, ns, x) \<in> set (entries tw) \<longleftrightarrow> (\<exists>m nw. (i, m) \<in> set tw \<and> (ns, nw) \<in> set m \<and> x \<in> set (nw_entries nw))"
  by (fastforce simp: entries_def ntw_entries_def set_flat)

lemma go_get_sub: "(ns, nw) \<in> set (go_get [] tw i) \<Longrightarrow> \<exists>m. (i, m) \<in> set tw \<and> (ns, nw) \<in> set m"
  by (cases "map_of tw i") (auto simp: go_get_def dest: map_of_SomeD)

lemma txWrites_update_entries:
  assumes "(i', ns', x) \<in> set (entries (txWrites_update i ns f tw))"
  shows "(i', ns', x) \<in> set (entries tw) \<or> i' = i \<and> ns' = ns \<and> x \<in> set (nw_entries (f (go_get noWrites (go_get [] tw i) ns)))"
proof -
  from assms obtain m nw where m: "(i', m) \<in> set (txWrites_update i ns f tw)" "(ns', nw) \<in> set m" "x \<in> set (nw_entries nw)"
    unfolding entries_iff by blast
  from m(1) have "(i', m) \<in> set tw \<or> i' = i \<and> m = nsWrites_update ns f (go_get [] tw i)"
    unfolding txWrites_update_def by (rule go_put_cases)
  then show ?thesis
  proof
    assume "(i', m) \<in> set tw"
    with m(2,3) show ?thesis unfolding entries_iff by blast
  next
    assume i: "i' = i \<and> m = nsWrites_update ns f (go_get [] tw i)"
    with m(2) have "(ns', nw) \<in> set (go_get [] tw i) \<or> ns' = ns \<and> nw = f (go_get noWrites (go_get [] tw i) ns)"
      unfolding nsWrites_update_def by (auto dest: go_put_cases)
    with i m(3) go_get_sub [of ns' nw tw i] show ?thesis unfolding entries_iff by blast
  qed
qed

lemma first_value_entries:
  assumes "x \<in> set (nw_entries (nw\<lparr>nw_values := (nw_values nw)[0 := st]\<rparr>))"
  shows "x \<in> set (nw_entries nw) \<or> (\<exists>ver. x = (hd (nw_keys nw), st, ver))"
  using assms by (cases "nw_keys nw"; cases "nw_values nw"; cases "nw_versions nw") (auto simp: nw_entries_def)

lemma rewrite_keyed:
  assumes "snapshot_codec_law w" "createSnapshotDatabaseAndRewriteRecord w admin v db = (Inr (Some raw), db')" "keyed_value w k v"
  shows "keyed_value w k raw"
proof -
  from assms(2) obtain st ref where r: "DecodeSnapshotState w v = Inr st" "ss_tx_ref st = Some ref"
    "EncodeSnapshotState w \<lparr>ss_tx_ref = Some ref, ss_status = SnapPending, ss_hash = [],
       ss_clone_database = snapshotDatabaseName ref, ss_error = []\<rparr> = Inr raw"
    by (auto simp: createSnapshotDatabaseAndRewriteRecord_def split: sum.splits option.splits if_splits)
  then have "ref_tx_id ref = k" using assms(3) by (simp add: keyed_value_def)
  then show ?thesis by (intro keyed_encode [OF assms(1) r(3)]) simp
qed

lemma createSnapshot_keyed:
  assumes "snapshot_codec_law w" "tw_wf nw" "createSnapshotIfPresent w admin nw db = (Inr nw', db')"
    "\<And>e. e \<in> set (entries nw) \<Longrightarrow> keyed_entry w e" "e \<in> set (entries nw')"
  shows "keyed_entry w e"
proof (cases "nw' = nw")
  case False
  with assms(3) obtain i writes st where s: "snapshotWriteInBatch nw = Some (i, writes)"
    "createSnapshotDatabaseAndRewriteRecord w admin (hd (nw_values writes)) db = (Inr (Some st), db')"
    "nw' = txWrites_update i SnapshotNamespaceID (\<lambda>x. x\<lparr>nw_values := (nw_values x)[0 := st]\<rparr>) nw"
    by (auto simp: createSnapshotIfPresent_def split: if_splits option.splits sum.splits prod.splits)
  then obtain m where m: "(i, m) \<in> set nw" "writes = go_get noWrites m SnapshotNamespaceID" "\<not> nw_empty writes"
    by (auto simp: snapshotWriteInBatch_def filter_eq_Cons_iff split: list.splits prod.splits)
  have mi: "go_get [] nw i = m" using assms(2) m(1) by (simp add: tw_wf_def wf_gomap_get)
  from m(2,3) have w: "(SnapshotNamespaceID, writes) \<in> set m"
    by (cases "map_of m SnapshotNamespaceID") (auto simp: go_get_def nw_empty_def noWrites_def dest: map_of_SomeD)
  have "nw_wf writes" using assms(2) m(1) w by (auto simp: tw_wf_def ntw_wf_def)
  with m(3) obtain ver where "(hd (nw_keys writes), hd (nw_values writes), ver) \<in> set (nw_entries writes)"
    by (cases "nw_keys writes"; cases "nw_values writes"; cases "nw_versions writes") (auto simp: nw_wf_def nw_empty_def nw_entries_def)
  then have "(i, SnapshotNamespaceID, hd (nw_keys writes), hd (nw_values writes), ver) \<in> set (entries nw)"
    using m(1) w unfolding entries_iff by blast
  from assms(4) [OF this] have "keyed_value w (hd (nw_keys writes)) (hd (nw_values writes))" by (simp add: keyed_entry_def value_of_def)
  from rewrite_keyed [OF assms(1) s(2) this] have k: "keyed_value w (hd (nw_keys writes)) st" .
  obtain i' ns' x where e: "e = (i', ns', x)" by (cases e)
  have "e \<in> set (entries nw) \<or> ns' = SnapshotNamespaceID \<and> (x \<in> set (nw_entries writes) \<and> i' = i \<or> (\<exists>ver. x = (hd (nw_keys writes), st, ver)))"
    using txWrites_update_entries [OF assms(5) [unfolded e s(3)]] first_value_entries [of x writes st] by (auto simp: e mi m(2))
  then show ?thesis
  proof (elim disjE conjE exE)
    assume "ns' = SnapshotNamespaceID" "x \<in> set (nw_entries writes)" "i' = i"
    then have "e \<in> set (entries nw)" using m(1) w unfolding e entries_iff by blast
    then show ?thesis by (rule assms(4))
  next
    fix ver assume "ns' = SnapshotNamespaceID" "x = (hd (nw_keys writes), st, ver)"
    with k show ?thesis by (simp add: e keyed_entry_def value_of_def)
  qed (rule assms(4))
qed (use assms(4,5) in simp)

section \<open>The pipeline\<close>

lemma commitLoop_typed:
  assumes "snapshot_codec_law w" "commitLoop n w v db = (r, db')" "validated_ok v" "batch_keyed w v" "db_typed w db"
  shows "db_typed w db'"
  using assms(2-5)
proof (induction n arbitrary: v db)
  case (Suc n)
  show ?case
  proof (cases "commit w (statesOf v) db")
    case (Inl e)
    with Suc.prems show ?thesis by simp
  next
    case (Inr x)
    obtain res db1 where x: "x = (res, db1)" by (cases x)
    have t: "db_typed w db1"
      using commit_typed [OF assms(1) Suc.prems(4) keyed_statesOf [OF Suc.prems(2,3)]] Inr x by blast
    show ?thesis
    proof (cases res)
      case None
      with Suc.prems(1) Inr x t show ?thesis by (auto split: sum.splits)
    next
      case (Some c)
      show ?thesis
      proof (cases "invalidateTxsOnReadConflicts (res_conflicts c) v")
        case (Inl e)
        with Suc.prems(1) Inr x Some t show ?thesis by simp
      next
        case v1: (Inr v1)
        let ?v2 = "updateInvalidTxs (res_duplicates c) REJECTED_DUPLICATE_TX_ID v1"
        obtain I where I: "invalidated_by v I ABORTED_MVCC_CONFLICT v1" using invalidateTxs_invalidates [OF v1] by blast
        note d = invalidated_by_updateInvalidTxs [of v1 "res_duplicates c" REJECTED_DUPLICATE_TX_ID]
        have "validated_ok ?v2" by (rule invalidated_ok [OF d invalidated_ok [OF I Suc.prems(2)]])
        moreover have "batch_keyed w ?v2" by (rule invalidated_batch_keyed [OF d invalidated_batch_keyed [OF I Suc.prems(3)]])
        moreover have "commitLoop n w ?v2 db1 = (r, db')" using Suc.prems(1) Inr x Some v1 by simp
        ultimately show ?thesis using Suc.IH t by blast
      qed
    qed
  qed
qed simp

lemma commitTransactions_typed:
  assumes "snapshot_codec_law w" "commitTransactions w admin v db = (r, db')" "validated_ok v" "batch_keyed w v" "db_typed w db"
  shows "db_typed w db'"
proof (cases "populateVersionsAndCategorizeBlindWrites db v")
  case (Inl e)
  with assms show ?thesis by (simp add: commitTransactions_def)
next
  case (Inr v1)
  note p = populate_placed [OF assms(3) Inr]
  have ok: "validated_ok v1" using p(1) by (simp add: placed_def)
  have k: "batch_keyed w v1" by (rule placed_keyed [OF p assms(4)])
  obtain res db1 where c: "createSnapshotIfPresent w admin (newWrites v1) db = (res, db1)" by fastforce
  have t: "db_typed w db1" using createSnapshot_clones [OF c] assms(5) db_typed_cong [of db1 db w] by simp
  show ?thesis
  proof (cases res)
    case (Inl e)
    with assms(2) Inr c t show ?thesis by (simp add: commitTransactions_def)
  next
    case nw: (Inr nw)
    have wf: "tw_wf (newWrites v1)" using ok by (simp add: validated_ok_def)
    have "validated_ok (v1\<lparr>newWrites := nw\<rparr>)"
      using ok createSnapshot_newWrites [OF wf c [unfolded nw]] by (simp add: validated_ok_def)
    moreover have "batch_keyed w (v1\<lparr>newWrites := nw\<rparr>)"
    proof (rule batch_keyedI)
      fix e
      show "keyed_entry w e" if "e \<in> set (entries (newWrites (v1\<lparr>newWrites := nw\<rparr>)))"
        by (rule createSnapshot_keyed [OF assms(1) wf c [unfolded nw] batch_keyedD(1) [OF k]], assumption) (use that in simp)
      show "fst (key_of e) \<noteq> SnapshotNamespaceID" if "e \<in> set (entries (validTxNonBlindWrites (v1\<lparr>newWrites := nw\<rparr>)))"
        by (rule batch_keyedD(2) [OF k]) (use that in simp)
      show "fst (key_of e) \<noteq> SnapshotNamespaceID" if "e \<in> set (entries (validTxBlindWrites (v1\<lparr>newWrites := nw\<rparr>)))"
        by (rule batch_keyedD(3) [OF k]) (use that in simp)
    qed
    moreover have "commitLoop 1024 w (v1\<lparr>newWrites := nw\<rparr>) db1 = (r, db')"
      using assms(2) Inr c nw by (simp add: commitTransactions_def del: commitLoop.simps)
    ultimately show ?thesis using commitLoop_typed [OF assms(1)] t by blast
  qed
qed

lemma verifyCheckpoint_typed:
  assumes "snapshot_codec_law w" "db_typed w db" "verifyCheckpoint w [] cp db = Some (r, db')"
  shows "db_typed w db'"
proof (cases "db' = db")
  case False
  with assms(3) obtain key u where "Update w key u db = Inr db'"
    by (auto simp: verifyCheckpoint.simps Let_def split: sum.splits option.splits if_splits)
  then show ?thesis by (rule Update_typed [OF assms(1,2)])
qed (simp add: assms(2))

lemma rejectCheckpoint_cases:
  assumes "rejectCheckpointIfNotVerified w [] db v = Some (r, db')"
  shows "(db' = db \<or> (\<exists>cp x. verifyCheckpoint w [] cp db = Some (x, db'))) \<and>
    (\<forall>v'. r = Inr v' \<longrightarrow> v' = v \<or> (\<exists>ids st. v' = updateInvalidTxs ids st v) \<or>
       (\<exists>i fb. v' = v\<lparr>newWrites := go_del i (newWrites v), v_checkpoint := None, checkpointFeedback := Some fb\<rparr>))"
  using assms by (auto simp: rejectCheckpointIfNotVerified_def split: option.splits sum.splits if_splits prod.splits)

lemma rejectCheckpoint_typed:
  assumes "snapshot_codec_law w" "validated_ok v" "batch_keyed w v" "db_typed w db"
    "rejectCheckpointIfNotVerified w [] db v = Some (r, db')"
  shows "db_typed w db'" "r = Inr v' \<Longrightarrow> validated_ok v' \<and> batch_keyed w v'"
proof -
  note c = rejectCheckpoint_cases [OF assms(5)]
  show "db_typed w db'" using c assms(4) verifyCheckpoint_typed [OF assms(1,4)] by blast
  assume "r = Inr v'"
  with c consider "v' = v" | ids st where "v' = updateInvalidTxs ids st v"
    | i fb where "v' = v\<lparr>newWrites := go_del i (newWrites v), v_checkpoint := None, checkpointFeedback := Some fb\<rparr>" by blast
  then show "validated_ok v' \<and> batch_keyed w v'"
  proof cases
    case 1
    then show ?thesis using assms(2,3) by simp
  next
    case (2 ids st)
    then show ?thesis
      using invalidated_ok [OF invalidated_by_updateInvalidTxs assms(2)]
        invalidated_batch_keyed [OF invalidated_by_updateInvalidTxs assms(3)] by simp
  next
    case (3 i fb)
    have "batch_keyed w v'"
      by (rule batch_keyed_mono [OF assms(3)]) (simp_all add: 3 entries_del)
    then show ?thesis using assms(2) by (simp add: 3 validated_ok_def tw_wf_del tw_tight_del)
  qed
qed

lemma validate_typed:
  assumes "snapshot_codec_law w" "prepared_batch w p txs" "db_typed w db" "validate w [] db p = Some (r, db')"
  shows "db_typed w db'" "r = Inr v \<Longrightarrow> validated_ok v \<and> batch_keyed w v"
proof -
  have p: "validated_ok (newValidated p)" "batch_keyed w (newValidated p)"
    using prepared_announced [OF assms(2)] prepared_keyed [OF assms(1,2)] by (simp_all add: announced_def)
  have "db_typed w db' \<and> (\<forall>v. r = Inr v \<longrightarrow> validated_ok v \<and> batch_keyed w v)"
  proof (cases "mvccValidate w db p")
    case (Inl e)
    with assms(3,4) show ?thesis by (auto simp: validate_def)
  next
    case (Inr v1)
    then obtain I where I: "invalidated_by (newValidated p) I ABORTED_MVCC_CONFLICT v1"
      using mvccValidate_cases [OF assms(2), of db] by auto
    show ?thesis
    proof (cases "rejectSnapshotIfPriorNotCheckpointed w db v1")
      case (Inl e)
      with Inr assms(3,4) show ?thesis by (auto simp: validate_def)
    next
      case v2: (Inr v2)
      then obtain J st where J: "invalidated_by v1 J st v2" using rejectSnapshot_cases [of v1 w db] by auto
      have "validated_ok v2" by (rule invalidated_ok [OF J invalidated_ok [OF I p(1)]])
      moreover have "batch_keyed w v2" by (rule invalidated_batch_keyed [OF J invalidated_batch_keyed [OF I p(2)]])
      moreover have "rejectCheckpointIfNotVerified w [] db v2 = Some (r, db')" using assms(4) Inr v2 by (simp add: validate_def)
      ultimately show ?thesis using rejectCheckpoint_typed [OF assms(1) _ _ assms(3)] by blast
    qed
  qed
  then show "db_typed w db'" "r = Inr v \<Longrightarrow> validated_ok v \<and> batch_keyed w v" by blast+
qed

lemma processBatch_typed:
  assumes "snapshot_codec_law w" "db_typed w db" "processBatch w admin txs db = Some (r, db')"
  shows "db_typed w db'"
proof (cases "prepare w txs")
  case (Inl e)
  with assms(2,3) show ?thesis by (simp add: processBatch_def)
next
  case (Inr p)
  note b = prepare_batch [OF assms(1) Inr]
  from assms(3) Inr obtain x db1 where v: "validate w [] db p = Some (x, db1)"
    by (auto simp: processBatch_def split: option.splits)
  note t = validate_typed [OF assms(1) b assms(2) v]
  show ?thesis
  proof (cases x)
    case (Inl e)
    with assms(3) Inr v t(1) show ?thesis by (simp add: processBatch_def)
  next
    case x: (Inr y)
    then have "commitTransactions w admin y db1 = (r, db')" using assms(3) Inr v by (simp add: processBatch_def)
    with commitTransactions_typed [OF assms(1)] t(2) [OF x] t(1) show ?thesis by blast
  qed
qed

section \<open>The databases of the service\<close>

text \<open>The databases a service can have: it sets one up, and then processes batches.\<close>

inductive service_db :: "wire \<Rightarrow> (string \<Rightarrow> bool) \<Rightarrow> database \<Rightarrow> bool" for w admin where
  set_up: "service_db w admin (SetupSystemTablesAndNamespaces systemNamespaces empty_database)"
| batch: "service_db w admin db \<Longrightarrow> processBatch w admin txs db = Some (r, db') \<Longrightarrow> service_db w admin db'"

lemma set_up_typed: "db_typed w (SetupSystemTablesAndNamespaces ns empty_database)"
proof -
  let ?db = "seed_metadata LatestSnapshotPointerKey (seed_metadata lastCommittedBlockNumberKey empty_database)"
  have "row_of ?db n k = None" "tx_status ?db = Map.empty" for n k by (simp_all add: seed_metadata_def empty_database_def row_of_def)
  with create_tables [of ns ?db] show ?thesis
    by (simp add: SetupSystemTablesAndNamespaces_def db_typed_def records_keyed_def namespaces_have_tables_def statuses_typed_def)
qed

text \<open>
  C29: every database the service can have, after any sequence of batches, is well-formed: a snapshot
  record is stored under the identifier of its transaction, a namespace that is declared in \<open>_meta\<close> has
  its table, every stored status has a height that was encoded by \<open>ToBytes\<close>, and no transaction is stored as a
  duplicate. On each of them every further batch is answered.
\<close>

theorem service_db_typed:
  assumes "snapshot_codec_law w" "service_db w admin db"
  shows "db_typed w db \<and> (\<forall>txs. \<exists>r db'. processBatch w admin txs db = Some (r, db'))"
proof -
  have t: "db_typed w db" using assms(2) by (induction rule: service_db.induct) (auto intro: set_up_typed processBatch_typed [OF assms(1)])
  have "processBatch w admin txs db \<noteq> None" for txs
    by (rule processBatch_total [OF assms(1) db_typed_keyed [OF t]])
  with t show ?thesis by force
qed

theorem service_db_typed_witness:
  "\<exists>r db. processBatch ref_wire (\<lambda>name. True) demo_batch (SetupSystemTablesAndNamespaces [''_meta'', ''1''] empty_database) = Some (r, db) \<and>
     db_typed ref_wire db"
proof -
  let ?a = "\<lambda>name. True" and ?db = "SetupSystemTablesAndNamespaces [''_meta'', ''1''] empty_database"
  obtain r db where b: "processBatch ref_wire ?a demo_batch ?db = Some (r, db)"
    using service_db_typed [OF ref_wire_snapshot service_db.set_up [of ref_wire ?a "[''_meta'', ''1'']"]] by blast
  have "service_db ref_wire ?a db" by (rule service_db.batch [OF service_db.set_up b])
  with service_db_typed [OF ref_wire_snapshot this] b show ?thesis by blast
qed

end
