(* ===== verification/Policy.thy ===== *)
theory Policy
  imports Wire_Instance
begin

text \<open>
  Namespace policies and signature verification: \<open>service/verifier/policy/policy.go\<close> and
  \<open>utils/signature/verify.go\<close>. The channel configuration bundle, the MSP policy provider, the
  unmarshalling of a policy and the signature schemes are an argument, the record \<open>fabric\<close>; a channel
  policy is what the code does with it, the evaluation of signed data. The result \<open>Inl\<close> of an
  operation is an error it returns, or a panic.
\<close>

section \<open>The functions outside the repository\<close>

record SignedData =
  sd_data :: bytes
  sd_identity :: bytes
  sd_signature :: bytes

type_synonym Policy = "SignedData list \<Rightarrow> bool"

datatype PolicyRule = ThresholdRule (tr_scheme: string) (tr_public_key: bytes) | MspRule bytes | NoRule

text \<open>
  \<open>'b\<close> is the type of bundles, \<open>'d\<close> that of identity deserializers. \<open>NewBundle\<close> is
  \<open>protoutil.UnmarshalEnvelope\<close> followed by \<open>channelconfig.NewBundleFromEnvelope\<close>. \<open>NewPolicy\<close> takes
  the possibly nil deserializer, \<open>MSPManager\<close> the possibly nil bundle. \<open>VerifyEd25519\<close> is \<open>ed25519.VerifyWithOptions\<close>, which panics when
  the key does not have 32 bytes; that check is in \<open>verifyDigest\<close>.
\<close>

record ('b, 'd) fabric =
  UnmarshalPolicy :: "bytes \<Rightarrow> PolicyRule option"
  NewBundle :: "bytes \<Rightarrow> 'b option"
  GetPolicy :: "'b \<Rightarrow> string \<Rightarrow> Policy option"
  MSPManager :: "'b option \<Rightarrow> 'd option"
  NewPolicy :: "'d option \<Rightarrow> bytes \<Rightarrow> Policy option"
  ASN1Marshal :: "string \<Rightarrow> bytes \<Rightarrow> TxNamespace \<Rightarrow> bytes option"
  Sum256 :: "bytes \<Rightarrow> bytes"
  NewEcdsaVerifier :: "bytes \<Rightarrow> (bytes \<Rightarrow> bytes \<Rightarrow> bool) option"
  NewBLSVerifier :: "bytes \<Rightarrow> (bytes \<Rightarrow> bytes \<Rightarrow> bool) option"
  VerifyEd25519 :: "bytes \<Rightarrow> bytes \<Rightarrow> bytes \<Rightarrow> bool"

datatype policy_error =
    ErrInvalidNamespaceID | BadPolicyBytes | RuleNotSupported | SchemeNotSupported | BadPublicKey
  | BadMspRule | IndexOutOfRange | MarshalFailed | NoEndorsements | NilIdentity | SignatureMismatch
  | BadConfig | PolicyNotFound string | NilPointer | BadKeyLength

text \<open>The two of them that end the process.\<close>

definition is_panic :: "policy_error \<Rightarrow> bool" where
  "is_panic e \<longleftrightarrow> e = NilPointer \<or> e = BadKeyLength"

section \<open>Namespace identifiers\<close>

definition maxNamespaceIDLength :: nat where
  "maxNamespaceIDLength = 60"

text \<open>The expression \<open>^[a-z0-9_]+$\<close>.\<close>

definition namespace_char :: "char \<Rightarrow> bool" where
  "namespace_char c \<longleftrightarrow>
     (let n = of_char c :: nat in (97 \<le> n \<and> n \<le> 122) \<or> (48 \<le> n \<and> n \<le> 57) \<or> n = 95)"

definition ValidateNamespaceID :: "string \<Rightarrow> policy_error option" where
  "ValidateNamespaceID nsID =
     (if length nsID = 0 \<or> length nsID > maxNamespaceIDLength then Some ErrInvalidNamespaceID
      else if \<not> (nsID \<noteq> [] \<and> list_all namespace_char nsID) then Some ErrInvalidNamespaceID
      else None)"

definition validateNamespaceIDInPolicy :: "wire \<Rightarrow> string \<Rightarrow> policy_error option" where
  "validateNamespaceIDInPolicy w nsID =
     (if IsSystemNamespace w nsID then Some ErrInvalidNamespaceID else ValidateNamespaceID nsID)"

section \<open>Verifiers\<close>

text \<open>
  The scheme of a key verifier, with the key (and for two of them the parsed key, whose verification
  function is what is left of it).
\<close>

datatype digestVerifier =
    EcdsaVerifier "bytes \<Rightarrow> bytes \<Rightarrow> bool"
  | BlsVerifier "bytes \<Rightarrow> bytes \<Rightarrow> bool"
  | EdDSAVerifier bytes

datatype NsVerifier =
    NilVerifier
  | ChannelPolicyVerifier Policy
  | MspVerifier bytes Policy
  | KeyVerifier digestVerifier

definition upper :: "char \<Rightarrow> char" where
  "upper c = (let n = of_char c :: nat in if 97 \<le> n \<and> n \<le> 122 then char_of (n - 32) else c)"

text \<open>
  \<open>strings.ToUpper\<close>, as far as the comparison with the names of the schemes can see it: U+017F is the
  only character outside ASCII whose upper case is an ASCII letter of one of the names.
\<close>

fun ToUpper :: "string \<Rightarrow> string" where
  "ToUpper (CHR 0xC5 # CHR 0xBF # cs) = CHR ''S'' # ToUpper cs"
| "ToUpper (c # cs) = upper c # ToUpper cs"
| "ToUpper [] = []"

definition NewNsVerifierFromKey :: "('b, 'd) fabric \<Rightarrow> string \<Rightarrow> bytes \<Rightarrow> policy_error + NsVerifier" where
  "NewNsVerifierFromKey fb scheme key =
     (let s = ToUpper scheme
      in if s = ''NONE'' \<or> s = '''' then Inr NilVerifier
         else if s = ''ECDSA'' then
           (case NewEcdsaVerifier fb key of None \<Rightarrow> Inl BadPublicKey | Some v \<Rightarrow> Inr (KeyVerifier (EcdsaVerifier v)))
         else if s = ''BLS'' then
           (case NewBLSVerifier fb key of None \<Rightarrow> Inl BadPublicKey | Some v \<Rightarrow> Inr (KeyVerifier (BlsVerifier v)))
         else if s = ''EDDSA'' then Inr (KeyVerifier (EdDSAVerifier key))
         else Inl SchemeNotSupported)"

definition NewNsVerifierFromMsp :: "('b, 'd) fabric \<Rightarrow> bytes \<Rightarrow> 'd option \<Rightarrow> policy_error + NsVerifier" where
  "NewNsVerifierFromMsp fb mspRule idDeserializer =
     (case NewPolicy fb idDeserializer mspRule of
        None \<Rightarrow> Inl BadMspRule
      | Some p \<Rightarrow> Inr (MspVerifier mspRule p))"

definition NewNsVerifier :: "('b, 'd) fabric \<Rightarrow> PolicyRule \<Rightarrow> 'd option \<Rightarrow> policy_error + NsVerifier" where
  "NewNsVerifier fb rule idDeserializer =
     (case rule of
        ThresholdRule scheme key \<Rightarrow> NewNsVerifierFromKey fb scheme key
      | MspRule mspRule \<Rightarrow> NewNsVerifierFromMsp fb mspRule idDeserializer
      | NoRule \<Rightarrow> Inl RuleNotSupported)"

text \<open>The call through the nil interface of a verifier without a scheme panics.\<close>

definition UpdateIdentities :: "('b, 'd) fabric \<Rightarrow> 'd option \<Rightarrow> NsVerifier \<Rightarrow> policy_error + NsVerifier" where
  "UpdateIdentities fb idDeserializer v =
     (case v of
        NilVerifier \<Rightarrow> Inl NilPointer
      | ChannelPolicyVerifier p \<Rightarrow> Inr v
      | MspVerifier mspRule p \<Rightarrow> NewNsVerifierFromMsp fb mspRule idDeserializer
      | KeyVerifier dv \<Rightarrow> Inr v)"

definition verifyDigest :: "('b, 'd) fabric \<Rightarrow> digestVerifier \<Rightarrow> bytes \<Rightarrow> bytes \<Rightarrow> policy_error option" where
  "verifyDigest fb dv digest sig =
     (case dv of
        EcdsaVerifier v \<Rightarrow> if v digest sig then None else Some SignatureMismatch
      | BlsVerifier v \<Rightarrow> if v digest sig then None else Some SignatureMismatch
      | EdDSAVerifier key \<Rightarrow>
          if length key \<noteq> 32 then Some BadKeyLength
          else if VerifyEd25519 fb key digest sig then None else Some SignatureMismatch)"

text \<open>The signed data of the endorsements; a nil endorsement or identity ends it.\<close>

fun signedDataOf :: "bytes \<Rightarrow> EndorsementWithIdentity option list \<Rightarrow> policy_error + SignedData list" where
  "signedDataOf content [] = Inr []"
| "signedDataOf content (None # es) = Inl NilPointer"
| "signedDataOf content (Some e # es) =
     (case ei_identity e of
        None \<Rightarrow> Inl NilIdentity
      | Some i \<Rightarrow>
          (case signedDataOf content es of
             Inl err \<Rightarrow> Inl err
           | Inr sds \<Rightarrow> Inr (\<lparr>sd_data = content, sd_identity = i, sd_signature = ei_endorsement e\<rparr> # sds)))"

definition evaluateEndorsements :: "Policy \<Rightarrow> bytes \<Rightarrow> EndorsementWithIdentity option list \<Rightarrow> policy_error option" where
  "evaluateEndorsements p content endorsements =
     (if length endorsements = 0 then Some NoEndorsements
      else case signedDataOf content endorsements of
             Inl e \<Rightarrow> Some e
           | Inr sds \<Rightarrow> if p sds then None else Some SignatureMismatch)"

definition Verify :: "('b, 'd) fabric \<Rightarrow> NsVerifier \<Rightarrow> bytes \<Rightarrow> EndorsementWithIdentity option list \<Rightarrow> policy_error option" where
  "Verify fb v content endorsements =
     (case v of
        NilVerifier \<Rightarrow> Some NilPointer
      | ChannelPolicyVerifier p \<Rightarrow> evaluateEndorsements p content endorsements
      | MspVerifier mspRule p \<Rightarrow> evaluateEndorsements p content endorsements
      | KeyVerifier dv \<Rightarrow>
          (case endorsements of
             [] \<Rightarrow> Some NoEndorsements
           | None # _ \<Rightarrow> Some NilPointer
           | Some e # _ \<Rightarrow> verifyDigest fb dv (Sum256 fb content) (ei_endorsement e)))"

definition VerifyNs :: "('b, 'd) fabric \<Rightarrow> NsVerifier \<Rightarrow> string \<Rightarrow> Tx \<Rightarrow> nat \<Rightarrow> policy_error option" where
  "VerifyNs fb v txID tx nsIndex =
     (if nsIndex \<ge> length (tx_namespaces tx) \<or> nsIndex \<ge> length (tx_endorsements tx) then Some IndexOutOfRange
      else if (case v of NilVerifier \<Rightarrow> True | _ \<Rightarrow> False) then None
      else case ASN1Marshal fb txID (tx_metadata tx) (tx_namespaces tx ! nsIndex) of
             None \<Rightarrow> Some MarshalFailed
           | Some content \<Rightarrow>
               (case tx_endorsements tx ! nsIndex of
                  None \<Rightarrow> Some NilPointer
                | Some es \<Rightarrow> Verify fb v content es))"

section \<open>Policies in transactions\<close>

record PolicyItem =
  pi_namespace :: string
  pi_policy :: bytes

record VerifierUpdates =
  vu_config :: "bytes option"
  vu_policies :: "PolicyItem list option"

definition GetUpdatesFromNamespace :: "TxNamespace \<Rightarrow> VerifierUpdates option" where
  "GetUpdatesFromNamespace nsTx =
     (if ns_id nsTx = MetaNamespaceID then
        Some \<lparr>vu_config = None,
              vu_policies = Some (map (\<lambda>rw. \<lparr>pi_namespace = rw_key rw, pi_policy = rw_value rw\<rparr>) (ns_read_writes nsTx))\<rparr>
      else if ns_id nsTx = ConfigNamespaceID then
        (case filter (\<lambda>bw. w_key bw = ConfigKey) (ns_blind_writes nsTx) of
           [] \<Rightarrow> None
         | bw # _ \<Rightarrow> Some \<lparr>vu_config = Some (w_value bw), vu_policies = None\<rparr>)
      else None)"

definition CreateNamespaceVerifier :: "wire \<Rightarrow> ('b, 'd) fabric \<Rightarrow> PolicyItem \<Rightarrow> 'd option \<Rightarrow> policy_error + NsVerifier" where
  "CreateNamespaceVerifier w fb pd idDeserializer =
     (case validateNamespaceIDInPolicy w (pi_namespace pd) of
        Some e \<Rightarrow> Inl e
      | None \<Rightarrow>
          (case UnmarshalPolicy fb (pi_policy pd) of
             None \<Rightarrow> Inl BadPolicyBytes
           | Some pol \<Rightarrow> NewNsVerifier fb pol idDeserializer))"

definition SystemNamespacePolicies :: "(string \<times> string) list" where
  "SystemNamespacePolicies =
     [(MetaNamespaceID, ''/Channel/Application/LifecycleEndorsement''),
      (SnapshotNamespaceID, ''/Channel/Application/SnapshotEndorsement''),
      (CheckpointNamespaceID, ''/Channel/Application/CheckpointEndorsement'')]"

definition ParseChannelPolicy :: "('b, 'd) fabric \<Rightarrow> 'b \<Rightarrow> string \<Rightarrow> policy_error + NsVerifier" where
  "ParseChannelPolicy fb bundle path =
     (case GetPolicy fb bundle path of
        None \<Rightarrow> Inl (PolicyNotFound path)
      | Some p \<Rightarrow> Inr (ChannelPolicyVerifier p))"

definition ValidateConfigTx :: "('b, 'd) fabric \<Rightarrow> bytes \<Rightarrow> policy_error option" where
  "ValidateConfigTx fb value =
     (case NewBundle fb value of
        None \<Rightarrow> Some BadConfig
      | Some bundle \<Rightarrow>
          (case loop_err (\<lambda>(nsID, path) u. case ParseChannelPolicy fb bundle path of Inl e \<Rightarrow> Inl e | Inr v \<Rightarrow> Inr ())
                  SystemNamespacePolicies () of
             Inl e \<Rightarrow> Some e
           | Inr u \<Rightarrow> None))"

end
