(* ===== verification/Verifier.thy ===== *)
theory Verifier
  imports Policy
begin

text \<open>
  The signature verifier: \<open>service/verifier/verify.go\<close> (the verifiers of the namespaces, their update
  and the check of a transaction) and the batching of the results in \<open>parallel_executor.go\<close>. The
  verifiers are shared by the old and the new map, so an update of the identities shows in both.
\<close>

section \<open>Updating the policies\<close>

record 'b verifier =
  vf_verifiers :: "(string, NsVerifier) gomap"
  vf_bundle :: "'b option"

definition newVerifier :: "'b verifier" where
  "newVerifier = \<lparr>vf_verifiers = [], vf_bundle = None\<rparr>"

definition updateBundle :: "('b, 'd) fabric \<Rightarrow> VerifierUpdates \<Rightarrow> 'b verifier \<Rightarrow> policy_error + 'b verifier" where
  "updateBundle fb u v =
     (case vu_config u of
        None \<Rightarrow> Inr v
      | Some envelope \<Rightarrow>
          (case NewBundle fb envelope of
             None \<Rightarrow> Inl BadConfig
           | Some bundle \<Rightarrow> Inr (v\<lparr>vf_bundle := Some bundle\<rparr>)))"

definition createSystemVerifier :: "('b, 'd) fabric \<Rightarrow> 'b option \<Rightarrow> string \<times> string \<Rightarrow> (string, NsVerifier) gomap
    \<Rightarrow> policy_error + (string, NsVerifier) gomap" where
  "createSystemVerifier fb bundle = (\<lambda>(nsID, path) newPolicies.
     case bundle of
       None \<Rightarrow> Inl NilPointer
     | Some b \<Rightarrow>
         (case ParseChannelPolicy fb b path of
            Inl e \<Rightarrow> Inl e
          | Inr nsVerifier \<Rightarrow> Inr (go_put nsID nsVerifier newPolicies)))"

definition createPolicyVerifier :: "wire \<Rightarrow> ('b, 'd) fabric \<Rightarrow> 'd option \<Rightarrow> PolicyItem \<Rightarrow> (string, NsVerifier) gomap
    \<Rightarrow> policy_error + (string, NsVerifier) gomap" where
  "createPolicyVerifier w fb idDeserializer pd newPolicies =
     (case CreateNamespaceVerifier w fb pd idDeserializer of
        Inl e \<Rightarrow> Inl e
      | Inr nsVerifier \<Rightarrow> Inr (go_put (pi_namespace pd) nsVerifier newPolicies))"

definition createVerifiers :: "wire \<Rightarrow> ('b, 'd) fabric \<Rightarrow> VerifierUpdates \<Rightarrow> 'b option
    \<Rightarrow> policy_error + (string, NsVerifier) gomap" where
  "createVerifiers w fb update bundle =
     (let idDeserializer = MSPManager fb bundle
      in case (if vu_config update \<noteq> None then loop_err (createSystemVerifier fb bundle) SystemNamespacePolicies []
               else Inr []) of
           Inl e \<Rightarrow> Inl e
         | Inr newPolicies \<Rightarrow>
             (case vu_policies update of
                None \<Rightarrow> Inr newPolicies
              | Some pds \<Rightarrow> loop_err (createPolicyVerifier w fb idDeserializer) pds newPolicies))"

text \<open>
  The loop over the verifiers in force: the first map is the one being built, the second the one in
  force, whose verifiers are updated in place.
\<close>

fun retainVerifiers :: "('b, 'd) fabric \<Rightarrow> bool \<Rightarrow> 'd option \<Rightarrow> (string \<times> NsVerifier) list
    \<Rightarrow> (string, NsVerifier) gomap \<Rightarrow> (string, NsVerifier) gomap
    \<Rightarrow> policy_error option \<times> (string, NsVerifier) gomap \<times> (string, NsVerifier) gomap" where
  "retainVerifiers fb isConfig msp [] newV cur = (None, newV, cur)"
| "retainVerifiers fb isConfig msp ((k, nsVerifier) # rest) newV cur =
     (if map_of newV k \<noteq> None then retainVerifiers fb isConfig msp rest newV cur
      else if isConfig then
        (case UpdateIdentities fb msp nsVerifier of
           Inl e \<Rightarrow> (Some e, newV, cur)
         | Inr nv \<Rightarrow> retainVerifiers fb isConfig msp rest (go_put k nv newV) (go_put k nv cur))
      else retainVerifiers fb isConfig msp rest (go_put k nsVerifier newV) cur)"

definition updatePolicies :: "wire \<Rightarrow> ('b, 'd) fabric \<Rightarrow> VerifierUpdates option \<Rightarrow> 'b verifier
    \<Rightarrow> policy_error option \<times> 'b verifier" where
  "updatePolicies w fb update v =
     (case update of
        None \<Rightarrow> (None, v)
      | Some u \<Rightarrow>
          if vu_config u = None \<and> vu_policies u = None then (None, v)
          else case updateBundle fb u v of
                 Inl e \<Rightarrow> (Some e, v)
               | Inr v1 \<Rightarrow>
                   (case createVerifiers w fb u (vf_bundle v1) of
                      Inl e \<Rightarrow> (Some e, v1)
                    | Inr newVerifiers \<Rightarrow>
                        (case retainVerifiers fb (vu_config u \<noteq> None) (MSPManager fb (vf_bundle v1))
                                (vf_verifiers v1) newVerifiers (vf_verifiers v1) of
                           (Some e, _, cur) \<Rightarrow> (Some e, v1\<lparr>vf_verifiers := cur\<rparr>)
                         | (None, newV, _) \<Rightarrow> (None, v1\<lparr>vf_verifiers := newV\<rparr>))))"

section \<open>Verifying a transaction\<close>

text \<open>\<open>Inl\<close> is a panic.\<close>

fun verifyNamespaces :: "('b, 'd) fabric \<Rightarrow> (string, NsVerifier) gomap \<Rightarrow> string \<Rightarrow> Tx \<Rightarrow> nat \<Rightarrow> TxNamespace list
    \<Rightarrow> policy_error + Status" where
  "verifyNamespaces fb verifiers txID tx nsIndex [] = Inr COMMITTED"
| "verifyNamespaces fb verifiers txID tx nsIndex (ns # nss) =
     (if ns_id ns = ConfigNamespaceID then verifyNamespaces fb verifiers txID tx (Suc nsIndex) nss
      else case map_of verifiers (ns_id ns) of
             None \<Rightarrow> Inr ABORTED_SIGNATURE_INVALID
           | Some nsVerifier \<Rightarrow>
               (case VerifyNs fb nsVerifier txID tx nsIndex of
                  None \<Rightarrow> verifyNamespaces fb verifiers txID tx (Suc nsIndex) nss
                | Some e \<Rightarrow> if is_panic e then Inl e else Inr ABORTED_SIGNATURE_INVALID))"

definition verifyRequest :: "('b, 'd) fabric \<Rightarrow> 'b verifier \<Rightarrow> TxWithRef \<Rightarrow> policy_error + TxStatus" where
  "verifyRequest fb v tx =
     (case verifyNamespaces fb (vf_verifiers v) (ref_tx_id (twr_ref tx)) (twr_content tx) 0 (tx_namespaces (twr_content tx)) of
        Inl e \<Rightarrow> Inl e
      | Inr st \<Rightarrow> Inr \<lparr>st_ref = twr_ref tx, st_status = st\<rparr>)"

definition IsConfigTx :: "TxNamespace list \<Rightarrow> bool" where
  "IsConfigTx namespaces \<longleftrightarrow> length namespaces = 1 \<and> ns_id (namespaces ! 0) = ConfigNamespaceID"

section \<open>Cutting batches\<close>

text \<open>
  The output loop of the executor. The state is the buffer and the batches written; \<open>None\<close> is a loop
  that does not end.
\<close>

record cutoff =
  outputBuffer :: "TxStatus list"
  batches_out :: "TxStatus list list"

partial_function (option) cutBatch :: "nat \<Rightarrow> nat \<Rightarrow> cutoff \<Rightarrow> cutoff option" where
  "cutBatch batchSizeCutoff minSize s =
     (if length (outputBuffer s) \<ge> minSize
      then let batchSize = min batchSizeCutoff (length (outputBuffer s))
           in cutBatch batchSizeCutoff minSize
                \<lparr>outputBuffer = drop batchSize (outputBuffer s),
                 batches_out = batches_out s @ [take batchSize (outputBuffer s)]\<rparr>
      else Some s)"

declare cutBatch.simps [code]

text \<open>An iteration: the timer fires, or a verification result arrives.\<close>

datatype cutoff_event = CutTimeout | VerificationOutput TxStatus bool

fun handleCutoff :: "nat \<Rightarrow> cutoff_event \<Rightarrow> cutoff \<Rightarrow> cutoff option" where
  "handleCutoff batchSizeCutoff CutTimeout s = cutBatch batchSizeCutoff 1 s"
| "handleCutoff batchSizeCutoff (VerificationOutput st isConfig) s =
     (let s1 = s\<lparr>outputBuffer := outputBuffer s @ [st]\<rparr>
      in if isConfig then cutBatch batchSizeCutoff 1 s1 else cutBatch batchSizeCutoff batchSizeCutoff s1)"

fun runCutoff :: "nat \<Rightarrow> cutoff_event list \<Rightarrow> cutoff \<Rightarrow> cutoff option" where
  "runCutoff n [] s = Some s"
| "runCutoff n (e # es) s = (case handleCutoff n e s of None \<Rightarrow> None | Some s' \<Rightarrow> runCutoff n es s')"

section \<open>Cutting loses nothing\<close>

definition cutoff_contents :: "cutoff \<Rightarrow> TxStatus list" where
  "cutoff_contents s = concat (batches_out s) @ outputBuffer s"

definition batches_ok :: "nat \<Rightarrow> cutoff \<Rightarrow> bool" where
  "batches_ok n s \<longleftrightarrow> (\<forall>b \<in> set (batches_out s). b \<noteq> [] \<and> length b \<le> n)"

lemma cutBatch_ok:
  assumes "0 < n" "0 < m" "batches_ok n s"
  shows "\<exists>s'. cutBatch n m s = Some s' \<and> cutoff_contents s' = cutoff_contents s \<and> batches_ok n s' \<and>
    length (outputBuffer s') < m"
  using assms(3)
proof (induction "length (outputBuffer s)" arbitrary: s rule: less_induct)
  case less
  show ?case
  proof (cases "m \<le> length (outputBuffer s)")
    case True
    let ?k = "min n (length (outputBuffer s))"
    let ?s = "\<lparr>outputBuffer = drop ?k (outputBuffer s), batches_out = batches_out s @ [take ?k (outputBuffer s)]\<rparr>"
    have "length (outputBuffer s) > 0" using True assms(2) by linarith
    then have "batches_ok n ?s" "length (outputBuffer ?s) < length (outputBuffer s)"
      using less.prems assms(1) by (auto simp: batches_ok_def)
    moreover have "cutoff_contents ?s = cutoff_contents s" by (simp add: cutoff_contents_def)
    moreover have "cutBatch n m s = cutBatch n m ?s"
      using True by (subst cutBatch.simps) (simp add: Let_def)
    ultimately show ?thesis using less.hyps [of ?s] by presburger
  next
    case False
    then show ?thesis using less.prems by (subst cutBatch.simps) simp
  qed
qed

fun event_status :: "cutoff_event \<Rightarrow> TxStatus list" where
  "event_status CutTimeout = []"
| "event_status (VerificationOutput st c) = [st]"

lemma handleCutoff_ok:
  assumes "0 < n" "batches_ok n s" "length (outputBuffer s) < n"
  shows "\<exists>s'. handleCutoff n e s = Some s' \<and> cutoff_contents s' = cutoff_contents s @ event_status e \<and>
    batches_ok n s' \<and> length (outputBuffer s') < n \<and> ((\<exists>st. e = VerificationOutput st True) \<longrightarrow> outputBuffer s' = [])"
proof (cases e)
  case CutTimeout
  then show ?thesis using cutBatch_ok [OF assms(1) _ assms(2), of 1] assms(1) by fastforce
next
  case (VerificationOutput st c)
  let ?s = "s\<lparr>outputBuffer := outputBuffer s @ [st]\<rparr>"
  have "batches_ok n ?s" using assms(2) by (simp add: batches_ok_def)
  moreover have "cutoff_contents ?s = cutoff_contents s @ [st]" by (simp add: cutoff_contents_def)
  ultimately show ?thesis
    using cutBatch_ok [OF assms(1), of 1 ?s] cutBatch_ok [OF assms(1,1), of ?s] assms(1) VerificationOutput
    by (cases c) fastforce+
qed

text \<open>
  C25: The batching of the verification results always returns, and loses, repeats and reorders nothing:
  the batches written and the buffer, put one after the other, are the results in the order they came.
  No batch is empty or larger than the configured size, and fewer results than that stay in the buffer.
\<close>

theorem verifier_batches_all:
  assumes "0 < batchSizeCutoff"
  shows "\<exists>s. runCutoff batchSizeCutoff events \<lparr>outputBuffer = [], batches_out = []\<rparr> = Some s \<and>
    concat (batches_out s) @ outputBuffer s = concat (map event_status events) \<and>
    (\<forall>b \<in> set (batches_out s). b \<noteq> [] \<and> length b \<le> batchSizeCutoff) \<and> length (outputBuffer s) < batchSizeCutoff"
proof -
  have "\<exists>s'. runCutoff batchSizeCutoff events s = Some s' \<and>
      cutoff_contents s' = cutoff_contents s @ concat (map event_status events) \<and>
      batches_ok batchSizeCutoff s' \<and> length (outputBuffer s') < batchSizeCutoff"
    if "batches_ok batchSizeCutoff s" "length (outputBuffer s) < batchSizeCutoff" for s
    using that
  proof (induction events arbitrary: s)
    case (Cons e es)
    from handleCutoff_ok [OF assms Cons.prems, of e] Cons.IH show ?case by fastforce
  qed simp
  from this [of "\<lparr>outputBuffer = [], batches_out = []\<rparr>"] assms show ?thesis
    by (simp add: batches_ok_def cutoff_contents_def)
qed

theorem verifier_batches_all_witness:
  "\<exists>s. runCutoff 1 [CutTimeout] \<lparr>outputBuffer = [], batches_out = []\<rparr> = Some s \<and>
    concat (batches_out s) @ outputBuffer s = concat (map event_status [CutTimeout]) \<and>
    (\<forall>b \<in> set (batches_out s). b \<noteq> [] \<and> length b \<le> 1) \<and> length (outputBuffer s) < 1"
  by (rule verifier_batches_all) simp

section \<open>What is verified\<close>

text \<open>A namespace passes: it is the configuration, or it has a verifier that accepts it.\<close>

definition ns_accepted :: "('b, 'd) fabric \<Rightarrow> (string, NsVerifier) gomap \<Rightarrow> string \<Rightarrow> Tx \<Rightarrow> nat \<Rightarrow> bool" where
  "ns_accepted fb verifiers txID tx i \<longleftrightarrow>
     ns_id (tx_namespaces tx ! i) = ConfigNamespaceID \<or>
     (\<exists>v. map_of verifiers (ns_id (tx_namespaces tx ! i)) = Some v \<and> VerifyNs fb v txID tx i = None)"

lemma verifyNamespaces_iff:
  assumes "drop k (tx_namespaces tx) = nss" "k \<le> length (tx_namespaces tx)"
    and "verifyNamespaces fb verifiers txID tx k nss = Inr st"
  shows "st \<in> {COMMITTED, ABORTED_SIGNATURE_INVALID} \<and>
    (st = COMMITTED \<longleftrightarrow> (\<forall>i. k \<le> i \<and> i < length (tx_namespaces tx) \<longrightarrow> ns_accepted fb verifiers txID tx i))"
  using assms
proof (induction nss arbitrary: k)
  case Nil
  then show ?case by auto
next
  case (Cons ns nss)
  have k: "k < length (tx_namespaces tx)" using Cons.prems(1) by (metis drop_eq_Nil list.simps(3) not_le)
  have n: "tx_namespaces tx ! k = ns" "drop (Suc k) (tx_namespaces tx) = nss"
    using Cons.prems(1) k by (simp_all add: Cons_nth_drop_Suc [symmetric])
  have split: "(\<forall>i. k \<le> i \<and> i < length (tx_namespaces tx) \<longrightarrow> ns_accepted fb verifiers txID tx i) \<longleftrightarrow>
      ns_accepted fb verifiers txID tx k \<and>
      (\<forall>i. Suc k \<le> i \<and> i < length (tx_namespaces tx) \<longrightarrow> ns_accepted fb verifiers txID tx i)"
    using k by (metis Suc_leD le_antisym not_less_eq_eq)
  show ?case
  proof (cases "ns_accepted fb verifiers txID tx k")
    case True
    then have "verifyNamespaces fb verifiers txID tx (Suc k) nss = Inr st"
      using Cons.prems(3) n(1) by (auto simp: ns_accepted_def split: if_splits)
    from Cons.IH [OF n(2) _ this] True k show ?thesis unfolding split by auto
  next
    case False
    then have "st = ABORTED_SIGNATURE_INVALID"
      using Cons.prems(3) n(1) by (auto simp: ns_accepted_def split: if_splits option.splits)
    with False show ?thesis unfolding split by simp
  qed
qed

text \<open>
  C23: The answer to a verification request carries the reference of the transaction, and is
  \<open>COMMITTED\<close> exactly when every namespace that is not the configuration has a verifier that accepts its
  endorsements, and \<open>ABORTED_SIGNATURE_INVALID\<close> otherwise.
\<close>

theorem verify_request_decides:
  assumes "verifyRequest fb v tx = Inr st"
  shows "st_ref st = twr_ref tx \<and>
    st_status st = (if \<forall>i < length (tx_namespaces (twr_content tx)).
        ns_accepted fb (vf_verifiers v) (ref_tx_id (twr_ref tx)) (twr_content tx) i
      then COMMITTED else ABORTED_SIGNATURE_INVALID)"
proof -
  obtain s where s: "verifyNamespaces fb (vf_verifiers v) (ref_tx_id (twr_ref tx)) (twr_content tx) 0
      (tx_namespaces (twr_content tx)) = Inr s" "st = \<lparr>st_ref = twr_ref tx, st_status = s\<rparr>"
    using assms by (auto simp: verifyRequest_def split: sum.splits)
  from verifyNamespaces_iff [OF _ _ s(1)] show ?thesis by (auto simp: s(2))
qed

section \<open>The effect of an update\<close>

text \<open>The verifier an update sets for a namespace, before those in force are carried over.\<close>

definition updated_verifier :: "wire \<Rightarrow> ('b, 'd) fabric \<Rightarrow> VerifierUpdates \<Rightarrow> 'b option \<Rightarrow> string \<Rightarrow> NsVerifier option" where
  "updated_verifier w fb u bundle k =
     (case (case vu_policies u of None \<Rightarrow> None | Some pds \<Rightarrow> map_of (rev (map (\<lambda>pd. (pi_namespace pd, pd)) pds)) k) of
        Some pd \<Rightarrow>
          (case CreateNamespaceVerifier w fb pd (MSPManager fb bundle) of Inl e \<Rightarrow> None | Inr v \<Rightarrow> Some v)
      | None \<Rightarrow>
          (case (bundle, if vu_config u = None then None else map_of SystemNamespacePolicies k) of
             (Some b, Some path) \<Rightarrow> map_option ChannelPolicyVerifier (GetPolicy fb b path)
           | _ \<Rightarrow> None))"

lemma loop_createPolicyVerifier:
  assumes "loop_err (createPolicyVerifier w fb d) pds m = Inr m'"
  shows "map_of m' k =
    (case map_of (rev (map (\<lambda>pd. (pi_namespace pd, pd)) pds)) k of
       Some pd \<Rightarrow> (case CreateNamespaceVerifier w fb pd d of Inl e \<Rightarrow> None | Inr v \<Rightarrow> Some v)
     | None \<Rightarrow> map_of m k)"
  using assms
proof (induction pds arbitrary: m)
  case (Cons pd pds)
  obtain v where v: "CreateNamespaceVerifier w fb pd d = Inr v"
      "loop_err (createPolicyVerifier w fb d) pds (go_put (pi_namespace pd) v m) = Inr m'"
    using Cons.prems unfolding loop_err_Cons_Inr by (auto simp: createPolicyVerifier_def [of w fb d pd] split: sum.splits)
  from Cons.IH [OF v(2)] v(1) show ?case
    by (auto simp: map_add_def split: option.splits)
qed simp

lemma createSystemVerifier_Inr:
  "createSystemVerifier fb bd (nsID, path) m = Inr m1 \<longleftrightarrow>
     (\<exists>b p. bd = Some b \<and> GetPolicy fb b path = Some p \<and> m1 = go_put nsID (ChannelPolicyVerifier p) m)"
  by (auto simp: createSystemVerifier_def ParseChannelPolicy_def split: option.splits)

lemma loop_createSystemVerifier:
  assumes "loop_err (createSystemVerifier fb bundle) snps m = Inr m'" "distinct (map fst snps)"
  shows "map_of m' k =
    (case (bundle, map_of snps k) of
       (Some b, Some path) \<Rightarrow> map_option ChannelPolicyVerifier (GetPolicy fb b path)
     | (None, Some path) \<Rightarrow> None
     | (_, None) \<Rightarrow> map_of m k)"
  using assms
proof (induction snps arbitrary: m)
  case (Cons x snps)
  obtain nsID path where x: "x = (nsID, path)" by (cases x)
  obtain b p where b: "bundle = Some b" "GetPolicy fb b path = Some p"
      "loop_err (createSystemVerifier fb bundle) snps (go_put nsID (ChannelPolicyVerifier p) m) = Inr m'"
    using Cons.prems(1) unfolding loop_err_Cons_Inr x createSystemVerifier_Inr by blast
  have "map_of snps nsID = None" using Cons.prems(2) by (auto simp: x map_of_eq_None_iff)
  with Cons.IH [OF b(3)] Cons.prems(2) b(1,2) show ?case
    by (auto simp: x split: option.splits)
qed (simp split: option.splits)

lemma createVerifiers_ok:
  assumes "createVerifiers w fb u bundle = Inr m"
  shows "map_of m k = updated_verifier w fb u bundle k"
proof -
  obtain m0 where m0: "(if vu_config u \<noteq> None then loop_err (createSystemVerifier fb bundle) SystemNamespacePolicies []
      else Inr []) = Inr m0"
    using assms by (auto simp: createVerifiers_def Let_def split: sum.splits)
  have d: "distinct (map fst SystemNamespacePolicies)" by (simp add: SystemNamespacePolicies_def)
  have "map_of m0 k = (case (bundle, if vu_config u = None then None else map_of SystemNamespacePolicies k) of
      (Some b, Some path) \<Rightarrow> map_option ChannelPolicyVerifier (GetPolicy fb b path) | _ \<Rightarrow> None)"
    using m0 loop_createSystemVerifier [OF _ d, of fb "bundle" "[]" m0 k] by (auto split: if_splits option.splits)
  moreover have "map_of m k =
      (case (case vu_policies u of None \<Rightarrow> None | Some pds \<Rightarrow> map_of (rev (map (\<lambda>pd. (pi_namespace pd, pd)) pds)) k) of
        Some pd \<Rightarrow> (case CreateNamespaceVerifier w fb pd (MSPManager fb bundle) of Inl e \<Rightarrow> None | Inr v \<Rightarrow> Some v)
      | None \<Rightarrow> map_of m0 k)"
    using assms m0 loop_createPolicyVerifier [of w fb "MSPManager fb bundle" _ m0 m k]
    by (auto simp: createVerifiers_def Let_def split: option.splits)
  ultimately show ?thesis by (simp only: updated_verifier_def)
qed

text \<open>The verifier that is carried over.\<close>

definition refreshed :: "('b, 'd) fabric \<Rightarrow> bool \<Rightarrow> 'd option \<Rightarrow> NsVerifier \<Rightarrow> NsVerifier option" where
  "refreshed fb isConfig msp v =
     (if isConfig then (case UpdateIdentities fb msp v of Inl e \<Rightarrow> None | Inr nv \<Rightarrow> Some nv) else Some v)"

lemma retainVerifiers_ok:
  assumes "retainVerifiers fb c msp rest newV cur = (None, newV', cur')" "distinct (map fst rest)"
  shows "map_of newV' k =
    (case map_of newV k of Some v \<Rightarrow> Some v | None \<Rightarrow> Option.bind (map_of rest k) (refreshed fb c msp)) \<and>
    (map_of rest k \<noteq> None \<longrightarrow> map_of newV' k \<noteq> None)"
  using assms
proof (induction rest arbitrary: newV cur)
  case Nil
  then show ?case by (simp split: option.splits)
next
  case (Cons x rest)
  obtain n v where x: "x = (n, v)" by (cases x)
  have no: "map_of rest n = None" using Cons.prems(2) by (auto simp: x map_of_eq_None_iff)
  show ?case
  proof (cases "map_of newV n")
    case None
    then obtain nv cur1 where nv: "refreshed fb c msp v = Some nv"
        "retainVerifiers fb c msp rest (go_put n nv newV) cur1 = (None, newV', cur')"
      using Cons.prems(1) by (auto simp: x refreshed_def split: if_splits sum.splits)
    from Cons.IH [OF nv(2)] Cons.prems(2) None nv(1) no show ?thesis
      by (auto simp: x split: option.splits)
  next
    case (Some v')
    then have "retainVerifiers fb c msp rest newV cur = (None, newV', cur')"
      using Cons.prems(1) by (simp add: x)
    from Cons.IH [OF this] Cons.prems(2) Some show ?thesis by (auto simp: x split: option.splits)
  qed
qed

lemma updatePolicies_ok:
  assumes "updatePolicies w fb (Some u) v = (None, v')" "wf_gomap (vf_verifiers v)"
    and "vu_config u \<noteq> None \<or> vu_policies u \<noteq> None"
  shows "map_of (vf_verifiers v') k =
      (case updated_verifier w fb u (vf_bundle v') k of
         Some nv \<Rightarrow> Some nv
       | None \<Rightarrow> Option.bind (map_of (vf_verifiers v) k)
                   (refreshed fb (vu_config u \<noteq> None) (MSPManager fb (vf_bundle v'))))"
    and "map_of (vf_verifiers v) k \<noteq> None \<longrightarrow> map_of (vf_verifiers v') k \<noteq> None"
proof -
  obtain v1 m newV cur where 1: "updateBundle fb u v = Inr v1" "createVerifiers w fb u (vf_bundle v1) = Inr m"
      "retainVerifiers fb (vu_config u \<noteq> None) (MSPManager fb (vf_bundle v1)) (vf_verifiers v1) m (vf_verifiers v1) =
        (None, newV, cur)" "v' = v1\<lparr>vf_verifiers := newV\<rparr>"
    using assms(1,3) by (auto simp: updatePolicies_def split: sum.splits prod.splits option.splits if_splits)
  have v1: "vf_verifiers v1 = vf_verifiers v"
    using 1(1) by (auto simp: updateBundle_def split: option.splits)
  have d: "distinct (map fst (vf_verifiers v))" using assms(2) by (simp add: wf_gomap_def)
  note r = retainVerifiers_ok [OF 1(3) [unfolded v1] d, of k, unfolded createVerifiers_ok [OF 1(2)]]
  have b: "vf_bundle v' = vf_bundle v1" "vf_verifiers v' = newV" by (simp_all add: 1(4))
  show "map_of (vf_verifiers v') k =
      (case updated_verifier w fb u (vf_bundle v') k of
         Some nv \<Rightarrow> Some nv
       | None \<Rightarrow> Option.bind (map_of (vf_verifiers v) k)
                   (refreshed fb (vu_config u \<noteq> None) (MSPManager fb (vf_bundle v'))))"
    and "map_of (vf_verifiers v) k \<noteq> None \<longrightarrow> map_of (vf_verifiers v') k \<noteq> None"
    using r unfolding b by blast+
qed

text \<open>
  C24: After an update of the policies that succeeds, a namespace that the update names has the verifier of
  its last policy in the update, a system namespace that of the new configuration, and every other
  namespace the verifier it had, with the identities of the new configuration if there is one. No
  namespace loses its verifier.
\<close>

theorem update_policies_effect:
  assumes "updatePolicies w fb (Some u) v = (None, v')" "wf_gomap (vf_verifiers v)"
    and "vu_config u \<noteq> None \<or> vu_policies u \<noteq> None"
  shows "map_of (vf_verifiers v') k =
      (case updated_verifier w fb u (vf_bundle v') k of
         Some nv \<Rightarrow> Some nv
       | None \<Rightarrow> Option.bind (map_of (vf_verifiers v) k)
                   (refreshed fb (vu_config u \<noteq> None) (MSPManager fb (vf_bundle v')))) \<and>
    (map_of (vf_verifiers v) k \<noteq> None \<longrightarrow> map_of (vf_verifiers v') k \<noteq> None)"
  using updatePolicies_ok [OF assms] by blast

section \<open>Two policies that stop the verifier\<close>


text \<open>
  C27: A policy with the scheme \<open>EDDSA\<close> and a key that does not have 32 bytes is accepted for a namespace
  with a valid identifier, and every transaction of that namespace that carries an endorsement then makes
  the verifier panic.
\<close>

theorem eddsa_key_length_unchecked:
  assumes "\<not> IsSystemNamespace w ns" "ValidateNamespaceID ns = None"
    and "UnmarshalPolicy fb raw = Some (ThresholdRule ''EDDSA'' key)" "length key \<noteq> 32"
    and "tx_namespaces (twr_content tx) = [n]" "ns_id n = ns" "ns \<noteq> ConfigNamespaceID"
    and "tx_endorsements (twr_content tx) = [Some (Some e # es)]"
    and "ASN1Marshal fb (ref_tx_id (twr_ref tx)) (tx_metadata (twr_content tx)) n = Some content"
  shows "\<exists>nv. CreateNamespaceVerifier w fb \<lparr>pi_namespace = ns, pi_policy = raw\<rparr> d = Inr nv \<and>
    (\<forall>v. map_of (vf_verifiers v) ns = Some nv \<longrightarrow> verifyRequest fb v tx = Inl BadKeyLength)"
proof -
  have "ToUpper ''EDDSA'' = ''EDDSA''" by code_simp
  then have "CreateNamespaceVerifier w fb \<lparr>pi_namespace = ns, pi_policy = raw\<rparr> d = Inr (KeyVerifier (EdDSAVerifier key))"
    using assms(1-3) by (simp add: CreateNamespaceVerifier_def validateNamespaceIDInPolicy_def NewNsVerifier_def
        NewNsVerifierFromKey_def)
  moreover have "verifyRequest fb v tx = Inl BadKeyLength"
    if "map_of (vf_verifiers v) ns = Some (KeyVerifier (EdDSAVerifier key))" for v
    using that assms(4-9) by (simp add: verifyRequest_def VerifyNs_def Verify_def verifyDigest_def is_panic_def)
  ultimately show ?thesis by blast
qed

section \<open>An instance\<close>

definition ref_fabric :: "(bytes, unit) fabric" where
  "ref_fabric =
     \<lparr>UnmarshalPolicy = \<lambda>b. (case b of
          [] \<Rightarrow> Some NoRule
        | c # r \<Rightarrow> if c = CHR ''N'' then Some (ThresholdRule ''NONE'' r)
                   else if c = CHR ''D'' then Some (ThresholdRule ''EDDSA'' r) else Some (MspRule r)),
      NewBundle = \<lambda>b. if b = [] then None else Some b,
      GetPolicy = \<lambda>b path. Some (\<lambda>sds. sds \<noteq> []),
      MSPManager = \<lambda>b. Some (),
      NewPolicy = \<lambda>d r. if r = [] then None else Some (\<lambda>sds. sds \<noteq> []),
      ASN1Marshal = \<lambda>i m n. Some (i @ m),
      Sum256 = \<lambda>b. b,
      NewEcdsaVerifier = \<lambda>k. if k = [] then None else Some (\<lambda>d s. s = k),
      NewBLSVerifier = \<lambda>k. if k = [] then None else Some (\<lambda>d s. s = k),
      VerifyEd25519 = \<lambda>k d s. s = k\<rparr>"

definition demo_signed_tx :: "string \<Rightarrow> TxWithRef" where
  "demo_signed_tx ns =
     \<lparr>twr_ref = \<lparr>ref_block_num = 1, ref_tx_id = ''t'', ref_tx_num = 0\<rparr>,
      twr_content = \<lparr>tx_namespaces = [\<lparr>ns_id = ns, ns_version = 0, ns_reads_only = [], ns_read_writes = [],
                                     ns_blind_writes = [\<lparr>w_key = ''k'', w_value = ''v''\<rparr>]\<rparr>],
                     tx_endorsements = [Some [Some \<lparr>ei_endorsement = ''s'', ei_identity = Some ''i''\<rparr>]],
                     tx_metadata = []\<rparr>\<rparr>"

definition demo_verifier :: "bytes verifier" where
  "demo_verifier = \<lparr>vf_verifiers = [(''a'', NilVerifier), (''b'', ChannelPolicyVerifier (\<lambda>sds. sds \<noteq> []))], vf_bundle = Some ''c''\<rparr>"

theorem verify_request_decides_witness:
  "st_status \<lparr>st_ref = twr_ref (demo_signed_tx ''b''), st_status = COMMITTED\<rparr> =
    (if \<forall>i < length (tx_namespaces (twr_content (demo_signed_tx ''b''))).
        ns_accepted ref_fabric (vf_verifiers demo_verifier) ''t'' (twr_content (demo_signed_tx ''b'')) i
     then COMMITTED else ABORTED_SIGNATURE_INVALID)"
proof -
  have "verifyRequest ref_fabric demo_verifier (demo_signed_tx ''b'') =
      Inr \<lparr>st_ref = twr_ref (demo_signed_tx ''b''), st_status = COMMITTED\<rparr>"
    by (simp add: verifyRequest_def demo_signed_tx_def demo_verifier_def VerifyNs_def Verify_def
        evaluateEndorsements_def ref_fabric_def ConfigNamespaceID_def)
  from verify_request_decides [OF this] show ?thesis by (simp add: demo_signed_tx_def)
qed

theorem update_policies_effect_witness:
  "map_of (vf_verifiers (snd (updatePolicies ref_wire ref_fabric
     (Some \<lparr>vu_config = None, vu_policies = Some [\<lparr>pi_namespace = ''x'', pi_policy = ''N''\<rparr>]\<rparr>) demo_verifier))) ''b'' \<noteq> None"
proof -
  let ?u = "\<lparr>vu_config = None, vu_policies = Some [\<lparr>pi_namespace = ''x'', pi_policy = ''N''\<rparr>]\<rparr>"
  have "fst (updatePolicies ref_wire ref_fabric (Some ?u) demo_verifier) = None" by code_simp
  then have e: "updatePolicies ref_wire ref_fabric (Some ?u) demo_verifier =
      (None, snd (updatePolicies ref_wire ref_fabric (Some ?u) demo_verifier))"
    by (metis prod.collapse)
  have p: "wf_gomap (vf_verifiers demo_verifier)" "vu_config ?u \<noteq> None \<or> vu_policies ?u \<noteq> None"
      "map_of (vf_verifiers demo_verifier) ''b'' \<noteq> None"
    by (simp_all add: wf_gomap_def demo_verifier_def)
  show ?thesis by (rule update_policies_effect [OF e p(1,2), THEN conjunct2, THEN mp, OF p(3)])
qed


theorem eddsa_key_length_unchecked_witness:
  "\<exists>nv. CreateNamespaceVerifier ref_wire ref_fabric \<lparr>pi_namespace = ''x'', pi_policy = ''Dkey''\<rparr> None = Inr nv \<and>
    (\<forall>v. map_of (vf_verifiers v) ''x'' = Some nv \<longrightarrow>
       verifyRequest ref_fabric v (demo_signed_tx ''x'') = Inl BadKeyLength)"
proof (rule eddsa_key_length_unchecked [where key = "''key''"])
  show "\<not> IsSystemNamespace ref_wire ''x''" by code_simp
  show "ValidateNamespaceID ''x'' = None" by code_simp
qed (simp add: ref_fabric_def demo_signed_tx_def ConfigNamespaceID_def; fail)+

end
