(* ===== verification/Envelope.thy ===== *)
theory Envelope
  imports Wire_Instance
begin

text \<open>
  \<open>utils/serialization/envelope.go\<close>: extraction of the few fields the committer needs from a
  serialized envelope by walking the protobuf wire format, next to the extraction by full
  unmarshalling. The package \<open>protowire\<close> and the unmarshalling functions of \<open>protoutil\<close> are arguments;
  the laws relate what they consume to what the wire format appends. The scan for a field is a loop
  that ends only when every value consumes at least its tag, so it is a partial function whose value
  \<open>None\<close> is an endless loop.
\<close>

section \<open>UTF-8\<close>

definition cont_byte :: "nat \<Rightarrow> bool" where
  "cont_byte b \<longleftrightarrow> 128 \<le> b \<and> b < 192"

text \<open>\<open>utf8.Valid\<close>: no overlong forms, no surrogates, nothing above U+10FFFF.\<close>

fun utf8_valid_nat :: "nat list \<Rightarrow> bool" where
  "utf8_valid_nat [] = True"
| "utf8_valid_nat (a # bs) =
     (if a < 128 then utf8_valid_nat bs
      else if 194 \<le> a \<and> a < 224 then
        (case bs of b # r \<Rightarrow> cont_byte b \<and> utf8_valid_nat r | _ \<Rightarrow> False)
      else if 224 \<le> a \<and> a < 240 then
        (case bs of b # c # r \<Rightarrow>
           cont_byte b \<and> cont_byte c \<and> (a = 224 \<longrightarrow> 160 \<le> b) \<and> (a = 237 \<longrightarrow> b < 160) \<and> utf8_valid_nat r
         | _ \<Rightarrow> False)
      else if 240 \<le> a \<and> a < 245 then
        (case bs of b # c # d # r \<Rightarrow>
           cont_byte b \<and> cont_byte c \<and> cont_byte d \<and> (a = 240 \<longrightarrow> 144 \<le> b) \<and> (a = 244 \<longrightarrow> b < 144) \<and>
           utf8_valid_nat r
         | _ \<Rightarrow> False)
      else False)"

definition utf8_valid :: "bytes \<Rightarrow> bool" where
  "utf8_valid bs \<longleftrightarrow> utf8_valid_nat (map of_char bs)"

section \<open>The wire format\<close>

datatype wire_type = VarintType | Fixed64Type | BytesType | StartGroupType | EndGroupType | Fixed32Type

text \<open>
  A \<open>Consume\<close> function returns the number of bytes it read, or a negative number. The \<open>Append\<close>
  functions are what a marshaller emits.
\<close>

record protowire =
  ConsumeTag :: "bytes \<Rightarrow> nat \<times> wire_type \<times> int"
  ConsumeFieldValue :: "nat \<Rightarrow> wire_type \<Rightarrow> bytes \<Rightarrow> int"
  ConsumeBytes :: "bytes \<Rightarrow> bytes \<times> int"
  ConsumeVarint :: "bytes \<Rightarrow> u64 \<times> int"
  AppendTag :: "nat \<Rightarrow> wire_type \<Rightarrow> bytes"
  AppendBytes :: "bytes \<Rightarrow> bytes"
  AppendVarint :: "u64 \<Rightarrow> bytes"

text \<open>On success at least one byte of a tag is consumed, and never more than there are.\<close>

definition consume_law :: "protowire \<Rightarrow> bool" where
  "consume_law pw \<longleftrightarrow>
     (\<forall>b. let n = snd (snd (ConsumeTag pw b)) in n \<noteq> 0 \<and> n \<le> int (length b)) \<and>
     (\<forall>num wt b. ConsumeFieldValue pw num wt b \<le> int (length b))"

text \<open>Consuming what was appended returns it and its length.\<close>

definition append_law :: "protowire \<Rightarrow> bool" where
  "append_law pw \<longleftrightarrow>
     (\<forall>num wt r. ConsumeTag pw (AppendTag pw num wt @ r) = (num, wt, int (length (AppendTag pw num wt)))) \<and>
     (\<forall>v r. ConsumeBytes pw (AppendBytes pw v @ r) = (v, int (length (AppendBytes pw v)))) \<and>
     (\<forall>v r. ConsumeVarint pw (AppendVarint pw v @ r) = (v, int (length (AppendVarint pw v)))) \<and>
     (\<forall>num v r. ConsumeFieldValue pw num BytesType (AppendBytes pw v @ r) = int (length (AppendBytes pw v))) \<and>
     (\<forall>num v r. ConsumeFieldValue pw num VarintType (AppendVarint pw v @ r) = int (length (AppendVarint pw v)))"

section \<open>Extraction of fields\<close>

datatype envelope_error =
    InvalidTag | InvalidFieldValue | InvalidBytes | InvalidVarint | InvalidUTF8 | SliceOutOfRange
  | BadEnvelope | NilEnvelope | BadPayload | NilHeader | BadChannelHeader

text \<open>\<open>Inr None\<close> is the nil slice of an absent field.\<close>

partial_function (option) findField :: "protowire \<Rightarrow> nat \<Rightarrow> wire_type \<Rightarrow> bytes
    \<Rightarrow> (envelope_error + bytes option) option" where
  "findField pw targetField targetType b =
     (if b = [] then Some (Inr None)
      else let num = fst (ConsumeTag pw b);
               wtype = fst (snd (ConsumeTag pw b));
               n = snd (snd (ConsumeTag pw b))
           in if n < 0 then Some (Inl InvalidTag)
              else if n > int (length b) then Some (Inl SliceOutOfRange)
              else let b1 = drop (nat n) b
                   in if num = targetField \<and> wtype = targetType then Some (Inr (Some b1))
                      else let vn = ConsumeFieldValue pw num wtype b1
                           in if vn < 0 then Some (Inl InvalidFieldValue)
                              else if vn > int (length b1) then Some (Inl SliceOutOfRange)
                              else findField pw targetField targetType (drop (nat vn) b1))"

declare findField.simps [code]

definition extractBytesField :: "protowire \<Rightarrow> bytes \<Rightarrow> nat \<Rightarrow> (envelope_error + bytes) option" where
  "extractBytesField pw b targetField =
     (case findField pw targetField BytesType b of
        None \<Rightarrow> None
      | Some (Inl e) \<Rightarrow> Some (Inl e)
      | Some (Inr None) \<Rightarrow> Some (Inr [])
      | Some (Inr (Some b1)) \<Rightarrow>
          (let (val, vn) = ConsumeBytes pw b1 in if vn < 0 then Some (Inl InvalidBytes) else Some (Inr val)))"

definition extractVarintField :: "protowire \<Rightarrow> bytes \<Rightarrow> nat \<Rightarrow> (envelope_error + u64) option" where
  "extractVarintField pw b targetField =
     (case findField pw targetField VarintType b of
        None \<Rightarrow> None
      | Some (Inl e) \<Rightarrow> Some (Inl e)
      | Some (Inr None) \<Rightarrow> Some (Inr 0)
      | Some (Inr (Some b1)) \<Rightarrow>
          (let (v, vn) = ConsumeVarint pw b1 in if vn < 0 then Some (Inl InvalidVarint) else Some (Inr v)))"

definition extractStringField :: "protowire \<Rightarrow> bytes \<Rightarrow> nat \<Rightarrow> (envelope_error + string) option" where
  "extractStringField pw b targetField =
     (case extractBytesField pw b targetField of
        None \<Rightarrow> None
      | Some (Inl e) \<Rightarrow> Some (Inl e)
      | Some (Inr val) \<Rightarrow> if \<not> utf8_valid val then Some (Inl InvalidUTF8) else Some (Inr val))"

record EnvelopeLite =
  el_HeaderType :: int
  el_TxID :: string
  el_Data :: bytes

text \<open>A chain of steps, each of which may fail or not return.\<close>

definition andThen :: "('e + 'a) option \<Rightarrow> ('a \<Rightarrow> ('e + 'b) option) \<Rightarrow> ('e + 'b) option" where
  "andThen x f = (case x of None \<Rightarrow> None | Some (Inl e) \<Rightarrow> Some (Inl e) | Some (Inr a) \<Rightarrow> f a)"

lemma andThen_simps [simp]:
  "andThen None f = None" "andThen (Some (Inl e)) f = Some (Inl e)" "andThen (Some (Inr a)) f = f a"
  by (simp_all add: andThen_def)

definition UnwrapEnvelopeLite :: "protowire \<Rightarrow> bytes \<Rightarrow> (envelope_error + EnvelopeLite) option" where
  "UnwrapEnvelopeLite pw message =
     andThen (extractBytesField pw message 1) (\<lambda>payloadBytes.
     andThen (extractBytesField pw payloadBytes 1) (\<lambda>headerBytes.
     andThen (extractBytesField pw payloadBytes 2) (\<lambda>dataBytes.
     andThen (extractBytesField pw headerBytes 1) (\<lambda>channelHeaderBytes.
     andThen (extractVarintField pw channelHeaderBytes 1) (\<lambda>headerTypeVal.
     andThen (extractStringField pw channelHeaderBytes 5) (\<lambda>txID.
       Some (Inr \<lparr>el_HeaderType = sint (ucast headerTypeVal :: u32), el_TxID = txID, el_Data = dataBytes\<rparr>)))))))"

section \<open>Extraction by unmarshalling\<close>

record Payload =
  pl_header :: "bytes option"
  pl_data :: bytes

record ChannelHeader =
  ch_Type :: int
  ch_TxId :: string

text \<open>
  \<open>UnmarshalEnvelope\<close> returns the payload bytes of the envelope, \<open>UnmarshalPayload\<close> the bytes of the
  channel header of its header, if there is a header, and its data. \<open>None\<close> is an error.
\<close>

record protoutil =
  UnmarshalEnvelope :: "bytes \<Rightarrow> bytes option"
  UnmarshalPayload :: "bytes \<Rightarrow> Payload option"
  UnmarshalChannelHeader :: "bytes \<Rightarrow> ChannelHeader option"

text \<open>The envelope is a pointer, here to its payload bytes.\<close>

definition ParseEnvelope :: "protoutil \<Rightarrow> bytes option \<Rightarrow> envelope_error + Payload \<times> ChannelHeader" where
  "ParseEnvelope pu envelope =
     (case envelope of
        None \<Rightarrow> Inl NilEnvelope
      | Some payloadBytes \<Rightarrow>
          (case UnmarshalPayload pu payloadBytes of
             None \<Rightarrow> Inl BadPayload
           | Some payload \<Rightarrow>
               (case pl_header payload of
                  None \<Rightarrow> Inl NilHeader
                | Some chBytes \<Rightarrow>
                    (case UnmarshalChannelHeader pu chBytes of
                       None \<Rightarrow> Inl BadChannelHeader
                     | Some channelHdr \<Rightarrow> Inr (payload, channelHdr)))))"

definition UnwrapEnvelope :: "protoutil \<Rightarrow> bytes \<Rightarrow> envelope_error + bytes \<times> ChannelHeader" where
  "UnwrapEnvelope pu message =
     (case UnmarshalEnvelope pu message of
        None \<Rightarrow> Inl BadEnvelope
      | Some payloadBytes \<Rightarrow>
          (case ParseEnvelope pu (Some payloadBytes) of
             Inl e \<Rightarrow> Inl e
           | Inr (payload, channelHdr) \<Rightarrow> Inr (pl_data payload, channelHdr)))"

section \<open>The scan ends\<close>

lemma findField_step:
  assumes "consume_law pw" "b \<noteq> []"
  shows "findField pw f t b =
    (let num = fst (ConsumeTag pw b); wt = fst (snd (ConsumeTag pw b)); n = snd (snd (ConsumeTag pw b));
         b1 = drop (nat n) b; vn = ConsumeFieldValue pw num wt b1
     in if n < 0 then Some (Inl InvalidTag)
        else if num = f \<and> wt = t then Some (Inr (Some b1))
        else if vn < 0 then Some (Inl InvalidFieldValue)
        else findField pw f t (drop (nat vn) b1))"
proof -
  have *: "(snd (snd (ConsumeTag pw b)) > int (length b)) = False"
    "\<And>num wt b. (ConsumeFieldValue pw num wt b > int (length b)) = False"
    using assms(1) by (auto simp: consume_law_def Let_def not_less)
  show ?thesis
    by (subst findField.simps) (simp only: Let_def * assms(2) if_False)
qed

lemma findField_Nil [simp]: "findField pw f t [] = Some (Inr None)"
  by (simp add: findField.simps)

lemma findField_returns:
  assumes "consume_law pw"
  shows "\<exists>r. findField pw f t b = Some r \<and> r \<noteq> Inl SliceOutOfRange"
proof (induction b rule: length_induct)
  case (1 b)
  show ?case
  proof (cases "b = []")
    case False
    obtain num wt n where c: "ConsumeTag pw b = (num, wt, n)" by (cases "ConsumeTag pw b") auto
    define b1 where "b1 = drop (nat n) b"
    define b2 where "b2 = drop (nat (ConsumeFieldValue pw num wt b1)) b1"
    have "n \<noteq> 0" using assms c by (auto simp: consume_law_def Let_def dest!: spec [of _ b])
    then have "length b2 < length b" if "\<not> n < 0"
      using that False by (simp add: b2_def b1_def)
    then have r: "\<exists>r. findField pw f t b2 = Some r \<and> r \<noteq> Inl SliceOutOfRange" if "\<not> n < 0"
      using 1 that by blast
    have "findField pw f t b =
      (if n < 0 then Some (Inl InvalidTag)
       else if num = f \<and> wt = t then Some (Inr (Some b1))
       else if ConsumeFieldValue pw num wt b1 < 0 then Some (Inl InvalidFieldValue)
       else findField pw f t b2)"
      using findField_step [OF assms False] by (simp only: c fst_conv snd_conv Let_def b1_def b2_def)
    with r show ?thesis by (cases "n < 0") simp_all
  qed simp
qed

lemma extractBytesField_returns: "consume_law pw \<Longrightarrow> \<exists>r. extractBytesField pw b f = Some r \<and> r \<noteq> Inl SliceOutOfRange"
  using findField_returns [of pw f BytesType b]
  by (auto simp: extractBytesField_def split: sum.splits option.splits prod.splits)

lemma extractVarintField_returns: "consume_law pw \<Longrightarrow> \<exists>r. extractVarintField pw b f = Some r \<and> r \<noteq> Inl SliceOutOfRange"
  using findField_returns [of pw f VarintType b]
  by (auto simp: extractVarintField_def split: sum.splits option.splits prod.splits)

lemma extractStringField_returns: "consume_law pw \<Longrightarrow> \<exists>r. extractStringField pw b f = Some r \<and> r \<noteq> Inl SliceOutOfRange"
  using extractBytesField_returns [of pw b f]
  by (auto simp: extractStringField_def split: sum.splits option.splits)

lemma andThen_returns:
  assumes "\<exists>r. x = Some r \<and> r \<noteq> Inl e" "\<And>a. \<exists>r. f a = Some r \<and> r \<noteq> Inl e"
  shows "\<exists>r. andThen x f = Some r \<and> r \<noteq> Inl e"
proof -
  obtain r where r: "x = Some r" "r \<noteq> Inl e" using assms(1) by blast
  then show ?thesis using assms(2) by (cases r) auto
qed

text \<open>
  C22: Unwrapping an envelope returns on every input, however malformed: the scans end, and no slice is
  taken out of range.
\<close>

theorem unwrap_envelope_lite_returns:
  assumes "consume_law pw"
  shows "\<exists>r. UnwrapEnvelopeLite pw message = Some r \<and> r \<noteq> Inl SliceOutOfRange"
  unfolding UnwrapEnvelopeLite_def
  by (intro andThen_returns extractBytesField_returns extractVarintField_returns extractStringField_returns assms) simp

section \<open>Marshalled messages\<close>

text \<open>A marshalled message is a sequence of fields, each with its number.\<close>

datatype field = VarintField nat u64 | BytesField nat bytes

fun put_field :: "protowire \<Rightarrow> field \<Rightarrow> bytes" where
  "put_field pw (VarintField num v) = AppendTag pw num VarintType @ AppendVarint pw v"
| "put_field pw (BytesField num v) = AppendTag pw num BytesType @ AppendBytes pw v"

definition marshal :: "protowire \<Rightarrow> field list \<Rightarrow> bytes" where
  "marshal pw fs = concat (map (put_field pw) fs)"

fun bytes_field :: "nat \<Rightarrow> field list \<Rightarrow> bytes option" where
  "bytes_field num [] = None"
| "bytes_field num (BytesField n v # fs) = (if n = num then Some v else bytes_field num fs)"
| "bytes_field num (VarintField n v # fs) = bytes_field num fs"

fun varint_field :: "nat \<Rightarrow> field list \<Rightarrow> u64 option" where
  "varint_field num [] = None"
| "varint_field num (VarintField n v # fs) = (if n = num then Some v else varint_field num fs)"
| "varint_field num (BytesField n v # fs) = varint_field num fs"

definition or_zero :: "bytes option \<Rightarrow> bytes" where
  "or_zero o1 = (case o1 of None \<Rightarrow> [] | Some v \<Rightarrow> v)"

lemma or_zero_simps [simp]: "or_zero None = []" "or_zero (Some v) = v"
  by (simp_all add: or_zero_def)

lemma marshal_simps [simp]:
  "marshal pw [] = []" "marshal pw (f # fs) = put_field pw f @ marshal pw fs"
  by (simp_all add: marshal_def)

lemma append_lawD:
  assumes "append_law pw"
  shows "ConsumeTag pw (AppendTag pw num wt @ r) = (num, wt, int (length (AppendTag pw num wt)))"
    "ConsumeBytes pw (AppendBytes pw v @ r) = (v, int (length (AppendBytes pw v)))"
    "ConsumeVarint pw (AppendVarint pw n @ r) = (n, int (length (AppendVarint pw n)))"
    "ConsumeFieldValue pw num BytesType (AppendBytes pw v @ r) = int (length (AppendBytes pw v))"
    "ConsumeFieldValue pw num VarintType (AppendVarint pw n @ r) = int (length (AppendVarint pw n))"
  using assms by (auto simp: append_law_def)

lemma tag_nonempty:
  assumes "consume_law pw" "append_law pw"
  shows "AppendTag pw num wt \<noteq> []"
proof
  assume "AppendTag pw num wt = []"
  then have "snd (snd (ConsumeTag pw [])) = 0"
    using append_lawD(1) [OF assms(2), of num wt "[]"] by simp
  with assms(1) show False by (simp add: consume_law_def Let_def)
qed

lemma findField_put_field:
  assumes "consume_law pw" "append_law pw"
  shows "findField pw f t (put_field pw (VarintField n v) @ r) =
      (if n = f \<and> t = VarintType then Some (Inr (Some (AppendVarint pw v @ r))) else findField pw f t r)"
    and "findField pw f t (put_field pw (BytesField n w) @ r) =
      (if n = f \<and> t = BytesType then Some (Inr (Some (AppendBytes pw w @ r))) else findField pw f t r)"
proof -
  have n: "AppendTag pw n wt @ x \<noteq> []" for wt x
    by (simp add: tag_nonempty [OF assms])
  show "findField pw f t (put_field pw (VarintField n v) @ r) =
      (if n = f \<and> t = VarintType then Some (Inr (Some (AppendVarint pw v @ r))) else findField pw f t r)"
    using findField_step [OF assms(1) n, of f t VarintType "AppendVarint pw v @ r"]
    by (cases "n = f"; cases t) (simp_all add: append_lawD [OF assms(2)] Let_def)
  show "findField pw f t (put_field pw (BytesField n w) @ r) =
      (if n = f \<and> t = BytesType then Some (Inr (Some (AppendBytes pw w @ r))) else findField pw f t r)"
    using findField_step [OF assms(1) n, of f t BytesType "AppendBytes pw w @ r"]
    by (cases "n = f"; cases t) (simp_all add: append_lawD [OF assms(2)] Let_def)
qed

lemma extractBytesField_marshal:
  assumes "consume_law pw" "append_law pw"
  shows "extractBytesField pw (marshal pw fs) f = Some (Inr (or_zero (bytes_field f fs)))"
proof (induction fs)
  case Nil
  then show ?case by (simp add: extractBytesField_def or_zero_def)
next
  case (Cons x fs)
  then show ?case
    by (cases x) (auto simp: extractBytesField_def findField_put_field [OF assms] append_lawD [OF assms(2)] or_zero_def
        simp del: put_field.simps)
qed

lemma extractVarintField_marshal:
  assumes "consume_law pw" "append_law pw"
  shows "extractVarintField pw (marshal pw fs) f = Some (Inr (case varint_field f fs of None \<Rightarrow> 0 | Some v \<Rightarrow> v))"
proof (induction fs)
  case Nil
  then show ?case by (simp add: extractVarintField_def)
next
  case (Cons x fs)
  then show ?case
    by (cases x) (auto simp: extractVarintField_def findField_put_field [OF assms] append_lawD [OF assms(2)]
        simp del: put_field.simps)
qed

section \<open>Agreement with full unmarshalling\<close>

fun field_num :: "field \<Rightarrow> nat" where
  "field_num (VarintField n v) = n"
| "field_num (BytesField n v) = n"

text \<open>
  Unmarshalling a message in which no field is repeated returns, when it succeeds, the values of its
  fields; a string that is not valid UTF-8 is an error.
\<close>

definition unmarshal_law :: "protowire \<Rightarrow> protoutil \<Rightarrow> bool" where
  "unmarshal_law pw pu \<longleftrightarrow>
     (\<forall>fs p. distinct (map field_num fs) \<and> UnmarshalEnvelope pu (marshal pw fs) = Some p \<longrightarrow>
        p = or_zero (bytes_field 1 fs)) \<and>
     (\<forall>fs hs p. distinct (map field_num fs) \<and> distinct (map field_num hs) \<and>
        bytes_field 1 fs = Some (marshal pw hs) \<and> UnmarshalPayload pu (marshal pw fs) = Some p \<longrightarrow>
        p = \<lparr>pl_header = Some (or_zero (bytes_field 1 hs)), pl_data = or_zero (bytes_field 2 fs)\<rparr>) \<and>
     (\<forall>fs c. distinct (map field_num fs) \<and> UnmarshalChannelHeader pu (marshal pw fs) = Some c \<longrightarrow>
        c = \<lparr>ch_Type = sint (ucast (case varint_field 1 fs of None \<Rightarrow> 0 | Some v \<Rightarrow> v) :: u32),
             ch_TxId = or_zero (bytes_field 5 fs)\<rparr> \<and> utf8_valid (or_zero (bytes_field 5 fs)))"

lemma unmarshal_lawD:
  assumes "unmarshal_law pw pu"
  shows "distinct (map field_num fs) \<Longrightarrow> UnmarshalEnvelope pu (marshal pw fs) = Some p \<Longrightarrow>
      p = or_zero (bytes_field 1 fs)"
    and "distinct (map field_num fs) \<Longrightarrow> distinct (map field_num hs) \<Longrightarrow> bytes_field 1 fs = Some (marshal pw hs) \<Longrightarrow>
      UnmarshalPayload pu (marshal pw fs) = Some pl \<Longrightarrow>
      pl = \<lparr>pl_header = Some (or_zero (bytes_field 1 hs)), pl_data = or_zero (bytes_field 2 fs)\<rparr>"
    and "distinct (map field_num fs) \<Longrightarrow> UnmarshalChannelHeader pu (marshal pw fs) = Some c \<Longrightarrow>
      c = \<lparr>ch_Type = sint (ucast (case varint_field 1 fs of None \<Rightarrow> 0 | Some v \<Rightarrow> v) :: u32),
           ch_TxId = or_zero (bytes_field 5 fs)\<rparr> \<and> utf8_valid (or_zero (bytes_field 5 fs))"
  using assms unfolding unmarshal_law_def by blast+

text \<open>
  C21: On an envelope whose messages repeat no field, the wire-format scan returns the header type, the
  transaction ID and the data that full unmarshalling returns.
\<close>

theorem unwrap_envelope_lite_agrees:
  assumes "consume_law pw" "append_law pw" "unmarshal_law pw pu"
    and "distinct (map field_num E)" "distinct (map field_num P)" "distinct (map field_num H)" "distinct (map field_num C)"
    and "or_zero (bytes_field 1 E) = marshal pw P" "bytes_field 1 P = Some (marshal pw H)"
      "or_zero (bytes_field 1 H) = marshal pw C"
    and "UnwrapEnvelope pu (marshal pw E) = Inr (content, channelHdr)"
  shows "UnwrapEnvelopeLite pw (marshal pw E) =
    Some (Inr \<lparr>el_HeaderType = ch_Type channelHdr, el_TxID = ch_TxId channelHdr, el_Data = content\<rparr>)"
proof -
  note law = unmarshal_lawD [OF assms(3)] and ext = extractBytesField_marshal [OF assms(1,2)]
  obtain p pl chb where u: "UnmarshalEnvelope pu (marshal pw E) = Some p" "UnmarshalPayload pu p = Some pl"
      "pl_header pl = Some chb" "UnmarshalChannelHeader pu chb = Some channelHdr" "content = pl_data pl"
    using assms(11) by (auto simp: UnwrapEnvelope_def ParseEnvelope_def split: option.splits)
  have p: "p = marshal pw P" using law(1) [OF assms(4) u(1)] assms(8) by simp
  have pl: "pl = \<lparr>pl_header = Some (marshal pw C), pl_data = or_zero (bytes_field 2 P)\<rparr>"
    using law(2) [OF assms(5,6,9)] u(2) assms(10) p by simp
  have "UnmarshalChannelHeader pu (marshal pw C) = Some channelHdr" using u(3,4) pl by simp
  from law(3) [OF assms(7) this] show ?thesis
    using assms(8-10) u(5) pl
    by (simp add: UnwrapEnvelopeLite_def ext extractVarintField_marshal [OF assms(1,2)] extractStringField_def)
qed

section \<open>An instance\<close>

lemma unleb128_leb128: "unleb128 (leb128 n @ r) = (n, length (leb128 n)) \<and> leb128 n \<noteq> []"
proof (induction n rule: less_induct)
  case (less n)
  show ?case
  proof (cases "n < 128")
    case True
    then show ?thesis by (simp add: leb128.simps)
  next
    case False
    have "of_char (char_of (128 + n mod 128) :: char) = 128 + n mod 128"
      by (simp add: of_char_of)
    moreover have "128 * (n div 128) + n mod 128 = n" by simp
    ultimately show ?thesis
      using False less.IH [of "n div 128"] by (subst (1 2 3) leb128.simps) (simp add: Let_def)
  qed
qed

lemma unleb128_bound: "snd (unleb128 b) \<le> length b"
  by (induction b) (auto simp: Let_def split: prod.splits)

fun wire_number :: "wire_type \<Rightarrow> nat" where
  "wire_number VarintType = 0"
| "wire_number Fixed64Type = 1"
| "wire_number BytesType = 2"
| "wire_number StartGroupType = 3"
| "wire_number EndGroupType = 4"
| "wire_number Fixed32Type = 5"

definition number_wire :: "nat \<Rightarrow> wire_type" where
  "number_wire n = (if n = 0 then VarintType else if n = 1 then Fixed64Type else if n = 2 then BytesType
     else if n = 3 then StartGroupType else if n = 4 then EndGroupType else Fixed32Type)"

definition varint_end :: "bytes \<Rightarrow> int" where
  "varint_end b = (let (v, k) = unleb128 b in if k = 0 then -1 else int k)"

definition bytes_end :: "bytes \<Rightarrow> int" where
  "bytes_end b = (let (v, k) = unleb128 b in if k = 0 \<or> k + v > length b then -1 else int (k + v))"

definition ref_protowire :: protowire where
  "ref_protowire =
     \<lparr>ConsumeTag = \<lambda>b. let (v, k) = unleb128 b in (v div 8, number_wire (v mod 8), varint_end b),
      ConsumeFieldValue = \<lambda>num wt b.
        if wt = VarintType then varint_end b
        else if wt = BytesType then bytes_end b
        else if wt = Fixed64Type \<and> 8 \<le> length b then 8
        else if wt = Fixed32Type \<and> 4 \<le> length b then 4
        else -1,
      ConsumeBytes = \<lambda>b. let (v, k) = unleb128 b in (take v (drop k b), bytes_end b),
      ConsumeVarint = \<lambda>b. let (v, k) = unleb128 b in (word_of_nat v, varint_end b),
      AppendTag = \<lambda>num wt. leb128 (8 * num + wire_number wt),
      AppendBytes = \<lambda>v. leb128 (length v) @ v,
      AppendVarint = \<lambda>v. leb128 (unat v)\<rparr>"

lemma varint_end_bounds: "varint_end b \<noteq> 0 \<and> varint_end b \<le> int (length b)"
proof -
  obtain v k where "unleb128 b = (v, k)" by (cases "unleb128 b")
  then show ?thesis using unleb128_bound [of b] by (simp add: varint_end_def)
qed

lemma bytes_end_bound: "bytes_end b \<le> int (length b)"
proof -
  obtain v k where "unleb128 b = (v, k)" by (cases "unleb128 b")
  then show ?thesis by (simp add: bytes_end_def)
qed

lemma ref_protowire_consume [simp]: "consume_law ref_protowire"
proof -
  have "snd (snd (ConsumeTag ref_protowire b)) = varint_end b" for b
    by (simp add: ref_protowire_def split: prod.split)
  moreover have "ConsumeFieldValue ref_protowire num wt b \<le> int (length b)" for num wt b
    using varint_end_bounds [of b] bytes_end_bound [of b] by (simp add: ref_protowire_def)
  ultimately show ?thesis
    using varint_end_bounds by (simp add: consume_law_def Let_def)
qed

lemma number_wire_tag: "number_wire (wire_number wt mod 8) = wt" "(8 * num + wire_number wt) div 8 = num"
  by (cases wt; simp add: number_wire_def)+

lemma leb128_ends:
  "varint_end (leb128 n @ r) = int (length (leb128 n))"
  "bytes_end (leb128 (length v) @ v @ r) = int (length (leb128 (length v)) + length v)"
  using unleb128_leb128 [of n r] unleb128_leb128 [of "length v" "v @ r"]
  by (simp_all add: varint_end_def bytes_end_def)

lemma ref_protowire_append [simp]: "append_law ref_protowire"
  unfolding append_law_def
proof (intro conjI allI)
  fix num wt r
  show "ConsumeTag ref_protowire (AppendTag ref_protowire num wt @ r) =
    (num, wt, int (length (AppendTag ref_protowire num wt)))"
    using unleb128_leb128 [of "8 * num + wire_number wt" r]
    by (simp add: ref_protowire_def leb128_ends number_wire_tag)
next
  fix v r
  show "ConsumeBytes ref_protowire (AppendBytes ref_protowire v @ r) = (v, int (length (AppendBytes ref_protowire v)))"
    using unleb128_leb128 [of "length v" "v @ r"] by (simp add: ref_protowire_def leb128_ends)
next
  fix v :: u64 and r
  show "ConsumeVarint ref_protowire (AppendVarint ref_protowire v @ r) =
    (v, int (length (AppendVarint ref_protowire v)))"
    using unleb128_leb128 [of "unat v" r] by (simp add: ref_protowire_def leb128_ends)
qed (simp_all add: ref_protowire_def leb128_ends)

text \<open>Unmarshalling by scanning for each field.\<close>

definition ref_bytes :: "bytes \<Rightarrow> nat \<Rightarrow> bytes option" where
  "ref_bytes b num = (case extractBytesField ref_protowire b num of Some (Inr v) \<Rightarrow> Some v | _ \<Rightarrow> None)"

definition ref_protoutil :: protoutil where
  "ref_protoutil =
     \<lparr>UnmarshalEnvelope = \<lambda>b. ref_bytes b 1,
      UnmarshalPayload = \<lambda>b.
        (case (ref_bytes b 1, ref_bytes b 2) of
           (Some h, Some d) \<Rightarrow> map_option (\<lambda>c. \<lparr>pl_header = Some c, pl_data = d\<rparr>) (ref_bytes h 1)
         | _ \<Rightarrow> None),
      UnmarshalChannelHeader = \<lambda>b.
        (case (extractVarintField ref_protowire b 1, extractStringField ref_protowire b 5) of
           (Some (Inr t), Some (Inr i)) \<Rightarrow> Some \<lparr>ch_Type = sint (ucast t :: u32), ch_TxId = i\<rparr>
         | _ \<Rightarrow> None)\<rparr>"

lemma ref_bytes_marshal [simp]: "ref_bytes (marshal ref_protowire fs) n = Some (or_zero (bytes_field n fs))"
  by (simp add: ref_bytes_def extractBytesField_marshal)

lemma ref_unmarshal_law [simp]: "unmarshal_law ref_protowire ref_protoutil"
  by (auto simp: unmarshal_law_def ref_protoutil_def extractVarintField_marshal extractStringField_def
      extractBytesField_marshal or_zero_def split: if_splits)

text \<open>The example of the source: type 3, transaction \<open>tx1\<close>, data \<open>hello\<close>.\<close>

definition demo_channel :: "field list" where
  "demo_channel = [VarintField 1 3, BytesField 5 ''tx1'']"

definition demo_header :: "field list" where
  "demo_header = [BytesField 1 (marshal ref_protowire demo_channel)]"

definition demo_payload :: "field list" where
  "demo_payload = [BytesField 1 (marshal ref_protowire demo_header), BytesField 2 ''hello'']"

definition demo_envelope :: "field list" where
  "demo_envelope = [BytesField 1 (marshal ref_protowire demo_payload)]"

theorem unwrap_envelope_lite_returns_witness:
  "\<exists>r. UnwrapEnvelopeLite ref_protowire ''garbage'' = Some r \<and> r \<noteq> Inl SliceOutOfRange"
  by (rule unwrap_envelope_lite_returns) simp

theorem unwrap_envelope_lite_agrees_witness:
  "UnwrapEnvelopeLite ref_protowire (marshal ref_protowire demo_envelope) =
     Some (Inr \<lparr>el_HeaderType = 3, el_TxID = ''tx1'', el_Data = ''hello''\<rparr>)"
proof -
  note eqs = demo_envelope_def demo_payload_def demo_header_def demo_channel_def
  have "utf8_valid ''tx1''" by code_simp
  then have "UnwrapEnvelope ref_protoutil (marshal ref_protowire demo_envelope) =
      Inr (''hello'', \<lparr>ch_Type = 3, ch_TxId = ''tx1''\<rparr>)"
    by (simp add: UnwrapEnvelope_def ParseEnvelope_def ref_protoutil_def extractVarintField_marshal
        extractStringField_def extractBytesField_marshal eqs del: marshal_simps)
  from unwrap_envelope_lite_agrees [OF _ _ _ _ _ _ _ _ _ _ this, of demo_payload demo_header demo_channel]
  show ?thesis by (simp add: eqs del: marshal_simps)
qed

end
