(* ===== verification/Sidecar_Mapping.thy ===== *)
theory Sidecar_Mapping
  imports Envelope Policy Ordered_Encoding
begin

text \<open>
  \<open>service/sidecar/mapping.go\<close> and \<open>tx_id_dedup.go\<close>: the form checks of a transaction, the parsing of
  the messages of a block by several workers, and the fold of the parsed messages into the batch for
  the coordinator. The unmarshalling of a transaction and of a configuration envelope are arguments,
  next to the records \<open>wire\<close>, \<open>protowire\<close>, \<open>protoutil\<close> and \<open>fabric\<close>; the reasons that are only logged are left
  out.
\<close>

section \<open>Form checks\<close>

definition statusNotYetValidated :: Status where
  "statusNotYetValidated = STATUS_UNSPECIFIED"

definition maxKeysForPairwiseCheck :: nat where
  "maxKeysForPairwiseCheck = 24"

definition nsKey :: "TxNamespace \<Rightarrow> nat \<Rightarrow> bytes" where
  "nsKey ns i =
     (if i < length (ns_reads_only ns) then r_key (ns_reads_only ns ! i)
      else let i1 = i - length (ns_reads_only ns)
           in if i1 < length (ns_read_writes ns) then rw_key (ns_read_writes ns ! i1)
              else w_key (ns_blind_writes ns ! (i1 - length (ns_read_writes ns))))"

definition keyCount :: "TxNamespace \<Rightarrow> nat" where
  "keyCount ns = length (ns_reads_only ns) + length (ns_read_writes ns) + length (ns_blind_writes ns)"

definition checkKeys :: "TxNamespace \<Rightarrow> Status" where
  "checkKeys ns =
     (if list_ex (\<lambda>i. length (nsKey ns i) = 0) [0..<keyCount ns] then MALFORMED_EMPTY_KEY
      else if keyCount ns > maxKeysForPairwiseCheck then
        (let uniqueKeys = fold (\<lambda>i m. go_put (nsKey ns i) () m) [0..<keyCount ns] []
         in if length uniqueKeys \<noteq> keyCount ns then MALFORMED_DUPLICATE_KEY_IN_READ_WRITE_SET
            else statusNotYetValidated)
      else if list_ex (\<lambda>i. list_ex (\<lambda>j. nsKey ns i = nsKey ns j) [i + 1..<keyCount ns]) [0..<keyCount ns]
      then MALFORMED_DUPLICATE_KEY_IN_READ_WRITE_SET
      else statusNotYetValidated)"

fun checkPolicies :: "wire \<Rightarrow> ('b, 'd) fabric \<Rightarrow> PolicyItem list \<Rightarrow> string list \<Rightarrow> Status" where
  "checkPolicies w fb [] nsUpdate = statusNotYetValidated"
| "checkPolicies w fb (pd # pds) nsUpdate =
     (case CreateNamespaceVerifier w fb pd None of
        Inl e \<Rightarrow> if e = ErrInvalidNamespaceID then MALFORMED_NAMESPACE_ID_INVALID
                 else MALFORMED_NAMESPACE_POLICY_INVALID
      | Inr v \<Rightarrow>
          if pi_namespace pd = MetaNamespaceID then MALFORMED_NAMESPACE_POLICY_INVALID
          else if pi_namespace pd \<in> set nsUpdate then MALFORMED_NAMESPACE_POLICY_INVALID
          else checkPolicies w fb pds (pi_namespace pd # nsUpdate))"

definition checkMetaNamespace :: "wire \<Rightarrow> ('b, 'd) fabric \<Rightarrow> TxNamespace \<Rightarrow> Status" where
  "checkMetaNamespace w fb txNs =
     (if ns_id txNs \<noteq> MetaNamespaceID then statusNotYetValidated
      else if length (ns_blind_writes txNs) > 0 then MALFORMED_BLIND_WRITES_NOT_ALLOWED
      else case GetUpdatesFromNamespace txNs of
             None \<Rightarrow> statusNotYetValidated
           | Some u \<Rightarrow> (case vu_policies u of
                          None \<Rightarrow> statusNotYetValidated
                        | Some pds \<Rightarrow> checkPolicies w fb pds []))"

definition checkNamespaceReadsWrites :: "TxNamespace \<Rightarrow> Status" where
  "checkNamespaceReadsWrites ns =
     (if length (ns_read_writes ns) = 0 \<and> length (ns_blind_writes ns) = 0 \<and>
         ns_id ns \<noteq> SnapshotNamespaceID \<and> ns_id ns \<noteq> CheckpointNamespaceID
      then MALFORMED_NO_WRITES else checkKeys ns)"

definition checkSystemNamespace :: "wire \<Rightarrow> ('b, 'd) fabric \<Rightarrow> TxNamespace \<Rightarrow> Status" where
  "checkSystemNamespace w fb ns =
     (if ns_id ns = MetaNamespaceID then checkMetaNamespace w fb ns
      else if ns_id ns = SnapshotNamespaceID then
        (if length (ns_reads_only ns) > 0 \<or> length (ns_read_writes ns) > 0 \<or> length (ns_blind_writes ns) > 0
         then MALFORMED_SNAPSHOT_NOT_MARKER_ONLY else statusNotYetValidated)
      else if ns_id ns = CheckpointNamespaceID then
        (if length (ns_reads_only ns) > 0 \<or> length (ns_blind_writes ns) > 0 \<or> length (ns_read_writes ns) \<noteq> 1
         then MALFORMED_CHECKPOINT_INVALID_KEY
         else if rw_version (ns_read_writes ns ! 0) \<noteq> None then MALFORMED_CHECKPOINT_INVALID_KEY
         else case BlockNumFromCheckpointKey w (rw_key (ns_read_writes ns ! 0)) of
                Inl e \<Rightarrow> MALFORMED_CHECKPOINT_INVALID_KEY
              | Inr n \<Rightarrow> if \<not> IsValidCheckpointValue (rw_value (ns_read_writes ns ! 0))
                         then MALFORMED_CHECKPOINT_INVALID_VALUE else statusNotYetValidated)
      else statusNotYetValidated)"

definition checkStandaloneSystemTx :: "Tx \<Rightarrow> Status" where
  "checkStandaloneSystemTx tx =
     (if list_ex (\<lambda>ns. (ns_id ns = SnapshotNamespaceID \<or> ns_id ns = CheckpointNamespaceID) \<and>
                       length (tx_namespaces tx) \<noteq> 1) (tx_namespaces tx)
      then MALFORMED_SYSTEM_TX_NOT_STANDALONE else statusNotYetValidated)"

definition isSnapshotTx :: "Tx \<Rightarrow> bool" where
  "isSnapshotTx tx \<longleftrightarrow> length (tx_namespaces tx) = 1 \<and> ns_id (tx_namespaces tx ! 0) = SnapshotNamespaceID"

definition endorsement_missing :: "EndorsementWithIdentity option list option \<Rightarrow> bool" where
  "endorsement_missing e \<longleftrightarrow>
     (case e of
        None \<Rightarrow> True
      | Some es \<Rightarrow> length es = 0 \<or>
          list_ex (\<lambda>ei. case ei of None \<Rightarrow> True | Some x \<Rightarrow> length (ei_endorsement x) = 0) es)"

definition checkEndorsements :: "Tx \<Rightarrow> Status" where
  "checkEndorsements tx =
     (if length (tx_namespaces tx) \<noteq> length (tx_endorsements tx) then MALFORMED_MISSING_SIGNATURE
      else if list_ex endorsement_missing (tx_endorsements tx) then MALFORMED_MISSING_SIGNATURE
      else statusNotYetValidated)"

fun verifyNamespaceForms :: "wire \<Rightarrow> ('b, 'd) fabric \<Rightarrow> TxNamespace list \<Rightarrow> string list \<Rightarrow> Status" where
  "verifyNamespaceForms w fb [] nsIDs = statusNotYetValidated"
| "verifyNamespaceForms w fb (ns # nss) nsIDs =
     (if ns_id ns = ConfigNamespaceID then MALFORMED_NAMESPACE_ID_INVALID
      else if \<not> IsSystemNamespace w (ns_id ns) \<and> ValidateNamespaceID (ns_id ns) \<noteq> None
      then MALFORMED_NAMESPACE_ID_INVALID
      else if ns_id ns \<in> set nsIDs then MALFORMED_DUPLICATE_NAMESPACE
      else let s1 = checkNamespaceReadsWrites ns
           in if s1 \<noteq> statusNotYetValidated then s1
              else let s2 = checkSystemNamespace w fb ns
                   in if s2 \<noteq> statusNotYetValidated then s2
                      else verifyNamespaceForms w fb nss (ns_id ns # nsIDs))"

definition verifyTxForm :: "wire \<Rightarrow> ('b, 'd) fabric \<Rightarrow> Tx \<Rightarrow> Status" where
  "verifyTxForm w fb tx =
     (if length (tx_namespaces tx) = 0 then MALFORMED_EMPTY_NAMESPACES
      else let s1 = checkEndorsements tx
           in if s1 \<noteq> statusNotYetValidated then s1
              else let s2 = checkStandaloneSystemTx tx
                   in if s2 \<noteq> statusNotYetValidated then s2
                      else verifyNamespaceForms w fb (tx_namespaces tx) [])"

section \<open>Parsing a message\<close>

text \<open>
  \<open>UnmarshalTx\<close> is \<open>proto.Unmarshal\<close> at a transaction; \<open>UnmarshalConfigEnvelope\<close> returns the
  \<open>LastUpdate\<close> of a configuration envelope, a pointer, to its payload bytes.
\<close>

record ('b, 'd) parsers =
  p_wire :: wire
  p_protowire :: protowire
  p_protoutil :: protoutil
  p_fabric :: "('b, 'd) fabric"
  UnmarshalTx :: "bytes \<Rightarrow> Tx option"
  UnmarshalConfigEnvelope :: "bytes \<Rightarrow> bytes option option"

datatype map_error = BadConfigTx policy_error | NoConfigTxID | BadConfigEnvelope | BadConfigUpdate envelope_error
  | DuplicateConfigTxID string | TwoResults | StatusShouldBeStored Status | Hangs | IndexPanic

record parsedTX =
  px_tx :: "Tx option"
  px_status :: Status
  px_err :: "map_error option"
  px_isConfig :: bool
  px_isSnapshot :: bool

definition noParsedTX :: parsedTX where
  "noParsedTX = \<lparr>px_tx = None, px_status = statusNotYetValidated, px_err = None, px_isConfig = False, px_isSnapshot = False\<rparr>"

definition HeaderType_MESSAGE :: int where "HeaderType_MESSAGE = 0"
definition HeaderType_CONFIG :: int where "HeaderType_CONFIG = 1"

definition configTx :: "bytes \<Rightarrow> Tx" where
  "configTx value =
     \<lparr>tx_namespaces = [\<lparr>ns_id = ConfigNamespaceID, ns_version = 0, ns_reads_only = [], ns_read_writes = [],
                       ns_blind_writes = [\<lparr>w_key = ConfigKey, w_value = value\<rparr>]\<rparr>],
      tx_endorsements = [], tx_metadata = []\<rparr>"

definition configTxID :: "('b, 'd) parsers \<Rightarrow> EnvelopeLite \<Rightarrow> map_error + string" where
  "configTxID ps envLite =
     (case UnmarshalConfigEnvelope ps (el_Data envLite) of
        None \<Rightarrow> Inl BadConfigEnvelope
      | Some None \<Rightarrow> if el_TxID envLite = [] then Inl NoConfigTxID else Inr (el_TxID envLite)
      | Some (Some update) \<Rightarrow>
          (case ParseEnvelope (p_protoutil ps) (Some update) of
             Inl e \<Rightarrow> Inl (BadConfigUpdate e)
           | Inr (_, channelHdr) \<Rightarrow> if ch_TxId channelHdr = [] then Inl NoConfigTxID else Inr (ch_TxId channelHdr)))"

text \<open>The result is the parsed message and the transaction ID set in its reference.\<close>

definition parseConfigTx :: "('b, 'd) parsers \<Rightarrow> EnvelopeLite \<Rightarrow> bytes \<Rightarrow> parsedTX \<times> string" where
  "parseConfigTx ps envLite msg =
     (case ValidateConfigTx (p_fabric ps) msg of
        Some e \<Rightarrow> (noParsedTX\<lparr>px_err := Some (BadConfigTx e)\<rparr>, [])
      | None \<Rightarrow>
          (case configTxID ps envLite of
             Inl e \<Rightarrow> (noParsedTX\<lparr>px_err := Some e\<rparr>, [])
           | Inr txID \<Rightarrow> (noParsedTX\<lparr>px_tx := Some (configTx msg), px_isConfig := True\<rparr>, txID)))"

definition parseMessage :: "('b, 'd) parsers \<Rightarrow> bytes \<Rightarrow> parsedTX \<times> string" where
  "parseMessage ps msg =
     (case UnwrapEnvelopeLite (p_protowire ps) msg of
        None \<Rightarrow> (noParsedTX\<lparr>px_err := Some Hangs\<rparr>, [])
      | Some (Inl e) \<Rightarrow> (noParsedTX\<lparr>px_status := MALFORMED_BAD_ENVELOPE\<rparr>, [])
      | Some (Inr envLite) \<Rightarrow>
          if el_HeaderType envLite = HeaderType_CONFIG then parseConfigTx ps envLite msg
          else if el_TxID envLite = [] \<or> \<not> utf8_valid (el_TxID envLite)
          then (noParsedTX\<lparr>px_status := MALFORMED_MISSING_TX_ID\<rparr>, [])
          else if el_HeaderType envLite \<noteq> HeaderType_MESSAGE
          then (noParsedTX\<lparr>px_status := MALFORMED_UNSUPPORTED_ENVELOPE_PAYLOAD\<rparr>, el_TxID envLite)
          else case UnmarshalTx ps (el_Data envLite) of
                 None \<Rightarrow> (noParsedTX\<lparr>px_status := MALFORMED_BAD_ENVELOPE_PAYLOAD\<rparr>, el_TxID envLite)
               | Some tx \<Rightarrow>
                   (let status = verifyTxForm (p_wire ps) (p_fabric ps) tx
                    in if status \<noteq> statusNotYetValidated then (noParsedTX\<lparr>px_status := status\<rparr>, el_TxID envLite)
                       else (noParsedTX\<lparr>px_tx := Some tx, px_isSnapshot := isSnapshotTx tx\<rparr>, el_TxID envLite)))"

section \<open>Parsing a block\<close>

text \<open>
  The workers split the messages into ranges and write the slots of the result array; a slot holds the
  reference of the message and what parsing settled about it.
\<close>

record TxParsingConfig =
  MaxWorkers :: nat
  MinBatchSize :: nat

definition parseWorkers :: "TxParsingConfig \<Rightarrow> nat \<Rightarrow> nat" where
  "parseWorkers cfg n = min (MaxWorkers cfg) (n div max (MinBatchSize cfg) 1)"

definition parseRanges :: "TxParsingConfig \<Rightarrow> nat \<Rightarrow> nat list list" where
  "parseRanges cfg n =
     (let workers = parseWorkers cfg n
      in if workers < 2 then [[0..<n]]
         else map (\<lambda>worker. [n * worker div workers..<n * (worker + 1) div workers]) [0..<workers])"

definition parseAt :: "('b, 'd) parsers \<Rightarrow> u64 \<Rightarrow> bytes list \<Rightarrow> nat \<Rightarrow> TxRef \<times> parsedTX" where
  "parseAt ps blockNumber msgs i =
     (let (px, txID) = parseMessage ps (msgs ! i)
      in (\<lparr>ref_block_num = blockNumber, ref_tx_id = txID, ref_tx_num = word_of_nat i\<rparr>, px))"

definition parseSlot :: "('b, 'd) parsers \<Rightarrow> u64 \<Rightarrow> bytes list \<Rightarrow> nat
    \<Rightarrow> (TxRef \<times> parsedTX) option list \<Rightarrow> (TxRef \<times> parsedTX) option list" where
  "parseSlot ps blockNumber msgs i parsed = parsed[i := Some (parseAt ps blockNumber msgs i)]"

definition parseMessages :: "('b, 'd) parsers \<Rightarrow> TxParsingConfig \<Rightarrow> u64 \<Rightarrow> bytes list
    \<Rightarrow> (TxRef \<times> parsedTX) option list" where
  "parseMessages ps cfg blockNumber msgs =
     fold (fold (parseSlot ps blockNumber msgs)) (parseRanges cfg (length msgs)) (replicate (length msgs) None)"

section \<open>IDs in flight\<close>

record txIDDedup =
  dd_ids :: "(string, unit) gomap"
  dd_blocks :: "(u64 \<times> string list) list"

definition newDedup :: txIDDedup where
  "newDedup = \<lparr>dd_ids = [], dd_blocks = []\<rparr>"

definition dedup_add :: "string \<Rightarrow> txIDDedup \<Rightarrow> bool \<times> txIDDedup" where
  "dedup_add txID d =
     (if map_of (dd_ids d) txID \<noteq> None then (False, d) else (True, d\<lparr>dd_ids := go_put txID () (dd_ids d)\<rparr>))"

definition trackBlock :: "u64 \<Rightarrow> string list \<Rightarrow> txIDDedup \<Rightarrow> txIDDedup" where
  "trackBlock blockNumber txIDs d = d\<lparr>dd_blocks := dd_blocks d @ [(blockNumber, txIDs)]\<rparr>"

fun evictBlocks :: "u64 \<Rightarrow> (u64 \<times> string list) list \<Rightarrow> (string, unit) gomap
    \<Rightarrow> (string, unit) gomap \<times> (u64 \<times> string list) list" where
  "evictBlocks blockNumber [] ids = (ids, [])"
| "evictBlocks blockNumber ((n, txIDs) # blks) ids =
     (if n \<ge> blockNumber then (ids, (n, txIDs) # blks)
      else evictBlocks blockNumber blks (fold go_del txIDs ids))"

definition evictCommittedBelow :: "u64 \<Rightarrow> txIDDedup \<Rightarrow> txIDDedup" where
  "evictCommittedBelow blockNumber d =
     (let (ids, blks) = evictBlocks blockNumber (dd_blocks d) (dd_ids d) in \<lparr>dd_ids = ids, dd_blocks = blks\<rparr>)"

section \<open>Statuses of a block\<close>

text \<open>\<open>bws_filter\<close> is the transaction filter in the metadata of the block, once it has been set.\<close>

record blockWithStatus =
  bws_blockNumber :: u64
  bws_txStatus :: "Status list"
  bws_pendingCount :: int
  bws_txs :: "(TxRef \<times> Tx option) list"
  bws_filter :: "Status list option"

definition holds :: "blockWithStatus \<Rightarrow> TxRef \<Rightarrow> bool" where
  "holds b ref \<longleftrightarrow> unat (ref_tx_num ref) < length (bws_txs b) \<and>
     ref_tx_id (fst (bws_txs b ! unat (ref_tx_num ref))) = ref_tx_id ref"

definition setFinalStatus :: "u32 \<Rightarrow> Status \<Rightarrow> blockWithStatus \<Rightarrow> map_error + blockWithStatus" where
  "setFinalStatus txNum status b =
     (if unat txNum \<ge> length (bws_txStatus b) then Inl IndexPanic
      else if bws_txStatus b ! unat txNum \<noteq> statusNotYetValidated then Inl TwoResults
      else Inr (b\<lparr>bws_txStatus := (bws_txStatus b)[unat txNum := status],
                 bws_pendingCount := bws_pendingCount b - 1\<rparr>))"

definition setStatusMetadataInBlock :: "blockWithStatus \<Rightarrow> blockWithStatus" where
  "setStatusMetadataInBlock b = b\<lparr>bws_filter := Some (bws_txStatus b)\<rparr>"

definition IsStatusStoredInDB :: "Status \<Rightarrow> bool" where
  "IsStatusStoredInDB status \<longleftrightarrow>
     \<not> (status = MALFORMED_BAD_ENVELOPE \<or> status = MALFORMED_MISSING_TX_ID \<or> status = REJECTED_DUPLICATE_TX_ID)"

section \<open>Mapping a block\<close>

record blockMapper =
  bm_blockNumber :: u64
  bm_block :: CoordinatorBatch
  bm_withStatus :: blockWithStatus
  bm_isConfig :: bool
  bm_snapshotTx :: "TxWithRef option"
  bm_dedup :: txIDDedup
  bm_txIDs :: "string list"

definition rejectNonDBStatusTx :: "TxRef \<Rightarrow> Status \<Rightarrow> blockMapper \<Rightarrow> map_error + blockMapper" where
  "rejectNonDBStatusTx ref status m =
     (if IsStatusStoredInDB status then Inl (StatusShouldBeStored status)
      else case setFinalStatus (ref_tx_num ref) status (bm_withStatus m) of
             Inl e \<Rightarrow> Inl e
           | Inr b \<Rightarrow> Inr (m\<lparr>bm_withStatus := b\<rparr>))"

text \<open>The result says whether the ID is already in flight.\<close>

definition addTxIDMapping :: "TxRef \<Rightarrow> blockMapper \<Rightarrow> map_error + bool \<times> blockMapper" where
  "addTxIDMapping ref m =
     (case dedup_add (ref_tx_id ref) (bm_dedup m) of
        (True, d) \<Rightarrow> Inr (False, m\<lparr>bm_dedup := d, bm_txIDs := bm_txIDs m @ [ref_tx_id ref]\<rparr>)
      | (False, d) \<Rightarrow>
          (case rejectNonDBStatusTx ref REJECTED_DUPLICATE_TX_ID m of
             Inl e \<Rightarrow> Inl e
           | Inr m' \<Rightarrow> Inr (True, m')))"

definition rejectTx :: "TxRef \<Rightarrow> Status \<Rightarrow> blockMapper \<Rightarrow> map_error + blockMapper" where
  "rejectTx ref status m =
     (if \<not> IsStatusStoredInDB status then rejectNonDBStatusTx ref status m
      else case addTxIDMapping ref m of
             Inl e \<Rightarrow> Inl e
           | Inr (True, m') \<Rightarrow> Inr m'
           | Inr (False, m') \<Rightarrow>
               Inr (m'\<lparr>bm_block := (bm_block m')\<lparr>cb_rejected := cb_rejected (bm_block m') @
                                  [\<lparr>st_ref = ref, st_status = status\<rparr>]\<rparr>\<rparr>))"

text \<open>The content of the slot of the transaction is set and the slot returned; \<open>None\<close> for a duplicate.\<close>

definition prepareTxSlot :: "TxRef \<Rightarrow> Tx \<Rightarrow> blockMapper \<Rightarrow> map_error + TxWithRef option \<times> blockMapper" where
  "prepareTxSlot ref tx m =
     (case addTxIDMapping ref m of
        Inl e \<Rightarrow> Inl e
      | Inr (True, m') \<Rightarrow> Inr (None, m')
      | Inr (False, m') \<Rightarrow>
          (let ws = bm_withStatus m'; i = unat (ref_tx_num ref)
           in if i \<ge> length (bws_txs ws) then Inl IndexPanic
              else Inr (Some \<lparr>twr_ref = fst (bws_txs ws ! i), twr_content = tx\<rparr>,
                        m'\<lparr>bm_withStatus := ws\<lparr>bws_txs := (bws_txs ws)[i := (fst (bws_txs ws ! i), Some tx)]\<rparr>\<rparr>)))"

definition appendToBatch :: "TxWithRef \<Rightarrow> blockMapper \<Rightarrow> blockMapper" where
  "appendToBatch tx m = m\<lparr>bm_block := (bm_block m)\<lparr>cb_txs := cb_txs (bm_block m) @ [tx]\<rparr>\<rparr>"

definition appendTx :: "TxRef \<Rightarrow> Tx \<Rightarrow> blockMapper \<Rightarrow> map_error + blockMapper" where
  "appendTx ref tx m =
     (case prepareTxSlot ref tx m of
        Inl e \<Rightarrow> Inl e
      | Inr (None, m') \<Rightarrow> Inr m'
      | Inr (Some t, m') \<Rightarrow> Inr (appendToBatch t m'))"

definition appendConfigTx :: "TxRef \<Rightarrow> Tx \<Rightarrow> blockMapper \<Rightarrow> map_error + blockMapper" where
  "appendConfigTx ref tx m =
     (case prepareTxSlot ref tx m of
        Inl e \<Rightarrow> Inl e
      | Inr (None, m') \<Rightarrow> Inl (DuplicateConfigTxID (ref_tx_id ref))
      | Inr (Some t, m') \<Rightarrow> Inr (appendToBatch t (m'\<lparr>bm_isConfig := True\<rparr>)))"

definition applyParsedTX :: "TxRef \<times> parsedTX \<Rightarrow> blockMapper \<Rightarrow> map_error + blockMapper" where
  "applyParsedTX = (\<lambda>(ref, parsed) m.
     case px_err parsed of
       Some e \<Rightarrow> Inl e
     | None \<Rightarrow>
         if px_status parsed \<noteq> statusNotYetValidated then rejectTx ref (px_status parsed) m
         else case px_tx parsed of
                None \<Rightarrow> Inl IndexPanic
              | Some tx \<Rightarrow>
                  if px_isConfig parsed then appendConfigTx ref tx m
                  else if \<not> px_isSnapshot parsed then appendTx ref tx m
                  else if bm_snapshotTx m = None then
                    (case prepareTxSlot ref tx m of
                       Inl e \<Rightarrow> Inl e
                     | Inr (None, m') \<Rightarrow> Inr m'
                     | Inr (Some t, m') \<Rightarrow> Inr (m'\<lparr>bm_snapshotTx := Some t\<rparr>))
                  else rejectTx ref REJECTED_DUPLICATE_SNAPSHOT_IN_BLOCK m)"

record Block =
  blk_number :: u64
  blk_data :: "bytes list option"

definition newMapper :: "u64 \<Rightarrow> (TxRef \<times> parsedTX) list \<Rightarrow> txIDDedup \<Rightarrow> blockMapper" where
  "newMapper blockNumber parsed d =
     \<lparr>bm_blockNumber = blockNumber, bm_block = \<lparr>cb_txs = [], cb_rejected = []\<rparr>,
      bm_withStatus = \<lparr>bws_blockNumber = blockNumber,
                       bws_txStatus = replicate (length parsed) statusNotYetValidated,
                       bws_pendingCount = int (length parsed),
                       bws_txs = map (\<lambda>(ref, px). (ref, None)) parsed, bws_filter = None\<rparr>,
      bm_isConfig = False, bm_snapshotTx = None, bm_dedup = d, bm_txIDs = []\<rparr>"

definition mapBlock :: "('b, 'd) parsers \<Rightarrow> TxParsingConfig \<Rightarrow> Block \<Rightarrow> txIDDedup \<Rightarrow> map_error + blockMapper" where
  "mapBlock ps cfg block d =
     (case blk_data block of
        None \<Rightarrow> Inr (newMapper (blk_number block) [] d)
      | Some msgs \<Rightarrow>
          (let parsed = map the (parseMessages ps cfg (blk_number block) msgs)
           in case loop_err applyParsedTX parsed (newMapper (blk_number block) parsed d) of
                Inl e \<Rightarrow> Inl e
              | Inr m \<Rightarrow> Inr (m\<lparr>bm_dedup := trackBlock (blk_number block) (bm_txIDs m) (bm_dedup m)\<rparr>)))"

end
