(* ===== verification/Sidecar_Inflight.thy ===== *)
theory Sidecar_Inflight
  imports Committer_Prelude
begin

text \<open>
  \<open>service/sidecar/in_flight_blocks.go\<close>: the ring buffer of the blocks the relay waits for, and the proof
  that it implements a window of consecutively numbered blocks. A slot of the ring is \<open>None\<close> when it
  holds the nil pointer.
\<close>

unbundle bit_operations_syntax

section \<open>The ring\<close>

record 'a inFlightBlocks =
  nextBlockNum :: u64
  ring_buf :: "'a option list"
  ring_head :: nat
  ring_count :: nat

definition initialInFlightBlocksCapacity :: nat where
  "initialInFlightBlocksCapacity = 64"

definition ring_reset :: "u64 \<Rightarrow> 'a inFlightBlocks" where
  "ring_reset n = \<lparr>nextBlockNum = n, ring_buf = [], ring_head = 0, ring_count = 0\<rparr>"

definition nextBlockNumberToCommit :: "'a inFlightBlocks \<Rightarrow> u64" where
  "nextBlockNumberToCommit b = nextBlockNum b"

definition slot :: "'a inFlightBlocks \<Rightarrow> nat \<Rightarrow> nat" where
  "slot b position = position AND (length (ring_buf b) - 1)"

definition grow :: "'a inFlightBlocks \<Rightarrow> 'a inFlightBlocks" where
  "grow b =
     (let size0 = 2 * length (ring_buf b);
          size1 = (if size0 = 0 then initialInFlightBlocksCapacity else size0);
          buf = fold (\<lambda>i buf. buf[i := ring_buf b ! slot b (ring_head b + i)]) [0..<ring_count b] (replicate size1 None)
      in b\<lparr>ring_buf := buf, ring_head := 0\<rparr>)"

text \<open>\<open>Inl\<close> carries the number that was expected; the flag says whether the block was tracked already.\<close>

definition register :: "u64 \<Rightarrow> 'a \<Rightarrow> 'a inFlightBlocks \<Rightarrow> u64 + bool \<times> 'a inFlightBlocks" where
  "register blockNumber blk b =
     (let offset = blockNumber - nextBlockNum b;
          blockCount = word_of_nat (ring_count b) :: u64
      in if offset < blockCount then Inr (True, b)
         else if offset > blockCount then Inl (nextBlockNum b + blockCount)
         else let b1 = (if ring_count b = length (ring_buf b) then grow b else b)
              in Inr (False, b1\<lparr>ring_buf := (ring_buf b1)[slot b1 (ring_head b1 + ring_count b1) := Some blk],
                               ring_count := ring_count b1 + 1\<rparr>))"

definition ring_get :: "u64 \<Rightarrow> 'a inFlightBlocks \<Rightarrow> 'a option" where
  "ring_get blockNumber b =
     (let offset = blockNumber - nextBlockNum b
      in if offset \<ge> word_of_nat (ring_count b) then None
         else ring_buf b ! slot b (ring_head b + unat offset))"

definition nextBlockToCommit :: "'a inFlightBlocks \<Rightarrow> 'a option" where
  "nextBlockToCommit b = (if ring_count b = 0 then None else ring_buf b ! ring_head b)"

definition dropCommittedBlock :: "'a inFlightBlocks \<Rightarrow> 'a inFlightBlocks" where
  "dropCommittedBlock b =
     b\<lparr>ring_buf := (ring_buf b)[ring_head b := None],
       ring_head := slot b (ring_head b + 1),
       ring_count := ring_count b - 1,
       nextBlockNum := nextBlockNum b + 1\<rparr>"

text \<open>The block a pointer of the ring leads to is changed in place.\<close>

definition ring_update :: "u64 \<Rightarrow> ('a \<Rightarrow> 'a) \<Rightarrow> 'a inFlightBlocks \<Rightarrow> 'a inFlightBlocks" where
  "ring_update blockNumber f b =
     (let i = slot b (ring_head b + unat (blockNumber - nextBlockNum b))
      in b\<lparr>ring_buf := (ring_buf b)[i := map_option f (ring_buf b ! i)]\<rparr>)"

section \<open>The window\<close>

text \<open>
  What the relay relies on, over an abstraction to the number of the first block and the list of the
  blocks.
\<close>

locale block_window =
  fixes wf :: "'s \<Rightarrow> bool" and first :: "'s \<Rightarrow> u64" and blocks :: "'s \<Rightarrow> 'a list"
    and reg :: "u64 \<Rightarrow> 'a \<Rightarrow> 's \<Rightarrow> u64 + bool \<times> 's" and look :: "u64 \<Rightarrow> 's \<Rightarrow> 'a option"
    and oldest :: "'s \<Rightarrow> 'a option" and pop :: "'s \<Rightarrow> 's" and modify :: "u64 \<Rightarrow> ('a \<Rightarrow> 'a) \<Rightarrow> 's \<Rightarrow> 's"
  assumes reg_tracked: "wf s \<Longrightarrow> unat (n - first s) < length (blocks s) \<Longrightarrow> reg n x s = Inr (True, s)"
    and reg_next: "wf s \<Longrightarrow> unat (n - first s) = length (blocks s) \<Longrightarrow> Suc (length (blocks s)) < 2 ^ 64 \<Longrightarrow>
      \<exists>s'. reg n x s = Inr (False, s') \<and> wf s' \<and> first s' = first s \<and> blocks s' = blocks s @ [x]"
    and reg_gap: "wf s \<Longrightarrow> unat (n - first s) > length (blocks s) \<Longrightarrow> \<exists>e. reg n x s = Inl e"
    and look_eq: "wf s \<Longrightarrow> look n s = (if unat (n - first s) < length (blocks s) then Some (blocks s ! unat (n - first s)) else None)"
    and oldest_eq: "wf s \<Longrightarrow> oldest s = (case blocks s of [] \<Rightarrow> None | x # xs \<Rightarrow> Some x)"
    and pop_ok: "wf s \<Longrightarrow> blocks s \<noteq> [] \<Longrightarrow> wf (pop s) \<and> first (pop s) = first s + 1 \<and> blocks (pop s) = tl (blocks s)"
    and modify_ok: "wf s \<Longrightarrow> unat (n - first s) < length (blocks s) \<Longrightarrow>
      wf (modify n f s) \<and> first (modify n f s) = first s \<and>
      blocks (modify n f s) = (blocks s)[unat (n - first s) := f (blocks s ! unat (n - first s))]"
begin

lemma reg_cases:
  assumes "wf s" "reg n x s = Inr (tracked, s')" "Suc (length (blocks s)) < 2 ^ 64"
  shows "wf s' \<and> first s' = first s \<and>
    (if tracked then unat (n - first s) < length (blocks s) \<and> s' = s
     else n = first s + word_of_nat (length (blocks s)) \<and> blocks s' = blocks s @ [x])"
proof (cases "unat (n - first s)" "length (blocks s)" rule: linorder_cases)
  case less
  with assms(1,2) reg_tracked show ?thesis by fastforce
next
  case equal
  then have "n - first s = word_of_nat (length (blocks s))" by (simp flip: equal)
  then have "n = first s + word_of_nat (length (blocks s))" by (metis add.commute diff_add_cancel)
  with reg_next [OF assms(1) equal assms(3), of x] assms(2) show ?thesis by auto
next
  case greater
  with assms(1,2) reg_gap [of s n x] show ?thesis by auto
qed

lemma look_modify_other:
  assumes "wf s" "unat (n - first s) < length (blocks s)" "k \<noteq> n"
  shows "look k (modify n f s) = look k s"
proof -
  have "unat (k - first s) \<noteq> unat (n - first s)" using assms(3) by (metis diff_add_cancel word_unat_eq_iff)
  with assms modify_ok look_eq show ?thesis by simp
qed

end

section \<open>The ring is a window\<close>

definition ring_blocks :: "'a inFlightBlocks \<Rightarrow> 'a list" where
  "ring_blocks b = map (\<lambda>i. the (ring_buf b ! slot b (ring_head b + i))) [0..<ring_count b]"

definition ring_ok :: "'a inFlightBlocks \<Rightarrow> bool" where
  "ring_ok b \<longleftrightarrow>
     (ring_buf b = [] \<or> (\<exists>k. length (ring_buf b) = 2 ^ k)) \<and> ring_count b \<le> length (ring_buf b) \<and>
     (ring_buf b \<noteq> [] \<longrightarrow> ring_head b < length (ring_buf b)) \<and> ring_count b < 2 ^ 64 \<and>
     (\<forall>i < ring_count b. ring_buf b ! slot b (ring_head b + i) \<noteq> None)"

lemma length_ring_blocks [simp]: "length (ring_blocks b) = ring_count b"
  by (simp add: ring_blocks_def)

lemma slot_mod:
  assumes "ring_ok b" "ring_buf b \<noteq> []"
  shows "slot b i = i mod length (ring_buf b)"
proof -
  obtain k where k: "length (ring_buf b) = 2 ^ k" using assms by (auto simp: ring_ok_def)
  then show ?thesis
    by (simp add: slot_def take_bit_eq_mod [symmetric] take_bit_eq_mask mask_eq_exp_minus_1)
qed

lemma slot_less: "ring_ok b \<Longrightarrow> ring_buf b \<noteq> [] \<Longrightarrow> slot b i < length (ring_buf b)"
  by (simp add: slot_mod)

text \<open>Different positions of the window are in different slots.\<close>

lemma mod_add_inj_le:
  assumes "(h + j) mod n = (h + i) mod (n :: nat)" "i \<le> j" "j < n"
  shows "i = j"
proof -
  have "n dvd (h + j) - (h + i)"
    using assms(1,2) by (intro mod_eq_dvd_iff_nat [THEN iffD1]) simp_all
  then have "n dvd j - i" by simp
  with assms(2,3) show ?thesis by (metis diff_is_0_eq le_antisym less_imp_diff_less nat_dvd_not_less neq0_conv)
qed

lemma mod_add_inj:
  assumes "(h + i) mod n = (h + j) mod (n :: nat)" "i < n" "j < n"
  shows "i = j"
  using mod_add_inj_le [of h j n i] mod_add_inj_le [of h i n j] assms by (metis le_cases)

lemma slot_inj:
  assumes "ring_ok b" "i < length (ring_buf b)" "j < length (ring_buf b)" "slot b (ring_head b + i) = slot b (ring_head b + j)"
  shows "i = j"
proof -
  have "ring_buf b \<noteq> []" using assms(2) by auto
  then show ?thesis using assms by (metis mod_add_inj slot_mod)
qed

lemma ring_blocks_nth:
  "ring_ok b \<Longrightarrow> i < ring_count b \<Longrightarrow> ring_buf b ! slot b (ring_head b + i) = Some (ring_blocks b ! i)"
  by (auto simp: ring_ok_def ring_blocks_def)

text \<open>A ring is known by its slots.\<close>

lemma ring_intro:
  assumes "length (ring_buf b) = 2 ^ k" "ring_head b < 2 ^ k" "ring_count b = length xs" "length xs \<le> 2 ^ k" "length xs < 2 ^ 64"
    and "\<And>i. i < length xs \<Longrightarrow> ring_buf b ! ((ring_head b + i) mod 2 ^ k) = Some (xs ! i)"
  shows "ring_ok b \<and> ring_blocks b = xs"
proof -
  have s: "slot b i = i mod 2 ^ k" for i
    by (simp add: slot_def assms(1) take_bit_eq_mod [symmetric] take_bit_eq_mask mask_eq_exp_minus_1)
  have "ring_blocks b = xs"
    unfolding ring_blocks_def s by (rule nth_equalityI) (simp_all add: assms(3,6))
  then show ?thesis using assms by (auto simp: ring_ok_def s)
qed

lemma fold_copy:
  "fold (\<lambda>i buf. buf[i := f i]) [0..<n] buf =
    map (\<lambda>i. if i < n then f i else buf ! i) [0..<length buf]"
  by (induction n) (auto intro!: nth_equalityI simp: nth_list_update less_Suc_eq)

lemma grow_ok:
  assumes "ring_ok b"
  shows "\<exists>k. length (ring_buf (grow b)) = 2 ^ k \<and> ring_count b < 2 ^ k \<and> ring_head (grow b) = 0 \<and>
    ring_count (grow b) = ring_count b \<and> nextBlockNum (grow b) = nextBlockNum b \<and>
    (\<forall>i < ring_count b. ring_buf (grow b) ! i = Some (ring_blocks b ! i))"
proof -
  let ?sz = "if 2 * length (ring_buf b) = 0 then initialInFlightBlocksCapacity else 2 * length (ring_buf b)"
  have "\<exists>k. ?sz = 2 ^ k"
  proof (cases "ring_buf b = []")
    case True
    then have "?sz = 2 ^ 6" by (simp add: initialInFlightBlocksCapacity_def)
    then show ?thesis by blast
  next
    case False
    then obtain k where "length (ring_buf b) = 2 ^ k" using assms by (auto simp: ring_ok_def)
    then have "?sz = 2 ^ Suc k" by simp
    then show ?thesis by blast
  qed
  moreover have "ring_count b < ?sz"
    using assms by (auto simp: ring_ok_def initialInFlightBlocksCapacity_def)
  moreover have "ring_buf (grow b) =
      map (\<lambda>i. if i < ring_count b then ring_buf b ! slot b (ring_head b + i) else None) [0..<?sz]"
    unfolding grow_def by (simp only: Let_def fold_copy) (auto intro!: nth_equalityI)
  ultimately show ?thesis
    using ring_blocks_nth [OF assms] by (auto simp: grow_def Let_def)
qed

lemma register_next:
  assumes "ring_ok b" "unat (n - nextBlockNum b) = ring_count b" "Suc (ring_count b) < 2 ^ 64"
  shows "\<exists>b'. register n x b = Inr (False, b') \<and> ring_ok b' \<and> nextBlockNum b' = nextBlockNum b \<and>
    ring_blocks b' = ring_blocks b @ [x]"
proof -
  define b1 where "b1 = (if ring_count b = length (ring_buf b) then grow b else b)"
  define b2 where "b2 = b1\<lparr>ring_buf := (ring_buf b1)[slot b1 (ring_head b1 + ring_count b1) := Some x],
                           ring_count := ring_count b1 + 1\<rparr>"
  have "n - nextBlockNum b = word_of_nat (ring_count b)" by (simp flip: assms(2))
  then have "register n x b = Inr (False, b2)" by (simp add: register_def b2_def b1_def Let_def)
  moreover obtain k where k: "length (ring_buf b1) = 2 ^ k" "ring_head b1 < 2 ^ k" "ring_count b < 2 ^ k"
      "ring_count b1 = ring_count b" "nextBlockNum b1 = nextBlockNum b"
      "\<And>i. i < ring_count b \<Longrightarrow> ring_buf b1 ! ((ring_head b1 + i) mod 2 ^ k) = Some (ring_blocks b ! i)"
  proof (cases "ring_count b = length (ring_buf b)")
    case True
    with grow_ok [OF assms(1)] that show ?thesis by (auto simp: b1_def)
  next
    case False
    then have "ring_buf b \<noteq> []" "ring_count b < length (ring_buf b)" using assms(1) by (auto simp: ring_ok_def)
    with False ring_blocks_nth [OF assms(1)] assms(1) slot_mod [OF assms(1)] that show ?thesis
      by (auto simp: b1_def ring_ok_def)
  qed
  moreover have "ring_ok b2 \<and> ring_blocks b2 = ring_blocks b @ [x]"
  proof (rule ring_intro)
    have s: "slot b1 i = i mod 2 ^ k" for i
      by (simp add: slot_def k(1) take_bit_eq_mod [symmetric] take_bit_eq_mask mask_eq_exp_minus_1)
    fix i assume "i < length (ring_blocks b @ [x])"
    then show "ring_buf b2 ! ((ring_head b2 + i) mod 2 ^ k) = Some ((ring_blocks b @ [x]) ! i)"
      using k mod_add_inj [of "ring_head b1" i "2 ^ k" "ring_count b"]
      by (cases "i = ring_count b") (auto simp: b2_def s nth_append nth_list_update)
  qed (use k assms in \<open>simp_all add: b2_def\<close>)
  ultimately show ?thesis by (auto simp: b2_def)
qed

lemma unat_count: "n < 2 ^ 64 \<Longrightarrow> unat (word_of_nat n :: u64) = n"
  by (simp add: unat_of_nat take_bit_eq_mod)

lemma ring_ok_count: "ring_ok b \<Longrightarrow> unat (word_of_nat (ring_count b) :: u64) = ring_count b"
  by (rule unat_count) (simp add: ring_ok_def)

lemma ring_get_eq:
  assumes "ring_ok b"
  shows "ring_get n b =
    (if unat (n - nextBlockNum b) < ring_count b then Some (ring_blocks b ! unat (n - nextBlockNum b)) else None)"
  using ring_blocks_nth [OF assms] ring_ok_count [OF assms]
  by (simp add: ring_get_def Let_def word_le_nat_alt not_less)

lemma nextBlockToCommit_eq:
  assumes "ring_ok b"
  shows "nextBlockToCommit b = (case ring_blocks b of [] \<Rightarrow> None | x # xs \<Rightarrow> Some x)"
proof (cases "ring_count b = 0")
  case True
  then have "ring_blocks b = []" by (metis length_0_conv length_ring_blocks)
  with True show ?thesis by (simp add: nextBlockToCommit_def)
next
  case False
  then have n: "ring_buf b \<noteq> []" using assms by (auto simp: ring_ok_def)
  then have "slot b (ring_head b) = ring_head b" using assms by (simp add: slot_mod) (simp add: ring_ok_def)
  then have "ring_buf b ! ring_head b = Some (ring_blocks b ! 0)"
    using ring_blocks_nth [OF assms, of 0] False by simp
  moreover obtain x xs where "ring_blocks b = x # xs"
    using False by (metis length_0_conv length_ring_blocks list.exhaust)
  ultimately show ?thesis using False by (simp add: nextBlockToCommit_def)
qed

lemma dropCommittedBlock_ok:
  assumes "ring_ok b" "ring_blocks b \<noteq> []"
  shows "ring_ok (dropCommittedBlock b) \<and> nextBlockNum (dropCommittedBlock b) = nextBlockNum b + 1 \<and>
    ring_blocks (dropCommittedBlock b) = tl (ring_blocks b)"
proof -
  have c: "0 < ring_count b" using assms(2) by (metis length_greater_0_conv length_ring_blocks)
  then have n: "ring_buf b \<noteq> []" using assms(1) by (auto simp: ring_ok_def)
  then obtain k where k: "length (ring_buf b) = 2 ^ k" using assms(1) by (auto simp: ring_ok_def)
  have h: "ring_head b < 2 ^ k" "ring_count b \<le> 2 ^ k" using assms(1) n k by (auto simp: ring_ok_def)
  note sm = slot_mod [OF assms(1) n, unfolded k]
  let ?d = "dropCommittedBlock b"
  have d: "ring_buf ?d = (ring_buf b)[ring_head b := None]" "ring_head ?d = (ring_head b + 1) mod 2 ^ k"
    "ring_count ?d = ring_count b - 1"
    by (simp_all add: dropCommittedBlock_def sm)
  have "ring_ok ?d \<and> ring_blocks ?d = tl (ring_blocks b)"
  proof (rule ring_intro)
    fix i assume i: "i < length (tl (ring_blocks b))"
    have e: "(ring_head ?d + i) mod 2 ^ k = (ring_head b + Suc i) mod 2 ^ k"
      by (simp add: d(2) mod_add_left_eq)
    have "(ring_head b + Suc i) mod 2 ^ k \<noteq> (ring_head b + 0) mod 2 ^ k"
    proof
      assume "(ring_head b + Suc i) mod 2 ^ k = (ring_head b + 0) mod 2 ^ k"
      moreover have "Suc i < 2 ^ k" using i h(2) by simp
      ultimately show False using mod_add_inj [of "ring_head b" "Suc i" "2 ^ k" 0] by simp
    qed
    then have "(ring_head b + Suc i) mod 2 ^ k \<noteq> ring_head b" using h(1) by simp
    then have "ring_buf ?d ! ((ring_head ?d + i) mod 2 ^ k) = ring_buf b ! ((ring_head b + Suc i) mod 2 ^ k)"
      unfolding e d(1) by simp
    also have "\<dots> = Some (ring_blocks b ! Suc i)"
      using ring_blocks_nth [OF assms(1), of "Suc i"] i by (simp add: sm)
    finally show "ring_buf ?d ! ((ring_head ?d + i) mod 2 ^ k) = Some (tl (ring_blocks b) ! i)"
      using i by (simp add: nth_tl)
  qed (use d k h assms(1) in \<open>auto simp: ring_ok_def\<close>)
  then show ?thesis by (simp add: dropCommittedBlock_def)
qed

lemma ring_update_ok:
  assumes "ring_ok b" "unat (n - nextBlockNum b) < ring_count b"
  shows "ring_ok (ring_update n f b) \<and> nextBlockNum (ring_update n f b) = nextBlockNum b \<and>
    ring_blocks (ring_update n f b) = (ring_blocks b)[unat (n - nextBlockNum b) := f (ring_blocks b ! unat (n - nextBlockNum b))]"
proof -
  let ?o = "unat (n - nextBlockNum b)" and ?u = "ring_update n f b"
  have n: "ring_buf b \<noteq> []" using assms by (auto simp: ring_ok_def)
  then obtain k where k: "length (ring_buf b) = 2 ^ k" using assms(1) by (auto simp: ring_ok_def)
  note sm = slot_mod [OF assms(1) n, unfolded k]
  have h: "ring_head b < 2 ^ k" "ring_count b \<le> 2 ^ k" using assms(1) n k by (auto simp: ring_ok_def)
  have u: "ring_buf ?u = (ring_buf b)[(ring_head b + ?o) mod 2 ^ k := Some (f (ring_blocks b ! ?o))]"
    "ring_head ?u = ring_head b" "ring_count ?u = ring_count b"
    using ring_blocks_nth [OF assms] by (simp_all add: ring_update_def Let_def sm)
  have "ring_ok ?u \<and> ring_blocks ?u = (ring_blocks b)[?o := f (ring_blocks b ! ?o)]"
  proof (rule ring_intro)
    fix i assume i: "i < length ((ring_blocks b)[?o := f (ring_blocks b ! ?o)])"
    show "ring_buf ?u ! ((ring_head ?u + i) mod 2 ^ k) = Some ((ring_blocks b)[?o := f (ring_blocks b ! ?o)] ! i)"
    proof (cases "i = ?o")
      case True
      then show ?thesis using assms(2) by (simp add: u k)
    next
      case False
      then have "(ring_head b + i) mod 2 ^ k \<noteq> (ring_head b + ?o) mod 2 ^ k"
        using mod_add_inj [of "ring_head b" i "2 ^ k" ?o] i h(2) assms(2) by auto
      then show ?thesis using False i ring_blocks_nth [OF assms(1), of i] by (simp add: u sm)
    qed
  qed (use u k h assms(1) in \<open>auto simp: ring_ok_def\<close>)
  then show ?thesis by (simp add: ring_update_def Let_def)
qed

interpretation ring: block_window ring_ok nextBlockNum ring_blocks register ring_get nextBlockToCommit
  dropCommittedBlock ring_update
proof unfold_locales
  fix b :: "'a inFlightBlocks" and n x
  assume b: "ring_ok b"
  note c = ring_ok_count [OF b]
  show "register n x b = Inr (True, b)" if "unat (n - nextBlockNum b) < length (ring_blocks b)"
    using that c by (simp add: register_def word_less_nat_alt)
  show "\<exists>e. register n x b = Inl e" if "length (ring_blocks b) < unat (n - nextBlockNum b)"
    using that c by (simp add: register_def word_less_nat_alt Let_def)
qed (simp_all add: register_next ring_get_eq nextBlockToCommit_eq dropCommittedBlock_ok ring_update_ok)

section \<open>Sequences of operations\<close>

text \<open>
  The calls the relay makes: it registers a block, looks one up, asks for the oldest, and drops the
  oldest when there is one. The specification keeps the number of the first block and a list.
\<close>

datatype 'a window_call = Register u64 'a | Get u64 | Oldest | DropOldest

datatype 'a window_result = Registered bool | NotNext | Found "'a option" | Dropped

fun ring_op :: "'a window_call \<Rightarrow> 'a inFlightBlocks \<Rightarrow> 'a window_result \<times> 'a inFlightBlocks" where
  "ring_op (Register n x) b =
     (case register n x b of Inl e \<Rightarrow> (NotNext, b) | Inr (tracked, b') \<Rightarrow> (Registered tracked, b'))"
| "ring_op (Get n) b = (Found (ring_get n b), b)"
| "ring_op Oldest b = (Found (nextBlockToCommit b), b)"
| "ring_op DropOldest b =
     (case nextBlockToCommit b of None \<Rightarrow> (Dropped, b) | Some x \<Rightarrow> (Dropped, dropCommittedBlock b))"

fun window_op :: "'a window_call \<Rightarrow> u64 \<times> 'a list \<Rightarrow> 'a window_result \<times> u64 \<times> 'a list" where
  "window_op (Register n x) (a, xs) =
     (if unat (n - a) < length xs then (Registered True, a, xs)
      else if unat (n - a) = length xs then (Registered False, a, xs @ [x])
      else (NotNext, a, xs))"
| "window_op (Get n) (a, xs) = (Found (if unat (n - a) < length xs then Some (xs ! unat (n - a)) else None), a, xs)"
| "window_op Oldest (a, xs) = (Found (case xs of [] \<Rightarrow> None | x # r \<Rightarrow> Some x), a, xs)"
| "window_op DropOldest (a, xs) = (Dropped, case xs of [] \<Rightarrow> (a, xs) | x # r \<Rightarrow> (a + 1, r))"

fun run_ops :: "('op \<Rightarrow> 's \<Rightarrow> 'r \<times> 's) \<Rightarrow> 'op list \<Rightarrow> 's \<Rightarrow> 'r list" where
  "run_ops f [] s = []"
| "run_ops f (x # xs) s = (let (r, s') = f x s in r # run_ops f xs s')"

lemma ring_op_refines:
  assumes "ring_ok b" "Suc (ring_count b) < 2 ^ 64"
  shows "\<exists>r b'. ring_op x b = (r, b') \<and> ring_ok b' \<and> ring_count b' \<le> Suc (ring_count b) \<and>
    window_op x (nextBlockNum b, ring_blocks b) = (r, nextBlockNum b', ring_blocks b')"
proof (cases x)
  case (Register n y)
  show ?thesis
  proof (cases "unat (n - nextBlockNum b)" "ring_count b" rule: linorder_cases)
    case less
    then show ?thesis using ring.reg_tracked [OF assms(1), of n y] assms(1) by (simp add: Register)
  next
    case equal
    with register_next [OF assms(1) _ assms(2), of n y] obtain b' where b': "register n y b = Inr (False, b')"
      "ring_ok b'" "nextBlockNum b' = nextBlockNum b" "ring_blocks b' = ring_blocks b @ [y]" by blast
    then have "ring_count b' = Suc (ring_count b)" by (metis length_append_singleton length_ring_blocks)
    with b' equal show ?thesis by (simp add: Register)
  next
    case greater
    then obtain e where "register n y b = Inl e" using ring.reg_gap [OF assms(1), of n y] by auto
    with greater assms(1) show ?thesis by (simp add: Register)
  qed
next
  case (Get n)
  then show ?thesis using assms by (simp add: ring_get_eq)
next
  case Oldest
  then show ?thesis using assms by (simp add: nextBlockToCommit_eq)
next
  case DropOldest
  show ?thesis
  proof (cases "ring_blocks b")
    case Nil
    then show ?thesis using assms DropOldest by (simp add: nextBlockToCommit_eq)
  next
    case (Cons y ys)
    have "ring_count (dropCommittedBlock b) \<le> ring_count b" by (simp add: dropCommittedBlock_def)
    then show ?thesis
      using assms DropOldest Cons dropCommittedBlock_ok [OF assms(1)] by (simp add: nextBlockToCommit_eq)
  qed
qed

lemma ring_run_refines:
  assumes "ring_ok b" "ring_count b + length ops < 2 ^ 64"
  shows "run_ops ring_op ops b = run_ops window_op ops (nextBlockNum b, ring_blocks b)"
  using assms
proof (induction ops arbitrary: b)
  case (Cons x ops)
  obtain r b' where b': "ring_op x b = (r, b')" "ring_ok b'" "ring_count b' \<le> Suc (ring_count b)"
      "window_op x (nextBlockNum b, ring_blocks b) = (r, nextBlockNum b', ring_blocks b')"
    using ring_op_refines [OF Cons.prems(1), of x] Cons.prems(2) by auto
  have "ring_count b' + length ops < 2 ^ 64" using b'(3) Cons.prems(2) by simp
  with Cons.IH b' show ?case by simp
qed simp

text \<open>
  C17: The ring buffer answers every sequence of calls, wrapped and regrown as it may be, the way a list
  of blocks with consecutive numbers does: a block is registered only under the next number, looked up
  by its offset from the first, and retired in order.
\<close>

theorem in_flight_ring_refines_window:
  assumes "length ops < 2 ^ 64"
  shows "run_ops ring_op ops (ring_reset n) = run_ops window_op ops (n, [])"
proof -
  have "ring_ok (ring_reset n :: 'a inFlightBlocks)" "ring_blocks (ring_reset n :: 'a inFlightBlocks) = []"
    by (simp_all add: ring_ok_def ring_reset_def ring_blocks_def)
  with ring_run_refines [of "ring_reset n" ops] assms show ?thesis by (simp add: ring_reset_def)
qed

theorem in_flight_ring_refines_window_witness:
  "run_ops ring_op [Register 5 True, Register 6 False, DropOldest, Get 6, Get 5, Register 9 True] (ring_reset 5) =
     run_ops window_op [Register 5 True, Register 6 False, DropOldest, Get 6, Get 5, Register 9 True] (5, [])"
  by (rule in_flight_ring_refines_window) simp

end
