(* ===== verification/Sidecar_Relay.thy ===== *)
theory Sidecar_Relay
  imports Sidecar_Mapping Sidecar_Inflight Slots
begin

text \<open>
  \<open>service/sidecar/relay.go\<close>: one session of the relay. Its goroutines are the components of a step
  relation: \<open>preProcessBlock\<close> maps the incoming blocks and queues their segments, \<open>sendBlocksToCoordinator\<close>
  registers and sends them, \<open>processStatusBatch\<close> takes the statuses, both of the latter emit the
  committed blocks under a lock, and \<open>setLastCommittedBlockNumber\<close> reports the progress. The objects
  \<open>blockWithStatus\<close> are shared, so they are in a heap and everything else holds their addresses.
  A step that has to wait is not enabled. Metrics and the cancellation of the context are left out.
\<close>

record segment =
  sg_blockNumber :: u64
  sg_block :: CoordinatorBatch
  sg_withStatus :: nat

text \<open>What is left to do for the block that has been mapped.\<close>

datatype relay_action = Drain | ForwardConfig u64 | QueueSegment segment

datatype sender_pc = SIdle | SCommitting segment | SSending segment
datatype status_pc = TIdle | TStatus "TxStatus list" "TxStatus list" | TCommitting
datatype relay_worker = Sender | StatusWorker

datatype relay_error = MapFailed map_error | NotNextBlock u64 | StatusFailed map_error
  | CheckpointHalted | CheckpointHeld

record relay =
  rl_incoming :: "Block list"
  rl_dedup :: txIDDedup
  rl_heap :: "blockWithStatus list"
  rl_inFlight :: "nat inFlightBlocks"
  rl_slots :: Slots
  rl_todo :: "relay_action list"
  rl_queue :: "segment list"
  rl_sender :: sender_pc
  rl_sent :: "CoordinatorBatch list"
  rl_batches :: "TxStatusBatch list"
  rl_status :: status_pc
  rl_lock :: "relay_worker option"
  rl_committed :: "blockWithStatus list"
  rl_updates :: "TxStatus list list"
  rl_configs :: "u64 list"
  rl_checkpointHeld :: bool
  rl_expectedNext :: u64
  rl_reported :: "u64 list"
  rl_error :: "relay_error option"

definition newSession :: "u64 \<Rightarrow> int \<Rightarrow> Block list \<Rightarrow> relay" where
  "newSession nextExpected waitingTxsLimit incoming =
     \<lparr>rl_incoming = incoming, rl_dedup = newDedup, rl_heap = [], rl_inFlight = ring_reset nextExpected,
      rl_slots = NewSlots waitingTxsLimit, rl_todo = [], rl_queue = [], rl_sender = SIdle, rl_sent = [],
      rl_batches = [], rl_status = TIdle, rl_lock = None, rl_committed = [], rl_updates = [], rl_configs = [],
      rl_checkpointHeld = False, rl_expectedNext = nextExpected, rl_reported = [], rl_error = None\<rparr>"

section \<open>Mapping and queueing\<close>

definition inFlightTxCount :: "CoordinatorBatch \<Rightarrow> nat" where
  "inFlightTxCount batch = length (cb_txs batch) + length (cb_rejected batch)"

definition submitMappedBlock :: "blockMapper \<Rightarrow> nat \<Rightarrow> relay_action list" where
  "submitMappedBlock m ws =
     (let whole = \<lparr>sg_blockNumber = bm_blockNumber m, sg_block = bm_block m, sg_withStatus = ws\<rparr>
      in if bm_isConfig m then [Drain, ForwardConfig (bm_blockNumber m), QueueSegment whole, Drain]
         else case bm_snapshotTx m of
                Some tx \<Rightarrow>
                  (if length (cb_txs (bm_block m)) > 0 \<or> length (cb_rejected (bm_block m)) > 0
                   then [QueueSegment whole] else []) @
                  [Drain, QueueSegment (whole\<lparr>sg_block := \<lparr>cb_txs = [tx], cb_rejected = []\<rparr>\<rparr>), Drain]
              | None \<Rightarrow> [QueueSegment whole])"

definition preProcessBlock :: "('b, 'd) parsers \<Rightarrow> TxParsingConfig \<Rightarrow> relay \<Rightarrow> relay option" where
  "preProcessBlock ps cfg r =
     (case (rl_todo r, rl_incoming r) of
        ([], block # rest) \<Rightarrow>
          (let d = evictCommittedBelow (nextBlockNumberToCommit (rl_inFlight r)) (rl_dedup r)
           in case mapBlock ps cfg block d of
                Inl e \<Rightarrow> Some (r\<lparr>rl_incoming := rest, rl_error := Some (MapFailed e)\<rparr>)
              | Inr m \<Rightarrow>
                  Some (r\<lparr>rl_incoming := rest, rl_dedup := bm_dedup m, rl_heap := rl_heap r @ [bm_withStatus m],
                          rl_todo := submitMappedBlock m (length (rl_heap r))\<rparr>))
      | _ \<Rightarrow> None)"

definition submitNext :: "relay \<Rightarrow> relay option" where
  "submitNext r =
     (case rl_todo r of
        [] \<Rightarrow> None
      | Drain # as \<Rightarrow> (case WaitTillEmpty (rl_slots r) of None \<Rightarrow> None | Some s \<Rightarrow> Some (r\<lparr>rl_todo := as\<rparr>))
      | ForwardConfig n # as \<Rightarrow> Some (r\<lparr>rl_todo := as, rl_configs := rl_configs r @ [n]\<rparr>)
      | QueueSegment sg # as \<Rightarrow>
          (case Acquire (int (inFlightTxCount (sg_block sg))) (rl_slots r) of
             None \<Rightarrow> None
           | Some s \<Rightarrow> Some (r\<lparr>rl_todo := as, rl_slots := s, rl_queue := rl_queue r @ [sg]\<rparr>)))"

section \<open>Committed blocks\<close>

text \<open>One iteration of \<open>processCommittedBlocksInOrder\<close>; \<open>None\<close> ends the loop.\<close>

definition commitNext :: "relay \<Rightarrow> relay option" where
  "commitNext r =
     (case nextBlockToCommit (rl_inFlight r) of
        None \<Rightarrow> None
      | Some p \<Rightarrow>
          if bws_pendingCount (rl_heap r ! p) > 0 then None
          else let b = setStatusMetadataInBlock (rl_heap r ! p)
               in Some (r\<lparr>rl_inFlight := dropCommittedBlock (rl_inFlight r), rl_heap := (rl_heap r)[p := b],
                          rl_committed := rl_committed r @ [b]\<rparr>))"

section \<open>Sending\<close>

definition sendRegister :: "relay \<Rightarrow> relay option" where
  "sendRegister r =
     (case (rl_sender r, rl_queue r) of
        (SIdle, sg # q) \<Rightarrow>
          (case register (sg_blockNumber sg) (sg_withStatus sg) (rl_inFlight r) of
             Inl e \<Rightarrow> Some (r\<lparr>rl_queue := q, rl_error := Some (NotNextBlock e)\<rparr>)
           | Inr (tracked, ring) \<Rightarrow>
               Some (r\<lparr>rl_queue := q, rl_inFlight := ring,
                       rl_sender := if bws_pendingCount (rl_heap r ! sg_withStatus sg) = 0
                                    then SCommitting sg else SSending sg\<rparr>))
      | _ \<Rightarrow> None)"

definition sendBatch :: "relay \<Rightarrow> relay option" where
  "sendBatch r =
     (case rl_sender r of
        SSending sg \<Rightarrow> Some (r\<lparr>rl_sender := SIdle, rl_sent := rl_sent r @ [sg_block sg]\<rparr>)
      | _ \<Rightarrow> None)"

section \<open>Statuses\<close>

definition releaseCheckpointSlot :: "CheckpointFeedback \<Rightarrow> relay \<Rightarrow> relay" where
  "releaseCheckpointSlot fb r =
     (if cf_signal fb = SIGNAL_UNSPECIFIED then r
      else case cf_ref fb of
             None \<Rightarrow> r
           | Some ref \<Rightarrow>
               (case ring_get (ref_block_num ref) (rl_inFlight r) of
                  None \<Rightarrow> r
                | Some p \<Rightarrow> if \<not> holds (rl_heap r ! p) ref then r
                            else r\<lparr>rl_slots := Release 1 (rl_slots r)\<rparr>))"

text \<open>A held or halted checkpoint ends the session, the former after a pause.\<close>

definition processCheckpointFeedback :: "CheckpointFeedback \<Rightarrow> relay \<Rightarrow> relay" where
  "processCheckpointFeedback fb r =
     (case cf_signal fb of
        SIGNAL_UNSPECIFIED \<Rightarrow> r
      | HALT \<Rightarrow> r\<lparr>rl_error := Some CheckpointHalted\<rparr>
      | HOLD \<Rightarrow> r\<lparr>rl_checkpointHeld := True, rl_error := Some CheckpointHeld\<rparr>)"

definition takeStatusBatch :: "relay \<Rightarrow> relay option" where
  "takeStatusBatch r =
     (case (rl_status r, rl_batches r) of
        (TIdle, tStatus # rest) \<Rightarrow>
          (let r1 = r\<lparr>rl_batches := rest, rl_status := TStatus (tsb_status tStatus) []\<rparr>
           in Some (case tsb_feedback tStatus of
                      Some fb \<Rightarrow> processCheckpointFeedback fb (releaseCheckpointSlot fb r1)
                    | None \<Rightarrow> r1\<lparr>rl_checkpointHeld := False\<rparr>))
      | _ \<Rightarrow> None)"

definition takeStatus :: "relay \<Rightarrow> relay option" where
  "takeStatus r =
     (case rl_status r of
        TStatus (st # sts) report \<Rightarrow>
          (case ring_get (ref_block_num (st_ref st)) (rl_inFlight r) of
             None \<Rightarrow> Some (r\<lparr>rl_status := TStatus sts report\<rparr>)
           | Some p \<Rightarrow>
               if \<not> holds (rl_heap r ! p) (st_ref st) then Some (r\<lparr>rl_status := TStatus sts report\<rparr>)
               else case setFinalStatus (ref_tx_num (st_ref st)) (st_status st) (rl_heap r ! p) of
                      Inl e \<Rightarrow> Some (r\<lparr>rl_error := Some (StatusFailed e)\<rparr>)
                    | Inr b \<Rightarrow> Some (r\<lparr>rl_heap := (rl_heap r)[p := b], rl_status := TStatus sts (report @ [st])\<rparr>))
      | _ \<Rightarrow> None)"

definition releaseStatuses :: "relay \<Rightarrow> relay option" where
  "releaseStatuses r =
     (case rl_status r of
        TStatus [] report \<Rightarrow>
          Some (r\<lparr>rl_updates := (if length report > 0 then rl_updates r @ [report] else rl_updates r),
                  rl_slots := Release (int (length report)) (rl_slots r), rl_status := TCommitting\<rparr>)
      | _ \<Rightarrow> None)"

section \<open>The lock\<close>

definition wants_lock :: "relay_worker \<Rightarrow> relay \<Rightarrow> bool" where
  "wants_lock wk r \<longleftrightarrow>
     (case wk of
        Sender \<Rightarrow> (case rl_sender r of SCommitting sg \<Rightarrow> True | _ \<Rightarrow> False)
      | StatusWorker \<Rightarrow> rl_status r = TCommitting)"

definition lock_relay :: "relay_worker \<Rightarrow> relay \<Rightarrow> relay option" where
  "lock_relay wk r = (if wants_lock wk r \<and> rl_lock r = None then Some (r\<lparr>rl_lock := Some wk\<rparr>) else None)"

definition leave :: "relay_worker \<Rightarrow> relay \<Rightarrow> relay" where
  "leave wk r =
     (case wk of
        Sender \<Rightarrow> r\<lparr>rl_sender := (case rl_sender r of SCommitting sg \<Rightarrow> SSending sg | pc \<Rightarrow> pc), rl_lock := None\<rparr>
      | StatusWorker \<Rightarrow> r\<lparr>rl_status := TIdle, rl_lock := None\<rparr>)"

definition processCommittedBlocks :: "relay_worker \<Rightarrow> relay \<Rightarrow> relay option" where
  "processCommittedBlocks wk r =
     (if rl_lock r \<noteq> Some wk then None
      else case commitNext r of Some r' \<Rightarrow> Some r' | None \<Rightarrow> Some (leave wk r))"

section \<open>Progress reports\<close>

definition reportCommitted :: "relay \<Rightarrow> relay option" where
  "reportCommitted r =
     (if nextBlockNumberToCommit (rl_inFlight r) = rl_expectedNext r then None
      else let blkNum = nextBlockNumberToCommit (rl_inFlight r) - 1
           in Some (r\<lparr>rl_reported := rl_reported r @ [blkNum], rl_expectedNext := blkNum + 1\<rparr>))"

section \<open>Steps\<close>

text \<open>
  \<open>env\<close> says which status batches the coordinator may return in a state. A session that has failed takes
  no step.
\<close>

definition coordinatorReturns :: "TxStatusBatch \<Rightarrow> relay \<Rightarrow> relay" where
  "coordinatorReturns b r = r\<lparr>rl_batches := rl_batches r @ [b]\<rparr>"

inductive relay_step :: "('b, 'd) parsers \<Rightarrow> TxParsingConfig \<Rightarrow> (relay \<Rightarrow> TxStatusBatch \<Rightarrow> bool) \<Rightarrow> relay \<Rightarrow> relay \<Rightarrow> bool"
  for ps cfg env where
  step_map: "rl_error r = None \<Longrightarrow> preProcessBlock ps cfg r = Some r' \<Longrightarrow> relay_step ps cfg env r r'"
| step_submit: "rl_error r = None \<Longrightarrow> submitNext r = Some r' \<Longrightarrow> relay_step ps cfg env r r'"
| step_register: "rl_error r = None \<Longrightarrow> sendRegister r = Some r' \<Longrightarrow> relay_step ps cfg env r r'"
| step_send: "rl_error r = None \<Longrightarrow> sendBatch r = Some r' \<Longrightarrow> relay_step ps cfg env r r'"
| step_return: "rl_error r = None \<Longrightarrow> env r b \<Longrightarrow> relay_step ps cfg env r (coordinatorReturns b r)"
| step_take: "rl_error r = None \<Longrightarrow> takeStatusBatch r = Some r' \<Longrightarrow> relay_step ps cfg env r r'"
| step_status: "rl_error r = None \<Longrightarrow> takeStatus r = Some r' \<Longrightarrow> relay_step ps cfg env r r'"
| step_release: "rl_error r = None \<Longrightarrow> releaseStatuses r = Some r' \<Longrightarrow> relay_step ps cfg env r r'"
| step_lock: "rl_error r = None \<Longrightarrow> lock_relay wk r = Some r' \<Longrightarrow> relay_step ps cfg env r r'"
| step_commit: "rl_error r = None \<Longrightarrow> processCommittedBlocks wk r = Some r' \<Longrightarrow> relay_step ps cfg env r r'"
| step_report: "rl_error r = None \<Longrightarrow> reportCommitted r = Some r' \<Longrightarrow> relay_step ps cfg env r r'"

inductive relay_reachable :: "('b, 'd) parsers \<Rightarrow> TxParsingConfig \<Rightarrow> (relay \<Rightarrow> TxStatusBatch \<Rightarrow> bool) \<Rightarrow> relay \<Rightarrow> relay \<Rightarrow> bool"
  for ps cfg env r0 where
  relay_start: "relay_reachable ps cfg env r0 r0"
| relay_next: "relay_reachable ps cfg env r0 r \<Longrightarrow> relay_step ps cfg env r r' \<Longrightarrow> relay_reachable ps cfg env r0 r'"

end
