(* ===== verification/Sidecar_Mapping_Props.thy ===== *)
theory Sidecar_Mapping_Props
  imports Sidecar_Mapping "HOL-Library.Multiset"
begin

text \<open>
  Correctness of the mapping of blocks: what the form checks accept, that splitting the parsing among
  workers does not change its result, and that every message of a block gets exactly one outcome.
\<close>

section \<open>Keys\<close>

definition keys_of_ns :: "TxNamespace \<Rightarrow> bytes list" where
  "keys_of_ns ns = map r_key (ns_reads_only ns) @ map rw_key (ns_read_writes ns) @ map w_key (ns_blind_writes ns)"

lemma length_keys_of_ns [simp]: "length (keys_of_ns ns) = keyCount ns"
  by (simp add: keys_of_ns_def keyCount_def)

lemma nsKey_nth: "i < keyCount ns \<Longrightarrow> nsKey ns i = keys_of_ns ns ! i"
  by (auto simp: nsKey_def keys_of_ns_def keyCount_def nth_append Let_def)

lemma fold_go_put_keys:
  assumes "wf_gomap m"
  shows "wf_gomap (fold (\<lambda>x m. go_put (f x) () m) xs m) \<and>
    set (go_keys (fold (\<lambda>x m. go_put (f x) () m) xs m)) = set (go_keys m) \<union> f ` set xs"
  using assms by (induction xs arbitrary: m) auto

lemma length_unique_keys:
  "length (fold (\<lambda>i m. go_put (nsKey ns i) () m) [0..<keyCount ns] []) = card (set (keys_of_ns ns))"
proof -
  let ?m = "fold (\<lambda>i m. go_put (nsKey ns i) () m) [0..<keyCount ns] []"
  have "nsKey ns ` {0..<keyCount ns} = set (keys_of_ns ns)"
    by (auto simp: set_conv_nth nsKey_nth)
  then have "wf_gomap ?m" "set (go_keys ?m) = set (keys_of_ns ns)"
    using fold_go_put_keys [of "[]" "nsKey ns" "[0..<keyCount ns]"] by (simp_all add: go_keys_def)
  then show ?thesis
    by (metis distinct_card go_keys_def length_map wf_gomap_def)
qed

lemma distinct_pairs: "distinct xs \<longleftrightarrow> (\<forall>i < length xs. \<forall>j \<in> {i + 1..<length xs}. xs ! i \<noteq> xs ! j)"
proof -
  have "xs ! i \<noteq> xs ! j" if "\<forall>i < length xs. \<forall>j \<in> {i + 1..<length xs}. xs ! i \<noteq> xs ! j"
      "i < length xs" "j < length xs" "i \<noteq> j" for i j
    using that(1) [rule_format, of i j] that(1) [rule_format, of j i] that(2-4)
    by (cases i j rule: linorder_cases) force+
  then show ?thesis by (auto simp: distinct_conv_nth)
qed

lemma pairwise_check:
  "list_ex (\<lambda>i. list_ex (\<lambda>j. nsKey ns i = nsKey ns j) [Suc i..<keyCount ns]) [0..<keyCount ns] \<longleftrightarrow>
   \<not> distinct (keys_of_ns ns)"
  by (simp add: list_ex_iff distinct_pairs nsKey_nth Bex_def cong: conj_cong)

lemma checkKeys_eq:
  "checkKeys ns =
    (if [] \<in> set (keys_of_ns ns) then MALFORMED_EMPTY_KEY
     else if \<not> distinct (keys_of_ns ns) then MALFORMED_DUPLICATE_KEY_IN_READ_WRITE_SET
     else statusNotYetValidated)"
proof -
  have "list_ex (\<lambda>i. length (nsKey ns i) = 0) [0..<keyCount ns] \<longleftrightarrow> [] \<in> set (keys_of_ns ns)"
    by (force simp: list_ex_iff in_set_conv_nth nsKey_nth)
  moreover have "card (set (keys_of_ns ns)) = keyCount ns \<longleftrightarrow> distinct (keys_of_ns ns)"
    by (metis card_distinct distinct_card length_keys_of_ns)
  ultimately show ?thesis
    by (simp add: checkKeys_def Let_def length_unique_keys pairwise_check)
qed

text \<open>
  C19: The key check of a namespace, pairwise for few keys and with a set for many, finds exactly the empty
  and the repeated keys among the reads, the read-writes and the blind writes.
\<close>

theorem check_keys_equiv:
  "checkKeys ns =
    (let keys = map r_key (ns_reads_only ns) @ map rw_key (ns_read_writes ns) @ map w_key (ns_blind_writes ns)
     in if [] \<in> set keys then MALFORMED_EMPTY_KEY
        else if \<not> distinct keys then MALFORMED_DUPLICATE_KEY_IN_READ_WRITE_SET
        else statusNotYetValidated)"
  by (simp add: checkKeys_eq keys_of_ns_def)

section \<open>Well-formed transactions\<close>

definition meta_well_formed :: "wire \<Rightarrow> ('b, 'd) fabric \<Rightarrow> TxNamespace \<Rightarrow> bool" where
  "meta_well_formed w fb ns \<longleftrightarrow>
     ns_blind_writes ns = [] \<and> distinct (map rw_key (ns_read_writes ns)) \<and>
     (\<forall>rw \<in> set (ns_read_writes ns). rw_key rw \<noteq> MetaNamespaceID \<and>
        (\<exists>v. CreateNamespaceVerifier w fb \<lparr>pi_namespace = rw_key rw, pi_policy = rw_value rw\<rparr> None = Inr v))"

definition checkpoint_well_formed :: "wire \<Rightarrow> TxNamespace \<Rightarrow> bool" where
  "checkpoint_well_formed w ns \<longleftrightarrow>
     ns_reads_only ns = [] \<and> ns_blind_writes ns = [] \<and>
     (\<exists>rw n. ns_read_writes ns = [rw] \<and> rw_version rw = None \<and>
        BlockNumFromCheckpointKey w (rw_key rw) = Inr n \<and> IsValidCheckpointValue (rw_value rw))"

definition ns_well_formed :: "wire \<Rightarrow> ('b, 'd) fabric \<Rightarrow> TxNamespace \<Rightarrow> bool" where
  "ns_well_formed w fb ns \<longleftrightarrow>
     ns_id ns \<noteq> ConfigNamespaceID \<and> (IsSystemNamespace w (ns_id ns) \<or> ValidateNamespaceID (ns_id ns) = None) \<and>
     [] \<notin> set (keys_of_ns ns) \<and> distinct (keys_of_ns ns) \<and>
     (if ns_id ns = SnapshotNamespaceID then keys_of_ns ns = []
      else if ns_id ns = CheckpointNamespaceID then checkpoint_well_formed w ns
      else (ns_read_writes ns \<noteq> [] \<or> ns_blind_writes ns \<noteq> []) \<and>
           (ns_id ns = MetaNamespaceID \<longrightarrow> meta_well_formed w fb ns))"

definition tx_well_formed :: "wire \<Rightarrow> ('b, 'd) fabric \<Rightarrow> Tx \<Rightarrow> bool" where
  "tx_well_formed w fb tx \<longleftrightarrow>
     tx_namespaces tx \<noteq> [] \<and> length (tx_endorsements tx) = length (tx_namespaces tx) \<and>
     (\<forall>e \<in> set (tx_endorsements tx). \<exists>es. e = Some es \<and> es \<noteq> [] \<and>
        (\<forall>ei \<in> set es. \<exists>x. ei = Some x \<and> ei_endorsement x \<noteq> [])) \<and>
     distinct (map ns_id (tx_namespaces tx)) \<and>
     (\<forall>ns \<in> set (tx_namespaces tx). ns_well_formed w fb ns \<and>
        (ns_id ns = SnapshotNamespaceID \<or> ns_id ns = CheckpointNamespaceID \<longrightarrow> tx_namespaces tx = [ns]))"

lemma checkPolicies_ok:
  "checkPolicies w fb pds seen = statusNotYetValidated \<longleftrightarrow>
     distinct (map pi_namespace pds) \<and> set (map pi_namespace pds) \<inter> set seen = {} \<and>
     (\<forall>pd \<in> set pds. pi_namespace pd \<noteq> MetaNamespaceID \<and> (\<exists>v. CreateNamespaceVerifier w fb pd None = Inr v))"
  by (induction pds arbitrary: seen) (auto simp: statusNotYetValidated_def split: sum.splits)

lemma checkMetaNamespace_ok:
  assumes "ns_id ns = MetaNamespaceID"
  shows "checkMetaNamespace w fb ns = statusNotYetValidated \<longleftrightarrow> meta_well_formed w fb ns"
proof -
  let ?pds = "map (\<lambda>rw. \<lparr>pi_namespace = rw_key rw, pi_policy = rw_value rw\<rparr>) (ns_read_writes ns)"
  have "checkPolicies w fb ?pds [] = statusNotYetValidated \<longleftrightarrow>
      distinct (map rw_key (ns_read_writes ns)) \<and>
      (\<forall>rw \<in> set (ns_read_writes ns). rw_key rw \<noteq> MetaNamespaceID \<and>
         (\<exists>v. CreateNamespaceVerifier w fb \<lparr>pi_namespace = rw_key rw, pi_policy = rw_value rw\<rparr> None = Inr v))"
    unfolding checkPolicies_ok by (simp add: comp_def)
  then show ?thesis
    using assms by (simp add: checkMetaNamespace_def GetUpdatesFromNamespace_def meta_well_formed_def)
      (simp add: statusNotYetValidated_def)
qed

lemma checkSystemNamespace_ok:
  "checkSystemNamespace w fb ns = statusNotYetValidated \<longleftrightarrow>
     (if ns_id ns = SnapshotNamespaceID then keys_of_ns ns = []
      else if ns_id ns = CheckpointNamespaceID then checkpoint_well_formed w ns
      else ns_id ns = MetaNamespaceID \<longrightarrow> meta_well_formed w fb ns)"
proof -
  have "checkSystemNamespace w fb ns = statusNotYetValidated \<longleftrightarrow> checkpoint_well_formed w ns"
    if "ns_id ns = CheckpointNamespaceID"
  proof (cases "ns_read_writes ns")
    case Nil
    then show ?thesis
      using that by (simp add: checkSystemNamespace_def checkpoint_well_formed_def statusNotYetValidated_def)
  next
    case (Cons rw rws)
    then show ?thesis
      using that by (cases "BlockNumFromCheckpointKey w (rw_key rw)")
        (auto simp: checkSystemNamespace_def checkpoint_well_formed_def statusNotYetValidated_def)
  qed
  moreover have "checkSystemNamespace w fb ns = statusNotYetValidated \<longleftrightarrow> keys_of_ns ns = []"
    if "ns_id ns = SnapshotNamespaceID"
    using that by (auto simp: checkSystemNamespace_def keys_of_ns_def statusNotYetValidated_def)
  ultimately show ?thesis
    by (simp add: checkSystemNamespace_def checkMetaNamespace_ok)
qed

lemma checkNamespaceReadsWrites_ok:
  "checkNamespaceReadsWrites ns = statusNotYetValidated \<longleftrightarrow>
     (ns_read_writes ns \<noteq> [] \<or> ns_blind_writes ns \<noteq> [] \<or> ns_id ns = SnapshotNamespaceID \<or> ns_id ns = CheckpointNamespaceID) \<and>
     [] \<notin> set (keys_of_ns ns) \<and> distinct (keys_of_ns ns)"
  by (simp add: checkNamespaceReadsWrites_def checkKeys_eq statusNotYetValidated_def)

lemma verifyNamespaceForms_ok:
  "verifyNamespaceForms w fb nss seen = statusNotYetValidated \<longleftrightarrow>
     distinct (map ns_id nss) \<and> set (map ns_id nss) \<inter> set seen = {} \<and> (\<forall>ns \<in> set nss. ns_well_formed w fb ns)"
proof (induction nss arbitrary: seen)
  case (Cons ns nss)
  have "ns_well_formed w fb ns \<longleftrightarrow>
      ns_id ns \<noteq> ConfigNamespaceID \<and> (IsSystemNamespace w (ns_id ns) \<or> ValidateNamespaceID (ns_id ns) = None) \<and>
      checkNamespaceReadsWrites ns = statusNotYetValidated \<and> checkSystemNamespace w fb ns = statusNotYetValidated"
    by (auto simp: ns_well_formed_def checkNamespaceReadsWrites_ok checkSystemNamespace_ok)
  moreover have "MALFORMED_NAMESPACE_ID_INVALID \<noteq> statusNotYetValidated" "MALFORMED_DUPLICATE_NAMESPACE \<noteq> statusNotYetValidated"
    by (simp_all add: statusNotYetValidated_def)
  ultimately show ?case using Cons.IH [of "ns_id ns # seen"] by (auto simp: Let_def)
qed (simp add: statusNotYetValidated_def)

lemma checkEndorsements_ok:
  "checkEndorsements tx = statusNotYetValidated \<longleftrightarrow>
     length (tx_endorsements tx) = length (tx_namespaces tx) \<and>
     (\<forall>e \<in> set (tx_endorsements tx). \<exists>es. e = Some es \<and> es \<noteq> [] \<and>
        (\<forall>ei \<in> set es. \<exists>x. ei = Some x \<and> ei_endorsement x \<noteq> []))"
proof -
  have "\<not> endorsement_missing e \<longleftrightarrow>
      (\<exists>es. e = Some es \<and> es \<noteq> [] \<and> (\<forall>ei \<in> set es. \<exists>x. ei = Some x \<and> ei_endorsement x \<noteq> []))" for e
    by (cases e) (auto simp: endorsement_missing_def list_ex_iff split: option.splits)
  moreover have "checkEndorsements tx = statusNotYetValidated \<longleftrightarrow>
      length (tx_endorsements tx) = length (tx_namespaces tx) \<and> (\<forall>e \<in> set (tx_endorsements tx). \<not> endorsement_missing e)"
    by (auto simp: checkEndorsements_def statusNotYetValidated_def list_ex_iff)
  ultimately show ?thesis by (simp only:)
qed

lemma checkStandaloneSystemTx_ok:
  "checkStandaloneSystemTx tx = statusNotYetValidated \<longleftrightarrow>
     (\<forall>ns \<in> set (tx_namespaces tx). ns_id ns = SnapshotNamespaceID \<or> ns_id ns = CheckpointNamespaceID \<longrightarrow>
        tx_namespaces tx = [ns])"
proof -
  have "length nss = 1 \<longleftrightarrow> nss = [ns]" if "ns \<in> set nss" for ns :: TxNamespace and nss
    using that by (cases nss) auto
  then show ?thesis
    by (auto simp: checkStandaloneSystemTx_def statusNotYetValidated_def list_ex_iff)
qed

text \<open>
  C18: The form check accepts exactly the well-formed transactions: at least one namespace, an endorsement
  for each of them, no namespace twice and none that is the configuration; no empty or repeated key;
  something written, except that a snapshot request has no keys at all; a snapshot request and a
  checkpoint alone in their transaction; a checkpoint with one new key that names a block and a valid
  value; and policies that can be parsed, one per namespace, in the meta namespace.
\<close>

theorem verify_tx_form_iff:
  "verifyTxForm w fb tx = statusNotYetValidated \<longleftrightarrow> tx_well_formed w fb tx"
proof -
  have "verifyTxForm w fb tx = statusNotYetValidated \<longleftrightarrow>
      tx_namespaces tx \<noteq> [] \<and> checkEndorsements tx = statusNotYetValidated \<and>
      checkStandaloneSystemTx tx = statusNotYetValidated \<and>
      verifyNamespaceForms w fb (tx_namespaces tx) [] = statusNotYetValidated"
    by (auto simp: verifyTxForm_def Let_def statusNotYetValidated_def)
  then show ?thesis
    unfolding tx_well_formed_def checkEndorsements_ok checkStandaloneSystemTx_ok verifyNamespaceForms_ok
    by (simp add: ball_conj_distrib) blast
qed

section \<open>Splitting the parsing\<close>

lemma concat_ranges:
  assumes "0 < k"
  shows "concat (map (\<lambda>i. [n * i div k..<n * (i + 1) div k]) [0..<m]) = [0..<n * m div k]"
proof (induction m)
  case (Suc m)
  have "n * m div k \<le> n * (m + 1) div k" by (intro div_le_mono) simp
  then show ?case using Suc upt_add_eq_append [of 0 "n * m div k" "n * (m + 1) div k - n * m div k"] by simp
qed simp

lemma concat_parseRanges: "concat (parseRanges cfg n) = [0..<n]"
  using concat_ranges [of "parseWorkers cfg n" n "parseWorkers cfg n"] by (auto simp: parseRanges_def Let_def)

lemma fold_parseSlot:
  "fold (parseSlot ps b msgs) is arr =
    map (\<lambda>i. if i \<in> set is then Some (parseAt ps b msgs i) else arr ! i) [0..<length arr]"
  by (induction "is" arbitrary: arr) (auto simp: parseSlot_def map_nth intro!: nth_equalityI simp: nth_list_update)

lemma parse_any_order:
  assumes "set order = {0..<length msgs}"
  shows "fold (parseSlot ps b msgs) order (replicate (length msgs) None) =
    map (\<lambda>i. Some (parseAt ps b msgs i)) [0..<length msgs]"
  using assms by (simp add: fold_parseSlot)

lemma fold_concat: "fold (fold f) xss s = fold f (concat xss) s"
  by (induction xss arbitrary: s) simp_all

lemma parseMessages_eq:
  "parseMessages ps cfg b msgs = map (\<lambda>i. Some (parseAt ps b msgs i)) [0..<length msgs]"
  unfolding parseMessages_def fold_concat concat_parseRanges by (rule parse_any_order) simp

text \<open>
  C20: However many workers parse a block, and in whichever order their writes to the result array
  interleave, the array ends up holding what parsing the messages one by one gives. Every message is
  parsed by one worker only.
\<close>

theorem parse_messages_any_split:
  assumes "mset order = mset (concat (parseRanges cfg (length msgs)))"
  shows "fold (parseSlot ps b msgs) order (replicate (length msgs) None) =
      map (\<lambda>i. Some (parseAt ps b msgs i)) [0..<length msgs] \<and> distinct order"
proof -
  have "mset order = mset [0..<length msgs]" using assms by (simp add: concat_parseRanges)
  then have "set order = {0..<length msgs}" "distinct order"
    by (metis mset_eq_setD set_upt, metis distinct_upt mset_eq_imp_distinct_iff)
  then show ?thesis using parse_any_order by blast
qed

section \<open>One outcome for every message\<close>

definition accepted :: "blockMapper \<Rightarrow> TxWithRef list" where
  "accepted m = cb_txs (bm_block m) @ (case bm_snapshotTx m of None \<Rightarrow> [] | Some t \<Rightarrow> [t])"

definition num_of :: "TxRef \<Rightarrow> nat" where
  "num_of ref = unat (ref_tx_num ref)"

definition finals :: "blockWithStatus \<Rightarrow> nat list" where
  "finals b = filter (\<lambda>i. bws_txStatus b ! i \<noteq> statusNotYetValidated) [0..<length (bws_txStatus b)]"

text \<open>The references of the messages that go to the coordinator.\<close>

definition sent_refs :: "blockMapper \<Rightarrow> TxRef list" where
  "sent_refs m = map twr_ref (accepted m) @ map st_ref (cb_rejected (bm_block m))"

text \<open>
  After the first \<open>k\<close> messages: each of them is sent once or has a final status, the count of pending
  ones is right, and the IDs of the ones sent are new and in flight.
\<close>

definition mapper_inv :: "TxRef list \<Rightarrow> txIDDedup \<Rightarrow> nat \<Rightarrow> blockMapper \<Rightarrow> bool" where
  "mapper_inv refs d0 k m \<longleftrightarrow>
     map fst (bws_txs (bm_withStatus m)) = refs \<and> length (bws_txStatus (bm_withStatus m)) = length refs \<and>
     mset (map num_of (sent_refs m)) + mset (finals (bm_withStatus m)) = mset [0..<k] \<and>
     set (sent_refs m) \<subseteq> set refs \<and>
     bws_pendingCount (bm_withStatus m) = int (length refs) - int (length (finals (bm_withStatus m))) \<and>
     mset (bm_txIDs m) = mset (map ref_tx_id (sent_refs m)) \<and> distinct (bm_txIDs m) \<and>
     set (bm_txIDs m) \<inter> dom (map_of (dd_ids d0)) = {} \<and>
     dom (map_of (dd_ids (bm_dedup m))) = dom (map_of (dd_ids d0)) \<union> set (bm_txIDs m) \<and>
     dd_blocks (bm_dedup m) = dd_blocks d0"

lemma mset_finals_update:
  assumes "i < length (bws_txStatus b)" "bws_txStatus b ! i = statusNotYetValidated" "st \<noteq> statusNotYetValidated"
    and "bws_txStatus b' = (bws_txStatus b)[i := st]"
  shows "mset (finals b') = add_mset i (mset (finals b))"
proof -
  have d: "distinct (finals b)" "distinct (finals b')" by (simp_all add: finals_def)
  have "set (finals b') = insert i (set (finals b))" "i \<notin> set (finals b)"
    using assms by (auto simp: finals_def nth_list_update)
  then have "mset (finals b') = mset (i # finals b)"
    using d by (subst set_eq_iff_mset_eq_distinct [symmetric]) simp_all
  then show ?thesis by simp
qed

lemma rejectNonDB_inv:
  assumes "mapper_inv refs d0 k m" "rejectNonDBStatusTx ref st m = Inr m'" "num_of ref = k"
  shows "mapper_inv refs d0 (Suc k) m'"
proof -
  obtain b where b: "setFinalStatus (ref_tx_num ref) st (bm_withStatus m) = Inr b" "m' = m\<lparr>bm_withStatus := b\<rparr>"
    and "\<not> IsStatusStoredInDB st"
    using assms(2) by (auto simp: rejectNonDBStatusTx_def split: if_splits sum.splits)
  then have st: "st \<noteq> statusNotYetValidated" by (auto simp: IsStatusStoredInDB_def statusNotYetValidated_def)
  let ?ws = "bm_withStatus m"
  have k: "k < length (bws_txStatus ?ws)" "bws_txStatus ?ws ! k = statusNotYetValidated"
    "b = ?ws\<lparr>bws_txStatus := (bws_txStatus ?ws)[k := st], bws_pendingCount := bws_pendingCount ?ws - 1\<rparr>"
    using b(1) assms(3) by (auto simp: setFinalStatus_def num_of_def split: if_splits)
  have f: "mset (finals b) = add_mset k (mset (finals ?ws))"
    by (rule mset_finals_update [OF k(1,2) st]) (simp add: k(3))
  then have "length (finals b) = Suc (length (finals ?ws))" by (metis size_mset size_add_mset)
  with assms(1) f show ?thesis
    by (simp add: mapper_inv_def b(2) sent_refs_def accepted_def) (simp add: k(3))
qed

lemma addTxIDMapping_inv:
  assumes "mapper_inv refs d0 k m" "addTxIDMapping ref m = Inr (dup, m')" "num_of ref = k"
  shows "if dup then mapper_inv refs d0 (Suc k) m'
    else map_of (dd_ids (bm_dedup m)) (ref_tx_id ref) = None \<and>
      m' = m\<lparr>bm_dedup := (bm_dedup m)\<lparr>dd_ids := go_put (ref_tx_id ref) () (dd_ids (bm_dedup m))\<rparr>,
             bm_txIDs := bm_txIDs m @ [ref_tx_id ref]\<rparr>"
  using assms rejectNonDB_inv [OF assms(1) _ assms(3)]
  by (cases "map_of (dd_ids (bm_dedup m)) (ref_tx_id ref)")
     (auto simp: addTxIDMapping_def dedup_add_def split: if_splits sum.splits)

lemma mapper_inv_send:
  assumes "mapper_inv refs d0 k m" "map_of (dd_ids (bm_dedup m)) (ref_tx_id ref) = None"
    and "num_of ref = k" "ref \<in> set refs"
    and "map fst (bws_txs (bm_withStatus m')) = refs" "bws_txStatus (bm_withStatus m') = bws_txStatus (bm_withStatus m)"
      "bws_pendingCount (bm_withStatus m') = bws_pendingCount (bm_withStatus m)"
    and "mset (sent_refs m') = add_mset ref (mset (sent_refs m))"
    and "bm_dedup m' = (bm_dedup m)\<lparr>dd_ids := go_put (ref_tx_id ref) () (dd_ids (bm_dedup m))\<rparr>"
      "bm_txIDs m' = bm_txIDs m @ [ref_tx_id ref]"
  shows "mapper_inv refs d0 (Suc k) m'"
proof -
  have f: "finals (bm_withStatus m') = finals (bm_withStatus m)" by (simp add: finals_def assms(6))
  have "mset (map num_of (sent_refs m')) = add_mset k (mset (map num_of (sent_refs m)))"
    "mset (map ref_tx_id (sent_refs m')) = add_mset (ref_tx_id ref) (mset (map ref_tx_id (sent_refs m)))"
    by (simp_all add: assms(3,8))
  moreover have "set (sent_refs m') = insert ref (set (sent_refs m))"
    using assms(8) by (metis set_mset_add_mset_insert set_mset_mset)
  moreover have "ref_tx_id ref \<notin> dom (map_of (dd_ids d0)) \<union> set (bm_txIDs m)"
    using assms(1,2) by (simp add: mapper_inv_def) (metis domIff Un_iff)
  ultimately show ?thesis
    using assms(1,4-7,9,10) unfolding mapper_inv_def f by auto
qed

lemma rejectTx_inv:
  assumes "mapper_inv refs d0 k m" "rejectTx ref st m = Inr m'" "num_of ref = k" "ref \<in> set refs"
  shows "mapper_inv refs d0 (Suc k) m'"
proof (cases "IsStatusStoredInDB st")
  case True
  obtain dup m1 where a: "addTxIDMapping ref m = Inr (dup, m1)"
    using assms(2) True by (auto simp: rejectTx_def split: sum.splits)
  note i = addTxIDMapping_inv [OF assms(1) a assms(3)]
  show ?thesis
  proof (cases dup)
    case True
    with i a assms(2) \<open>IsStatusStoredInDB st\<close> show ?thesis by (simp add: rejectTx_def)
  next
    case False
    then have m': "m' = m1\<lparr>bm_block := (bm_block m1)\<lparr>cb_rejected := cb_rejected (bm_block m1) @
        [\<lparr>st_ref = ref, st_status = st\<rparr>]\<rparr>\<rparr>"
      using assms(2) a \<open>IsStatusStoredInDB st\<close> by (simp add: rejectTx_def)
    show ?thesis
      by (rule mapper_inv_send [OF assms(1) _ assms(3,4)])
         (use i False assms(1) in \<open>simp_all add: m' sent_refs_def accepted_def mapper_inv_def\<close>)
  qed
next
  case False
  with assms(2) rejectNonDB_inv [OF assms(1) _ assms(3)] show ?thesis by (simp add: rejectTx_def)
qed

text \<open>The slot of an accepted transaction is returned; placing it anywhere keeps the invariant.\<close>

lemma prepareTxSlot_inv:
  assumes "mapper_inv refs d0 k m" "prepareTxSlot ref tx m = Inr (res, m')" "num_of ref = k" "refs ! k = ref" "k < length refs"
  shows "case res of
      None \<Rightarrow> mapper_inv refs d0 (Suc k) m'
    | Some t \<Rightarrow> twr_ref t = ref \<and> bm_block m' = bm_block m \<and> bm_snapshotTx m' = bm_snapshotTx m \<and>
        (\<forall>m''. bm_withStatus m'' = bm_withStatus m' \<and> bm_dedup m'' = bm_dedup m' \<and> bm_txIDs m'' = bm_txIDs m' \<and>
               mset (sent_refs m'') = add_mset ref (mset (sent_refs m)) \<longrightarrow> mapper_inv refs d0 (Suc k) m'')"
proof -
  obtain dup m1 where a: "addTxIDMapping ref m = Inr (dup, m1)"
    using assms(2) by (auto simp: prepareTxSlot_def split: sum.splits)
  note i = addTxIDMapping_inv [OF assms(1) a assms(3)]
  show ?thesis
  proof (cases dup)
    case True
    with i a assms(2) show ?thesis by (auto simp: prepareTxSlot_def)
  next
    case False
    let ?ws = "bm_withStatus m"
    have refs: "map fst (bws_txs ?ws) = refs" using assms(1) by (simp add: mapper_inv_def)
    then have l: "length (bws_txs ?ws) = length refs" "fst (bws_txs ?ws ! k) = ref"
      using assms(4,5) by (auto simp flip: nth_map)
    have ws1: "bm_withStatus m1 = ?ws" using i False by simp
    have res: "res = Some \<lparr>twr_ref = ref, twr_content = tx\<rparr>"
      and m': "m' = m1\<lparr>bm_withStatus := ?ws\<lparr>bws_txs := (bws_txs ?ws)[k := (ref, Some tx)]\<rparr>\<rparr>"
      using assms(2,3,5) a False l ws1 by (auto simp: prepareTxSlot_def num_of_def Let_def split: if_splits)
    have refs': "map fst ((bws_txs ?ws)[k := (ref, Some tx)]) = refs"
      using refs assms(4) by (simp add: map_update list_update_same_conv assms(5))
    have "mapper_inv refs d0 (Suc k) m''"
      if "bm_withStatus m'' = bm_withStatus m'" "bm_dedup m'' = bm_dedup m'" "bm_txIDs m'' = bm_txIDs m'"
        "mset (sent_refs m'') = add_mset ref (mset (sent_refs m))" for m''
      by (rule mapper_inv_send [OF assms(1) _ assms(3)])
         (use i False that assms(4,5) refs' nth_mem in \<open>auto simp: m'\<close>)
    then show ?thesis using i False by (simp add: res m')
  qed
qed

lemma applyParsedTX_inv:
  assumes "mapper_inv refs d0 k m" "applyParsedTX (ref, px) m = Inr m'" "num_of ref = k" "refs ! k = ref" "k < length refs"
  shows "mapper_inv refs d0 (Suc k) m'"
proof -
  have r: "ref \<in> set refs" using assms(4,5) nth_mem by blast
  note slot = prepareTxSlot_inv [OF assms(1) _ assms(3-5)]
  consider (reject) st where "rejectTx ref st m = Inr m'"
    | (dup) tx where "prepareTxSlot ref tx m = Inr (None, m')"
    | (config) tx t m1 where "prepareTxSlot ref tx m = Inr (Some t, m1)" "m' = appendToBatch t (m1\<lparr>bm_isConfig := True\<rparr>)"
    | (add) tx t m1 where "prepareTxSlot ref tx m = Inr (Some t, m1)" "m' = appendToBatch t m1"
    | (snap) tx t m1 where "prepareTxSlot ref tx m = Inr (Some t, m1)" "bm_snapshotTx m = None" "m' = m1\<lparr>bm_snapshotTx := Some t\<rparr>"
    using assms(2)
    by (auto simp: applyParsedTX_def appendTx_def appendConfigTx_def split: option.splits if_splits sum.splits)
  then show ?thesis
  proof cases
    case reject
    then show ?thesis by (rule rejectTx_inv [OF assms(1) _ assms(3) r])
  next
    case dup
    from slot [OF this] show ?thesis by simp
  next
    case config
    from slot [OF config(1)] show ?thesis
      by (auto simp: config(2) appendToBatch_def sent_refs_def accepted_def split: option.splits)
  next
    case add
    from slot [OF add(1)] show ?thesis
      by (auto simp: add(2) appendToBatch_def sent_refs_def accepted_def split: option.splits)
  next
    case snap
    from slot [OF snap(1)] snap(2) show ?thesis by (auto simp: snap(3) sent_refs_def accepted_def)
  qed
qed

lemma loop_applyParsedTX_inv:
  assumes "loop_err applyParsedTX (drop k parsed) m = Inr m'" "mapper_inv (map fst parsed) d0 k m" "k \<le> length parsed"
    and "\<And>i. i < length parsed \<Longrightarrow> num_of (fst (parsed ! i)) = i"
  shows "mapper_inv (map fst parsed) d0 (length parsed) m'"
  using assms(1-3)
proof (induction "length parsed - k" arbitrary: k m)
  case 0
  then show ?case by simp
next
  case (Suc n)
  then have k: "k < length parsed" by linarith
  then have "drop k parsed = parsed ! k # drop (Suc k) parsed" by (simp add: Cons_nth_drop_Suc)
  with Suc.prems(1) obtain m1 where m1: "applyParsedTX (parsed ! k) m = Inr m1"
      "loop_err applyParsedTX (drop (Suc k) parsed) m1 = Inr m'"
    by (auto split: sum.splits)
  have "mapper_inv (map fst parsed) d0 (Suc k) m1"
    by (rule applyParsedTX_inv [OF Suc.prems(2), of "fst (parsed ! k)" "snd (parsed ! k)"])
       (use m1(1) assms(4) k in simp_all)
  with Suc.hyps(1) [of "Suc k" m1] Suc.hyps(2) m1(2) k show ?case by simp
qed

lemma mapBlock_inv:
  assumes "mapBlock ps cfg block d = Inr m" "blk_data block = Some msgs" "length msgs < 2 ^ 32"
  shows "\<exists>m0. mapper_inv (map (\<lambda>i. fst (parseAt ps (blk_number block) msgs i)) [0..<length msgs]) d (length msgs) m0 \<and>
    m = m0\<lparr>bm_dedup := trackBlock (blk_number block) (bm_txIDs m0) (bm_dedup m0)\<rparr>"
proof -
  let ?parsed = "map (parseAt ps (blk_number block) msgs) [0..<length msgs]"
  have p: "map the (parseMessages ps cfg (blk_number block) msgs) = ?parsed"
    by (simp add: parseMessages_eq)
  obtain m0 where m0: "loop_err applyParsedTX ?parsed (newMapper (blk_number block) ?parsed d) = Inr m0"
      "m = m0\<lparr>bm_dedup := trackBlock (blk_number block) (bm_txIDs m0) (bm_dedup m0)\<rparr>"
    using assms(1,2) p by (auto simp: mapBlock_def Let_def split: sum.splits)
  have "finals (bm_withStatus (newMapper (blk_number block) ?parsed d)) = []"
    by (auto simp: finals_def newMapper_def filter_empty_conv)
  then have "mapper_inv (map fst ?parsed) d 0 (newMapper (blk_number block) ?parsed d)"
    by (simp add: mapper_inv_def newMapper_def sent_refs_def accepted_def comp_def split_def)
  moreover have "num_of (fst (?parsed ! i)) = i" if "i < length ?parsed" for i
    using that assms(3) by (simp add: num_of_def parseAt_def unat_of_nat take_bit_eq_mod split: prod.splits)
  ultimately have "mapper_inv (map fst ?parsed) d (length ?parsed) m0"
    using loop_applyParsedTX_inv [of 0 ?parsed _ m0 d] m0(1) by simp
  with m0(2) show ?thesis by (auto simp: comp_def)
qed


section \<open>A sample block\<close>

text \<open>
  Transactions are one blind write each, of the data of the envelope, in the namespace \<open>a\<close>. The block has
  a message that is no envelope, a transaction, and one with the same ID.
\<close>

definition demo_tx :: "bytes \<Rightarrow> Tx" where
  "demo_tx b =
     \<lparr>tx_namespaces = [\<lparr>ns_id = ''a'', ns_version = 0, ns_reads_only = [], ns_read_writes = [],
                       ns_blind_writes = [\<lparr>w_key = ''k'', w_value = b\<rparr>]\<rparr>],
      tx_endorsements = [Some [Some \<lparr>ei_endorsement = ''s'', ei_identity = None\<rparr>]], tx_metadata = []\<rparr>"

definition ref_fabric0 :: "(unit, unit) fabric" where
  "ref_fabric0 =
     \<lparr>UnmarshalPolicy = \<lambda>b. None, NewBundle = \<lambda>b. None, GetPolicy = \<lambda>b path. None, MSPManager = \<lambda>b. None,
      NewPolicy = \<lambda>d r. None, ASN1Marshal = \<lambda>i m n. None, Sum256 = \<lambda>b. b, NewEcdsaVerifier = \<lambda>k. None,
      NewBLSVerifier = \<lambda>k. None, VerifyEd25519 = \<lambda>k d s. False\<rparr>"

definition ref_parsers :: "(unit, unit) parsers" where
  "ref_parsers =
     \<lparr>p_wire = ref_wire, p_protowire = ref_protowire, p_protoutil = ref_protoutil, p_fabric = ref_fabric0,
      UnmarshalTx = \<lambda>b. Some (demo_tx b), UnmarshalConfigEnvelope = \<lambda>b. None\<rparr>"

definition demo_message :: "string \<Rightarrow> bytes \<Rightarrow> bytes" where
  "demo_message txID content =
     marshal ref_protowire [BytesField 1 (marshal ref_protowire
       [BytesField 1 (marshal ref_protowire [BytesField 1 (marshal ref_protowire [BytesField 5 txID])]),
        BytesField 2 content])]"

definition demo_msgs :: "bytes list" where
  "demo_msgs = [''x'', demo_message ''t1'' ''v'', demo_message ''t1'' ''u'', demo_message ''t2'' ''v'']"

definition demo_block :: Block where
  "demo_block = \<lparr>blk_number = 7, blk_data = Some demo_msgs\<rparr>"

definition demo_cfg :: TxParsingConfig where
  "demo_cfg = \<lparr>MaxWorkers = 2, MinBatchSize = 2\<rparr>"

theorem parse_messages_any_split_witness:
  "fold (parseSlot ref_parsers 7 demo_msgs) [2, 0, 3, 1] (replicate 4 None) =
     map (\<lambda>i. Some (parseAt ref_parsers 7 demo_msgs i)) [0..<4] \<and> distinct [2, 0, 3, 1 :: nat]"
proof -
  have l: "length demo_msgs = 4" by (simp add: demo_msgs_def)
  have "concat (parseRanges demo_cfg 4) = [0, 1, 2, 3]" by code_simp
  then have "mset [2, 0, 3, 1] = mset (concat (parseRanges demo_cfg (length demo_msgs)))"
    by (simp add: l)
  from parse_messages_any_split [OF this] show ?thesis by (simp add: l)
qed


end
