(* ===== verification/Sidecar_Relay_Props.thy ===== *)
theory Sidecar_Relay_Props
  imports Sidecar_Relay Sidecar_Mapping_Props
begin

text \<open>
  Correctness of a relay session: blocks are committed in order with all their statuses set.
\<close>

section \<open>Blocks\<close>

definition unset :: "blockWithStatus \<Rightarrow> nat" where
  "unset b = length (filter (\<lambda>s. s = statusNotYetValidated) (bws_txStatus b))"

definition block_ok :: "blockWithStatus \<Rightarrow> bool" where
  "block_ok b \<longleftrightarrow> length (bws_txs b) = length (bws_txStatus b) \<and> bws_pendingCount b = int (unset b)"

definition settled :: "blockWithStatus \<Rightarrow> bool" where
  "settled b \<longleftrightarrow> statusNotYetValidated \<notin> set (bws_txStatus b) \<and> bws_filter b = Some (bws_txStatus b)"

lemma length_filter_update:
  assumes "i < length xs" "P (xs ! i)" "\<not> P y"
  shows "Suc (length (filter P (xs[i := y]))) = length (filter P xs)"
proof -
  have xs: "xs = take i xs @ xs ! i # drop (Suc i) xs" using assms(1) by (rule id_take_nth_drop)
  have "length (filter P xs) = length (filter P (take i xs)) + Suc (length (filter P (drop (Suc i) xs)))"
    by (subst xs) (simp add: assms(2))
  then show ?thesis using assms by (simp add: upd_conv_take_nth_drop)
qed

lemma setFinalStatus_ok:
  assumes "setFinalStatus n st b = Inr b'" "block_ok b" "st \<noteq> statusNotYetValidated"
  shows "block_ok b'" "bws_blockNumber b' = bws_blockNumber b" "bws_txs b' = bws_txs b"
    "bws_txStatus b' = (bws_txStatus b)[unat n := st]" "Suc (unset b') = unset b"
    "unat n < length (bws_txStatus b)" "bws_txStatus b ! unat n = statusNotYetValidated"
proof -
  have n: "unat n < length (bws_txStatus b)" "bws_txStatus b ! unat n = statusNotYetValidated"
    and b': "b' = b\<lparr>bws_txStatus := (bws_txStatus b)[unat n := st], bws_pendingCount := bws_pendingCount b - 1\<rparr>"
    using assms(1) by (auto simp: setFinalStatus_def split: if_splits)
  have u: "Suc (unset b') = unset b"
    using length_filter_update [OF n(1), of "\<lambda>s. s = statusNotYetValidated" st] n(2) assms(3) by (simp add: unset_def b')
  show "block_ok b'" "bws_blockNumber b' = bws_blockNumber b" "bws_txs b' = bws_txs b"
    "bws_txStatus b' = (bws_txStatus b)[unat n := st]" "Suc (unset b') = unset b"
    "unat n < length (bws_txStatus b)" "bws_txStatus b ! unat n = statusNotYetValidated"
    using u assms(2) n by (auto simp: block_ok_def) (simp_all add: b')
qed

lemma unset_zero: "unset b = 0 \<longleftrightarrow> statusNotYetValidated \<notin> set (bws_txStatus b)"
  by (auto simp: unset_def filter_empty_conv)

text \<open>Mapping a block gives a consistent object with the number of the block.\<close>

definition kept :: "blockMapper \<Rightarrow> blockMapper \<Rightarrow> bool" where
  "kept m m' \<longleftrightarrow>
     (block_ok (bm_withStatus m) \<longrightarrow> block_ok (bm_withStatus m')) \<and>
     bws_blockNumber (bm_withStatus m') = bws_blockNumber (bm_withStatus m) \<and> bm_blockNumber m' = bm_blockNumber m"

lemma kept_trans: "kept m m1 \<Longrightarrow> kept m1 m2 \<Longrightarrow> kept m m2"
  by (simp add: kept_def)

lemma kept_eq: "bm_withStatus m' = bm_withStatus m \<Longrightarrow> bm_blockNumber m' = bm_blockNumber m \<Longrightarrow> kept m m'"
  by (simp add: kept_def)

lemma reject_kept:
  assumes "rejectNonDBStatusTx ref st m = Inr m'"
  shows "kept m m'"
proof -
  obtain b where b: "setFinalStatus (ref_tx_num ref) st (bm_withStatus m) = Inr b" "m' = m\<lparr>bm_withStatus := b\<rparr>"
    "st \<noteq> statusNotYetValidated"
    using assms by (auto simp: rejectNonDBStatusTx_def IsStatusStoredInDB_def statusNotYetValidated_def
        split: if_splits sum.splits)
  have "bws_blockNumber b = bws_blockNumber (bm_withStatus m)"
    using b(1) by (auto simp: setFinalStatus_def split: if_splits)
  moreover have "block_ok (bm_withStatus m) \<longrightarrow> block_ok b" using setFinalStatus_ok(1) [OF b(1) _ b(3)] by blast
  ultimately show ?thesis by (simp add: kept_def b(2))
qed

lemma addTxIDMapping_kept:
  assumes "addTxIDMapping ref m = Inr (dup, m')"
  shows "kept m m'"
proof -
  obtain new d where d: "dedup_add (ref_tx_id ref) (bm_dedup m) = (new, d)" by (cases "dedup_add (ref_tx_id ref) (bm_dedup m)")
  show ?thesis
  proof (cases new)
    case True
    with assms d show ?thesis by (auto simp: addTxIDMapping_def intro!: kept_eq)
  next
    case False
    with assms d have "rejectNonDBStatusTx ref REJECTED_DUPLICATE_TX_ID m = Inr m'"
      by (auto simp: addTxIDMapping_def split: sum.splits)
    then show ?thesis by (rule reject_kept)
  qed
qed

lemma rejectTx_kept:
  assumes "rejectTx ref st m = Inr m'"
  shows "kept m m'"
proof (cases "IsStatusStoredInDB st")
  case True
  then obtain dup m1 where "addTxIDMapping ref m = Inr (dup, m1)" "bm_withStatus m' = bm_withStatus m1"
      "bm_blockNumber m' = bm_blockNumber m1"
    using assms by (auto simp: rejectTx_def split: sum.splits bool.splits)
  then show ?thesis using addTxIDMapping_kept kept_eq kept_trans by metis
next
  case False
  with assms show ?thesis by (simp add: rejectTx_def reject_kept)
qed

lemma prepareTxSlot_kept:
  assumes "prepareTxSlot ref tx m = Inr (res, m')"
  shows "kept m m'"
proof -
  obtain dup m1 where a: "addTxIDMapping ref m = Inr (dup, m1)"
    using assms by (auto simp: prepareTxSlot_def split: sum.splits)
  have "kept m1 m'"
    using assms a by (cases dup) (auto simp: prepareTxSlot_def Let_def kept_def block_ok_def unset_def split: if_splits)
  with addTxIDMapping_kept [OF a] show ?thesis by (rule kept_trans)
qed

lemma applyParsedTX_kept:
  assumes "applyParsedTX x m = Inr m'"
  shows "kept m m'"
proof -
  obtain ref px where x: "x = (ref, px)" by (cases x)
  consider (reject) st where "rejectTx ref st m = Inr m'"
    | (slot) tx res m1 where "prepareTxSlot ref tx m = Inr (res, m1)" "bm_withStatus m' = bm_withStatus m1"
        "bm_blockNumber m' = bm_blockNumber m1"
    using assms
    by (auto simp: x applyParsedTX_def appendTx_def appendConfigTx_def appendToBatch_def
        split: option.splits if_splits sum.splits)
  then show ?thesis
  proof cases
    case reject
    then show ?thesis by (rule rejectTx_kept)
  next
    case slot
    from prepareTxSlot_kept [OF slot(1)] kept_eq [OF slot(2,3)] show ?thesis by (rule kept_trans)
  qed
qed

lemma mapBlock_block_ok:
  assumes "mapBlock ps cfg block d = Inr m"
  shows "block_ok (bm_withStatus m) \<and> bws_blockNumber (bm_withStatus m) = blk_number block \<and> bm_blockNumber m = blk_number block"
proof -
  let ?P = "\<lambda>m. block_ok (bm_withStatus m) \<and> bws_blockNumber (bm_withStatus m) = blk_number block \<and> bm_blockNumber m = blk_number block"
  have 0: "?P (newMapper (blk_number block) parsed d)" for parsed
    by (simp add: newMapper_def block_ok_def unset_def statusNotYetValidated_def)
  show ?thesis
  proof (cases "blk_data block")
    case None
    with assms 0 show ?thesis by (auto simp: mapBlock_def)
  next
    case (Some msgs)
    then obtain parsed m0 where m0: "loop_err applyParsedTX parsed (newMapper (blk_number block) parsed d) = Inr m0"
        "m = m0\<lparr>bm_dedup := trackBlock (blk_number block) (bm_txIDs m0) (bm_dedup m0)\<rparr>"
      using assms by (auto simp: mapBlock_def Let_def split: sum.splits)
    have "?P m0"
      by (rule loop_err_inv [where P = ?P, OF m0(1) 0]) (use applyParsedTX_kept in \<open>auto simp: kept_def\<close>)
    then show ?thesis by (simp add: m0(2))
  qed
qed

section \<open>The session invariant\<close>

fun action_segments :: "relay_action list \<Rightarrow> segment list" where
  "action_segments [] = []"
| "action_segments (QueueSegment sg # as) = sg # action_segments as"
| "action_segments (Drain # as) = action_segments as"
| "action_segments (ForwardConfig n # as) = action_segments as"

fun sender_segments :: "sender_pc \<Rightarrow> segment list" where
  "sender_segments SIdle = []"
| "sender_segments (SCommitting sg) = [sg]"
| "sender_segments (SSending sg) = [sg]"

fun pc_statuses :: "status_pc \<Rightarrow> TxStatus list" where
  "pc_statuses (TStatus sts report) = sts"
| "pc_statuses TIdle = []"
| "pc_statuses TCommitting = []"

definition segments :: "relay \<Rightarrow> segment list" where
  "segments r = action_segments (rl_todo r) @ rl_queue r @ sender_segments (rl_sender r)"

definition points_to :: "blockWithStatus list \<Rightarrow> nat \<Rightarrow> u64 \<Rightarrow> bool" where
  "points_to h p n \<longleftrightarrow> p < length h \<and> bws_blockNumber (h ! p) = n"

definition window_inv :: "u64 \<Rightarrow> relay \<Rightarrow> bool" where
  "window_inv start r \<longleftrightarrow>
     ring_ok (rl_inFlight r) \<and> nextBlockNum (rl_inFlight r) = start + word_of_nat (length (rl_committed r)) \<and>
     (\<forall>i < ring_count (rl_inFlight r). points_to (rl_heap r) (ring_blocks (rl_inFlight r) ! i)
        (start + word_of_nat (length (rl_committed r)) + word_of_nat i))"

definition committed_inv :: "u64 \<Rightarrow> relay \<Rightarrow> bool" where
  "committed_inv start r \<longleftrightarrow>
     (\<forall>i < length (rl_committed r). bws_blockNumber (rl_committed r ! i) = start + word_of_nat i \<and> settled (rl_committed r ! i))"

definition heap_inv :: "relay \<Rightarrow> bool" where
  "heap_inv r \<longleftrightarrow> (\<forall>b \<in> set (rl_heap r). block_ok b) \<and>
     (\<forall>sg \<in> set (segments r). points_to (rl_heap r) (sg_withStatus sg) (sg_blockNumber sg))"

definition status_inv :: "relay \<Rightarrow> bool" where
  "status_inv r \<longleftrightarrow>
     (\<forall>st \<in> set (pc_statuses (rl_status r)). st_status st \<noteq> STATUS_UNSPECIFIED) \<and>
     (\<forall>b \<in> set (rl_batches r). \<forall>st \<in> set (tsb_status b). st_status st \<noteq> STATUS_UNSPECIFIED)"

text \<open>A block has at most two segments, so the window cannot outgrow its counter.\<close>

definition size_inv :: "nat \<Rightarrow> relay \<Rightarrow> bool" where
  "size_inv N r \<longleftrightarrow> 2 * length (rl_incoming r) + length (action_segments (rl_todo r)) + length (rl_queue r)
     + ring_count (rl_inFlight r) \<le> N"

definition relay_inv :: "u64 \<Rightarrow> nat \<Rightarrow> relay \<Rightarrow> bool" where
  "relay_inv start N r \<longleftrightarrow> window_inv start r \<and> committed_inv start r \<and> heap_inv r \<and> status_inv r \<and> size_inv N r"

lemmas relay_inv_defs = relay_inv_def window_inv_def committed_inv_def heap_inv_def status_inv_def size_inv_def

text \<open>What a step that touches none of these parts keeps.\<close>

lemma relay_inv_frame:
  assumes "relay_inv start N r" "rl_inFlight r' = rl_inFlight r" "rl_committed r' = rl_committed r" "rl_heap r' = rl_heap r"
    and "set (segments r') \<subseteq> set (segments r)" "set (pc_statuses (rl_status r')) \<subseteq> set (pc_statuses (rl_status r))"
      "set (rl_batches r') \<subseteq> set (rl_batches r)"
    and "2 * length (rl_incoming r') + length (action_segments (rl_todo r')) + length (rl_queue r') \<le>
      2 * length (rl_incoming r) + length (action_segments (rl_todo r)) + length (rl_queue r)"
  shows "relay_inv start N r'"
proof -
  have "window_inv start r'" "committed_inv start r'"
    using assms(1-4) by (simp_all add: relay_inv_def window_inv_def committed_inv_def)
  moreover have "heap_inv r'" using assms(1,4,5) unfolding relay_inv_def heap_inv_def by auto
  moreover have "status_inv r'" using assms(1,6,7) unfolding relay_inv_def status_inv_def by blast
  moreover have "size_inv N r'" using assms(1,2,8) by (simp add: relay_inv_def size_inv_def)
  ultimately show ?thesis by (simp add: relay_inv_def)
qed

lemma points_to_append: "points_to h p n \<Longrightarrow> points_to (h @ bs) p n"
  by (simp add: points_to_def nth_append)

lemma points_to_update: "points_to h p n \<Longrightarrow> bws_blockNumber b = bws_blockNumber (h ! q) \<Longrightarrow> points_to (h[q := b]) p n"
  by (cases "q = p") (simp_all add: points_to_def)

lemma submitMappedBlock_segments:
  "length (action_segments (submitMappedBlock m ws)) \<le> 2"
  "sg \<in> set (action_segments (submitMappedBlock m ws)) \<Longrightarrow> sg_withStatus sg = ws \<and> sg_blockNumber sg = bm_blockNumber m"
  by (auto simp: submitMappedBlock_def Let_def split: if_splits option.splits)

lemma relay_inv_map:
  assumes "relay_inv start N r" "preProcessBlock ps cfg r = Some r'"
  shows "relay_inv start N r'"
proof -
  obtain block rest where q: "rl_todo r = []" "rl_incoming r = block # rest"
    using assms(2) by (auto simp: preProcessBlock_def split: list.splits)
  let ?d = "evictCommittedBelow (nextBlockNumberToCommit (rl_inFlight r)) (rl_dedup r)"
  show ?thesis
  proof (cases "mapBlock ps cfg block ?d")
    case (Inl e)
    then have "r' = r\<lparr>rl_incoming := rest, rl_error := Some (MapFailed e)\<rparr>"
      using assms(2) q by (simp add: preProcessBlock_def)
    then show ?thesis
      by (intro relay_inv_frame [OF assms(1)]) (auto simp: segments_def q)
  next
    case (Inr m)
    then have r': "r' = r\<lparr>rl_incoming := rest, rl_dedup := bm_dedup m, rl_heap := rl_heap r @ [bm_withStatus m],
        rl_todo := submitMappedBlock m (length (rl_heap r))\<rparr>"
      using assms(2) q by (simp add: preProcessBlock_def)
    note ok = mapBlock_block_ok [OF Inr]
    have "window_inv start r'" "committed_inv start r'" "status_inv r'"
      using assms(1) by (auto simp: relay_inv_defs r' intro: points_to_append)
    moreover have "heap_inv r'"
      using assms(1) ok submitMappedBlock_segments(2) [of _ m "length (rl_heap r)"]
      by (auto simp: relay_inv_def heap_inv_def r' segments_def q intro: points_to_append) (simp add: points_to_def)
    moreover have "size_inv N r'"
      using assms(1) submitMappedBlock_segments(1) [of m "length (rl_heap r)"] by (simp add: relay_inv_defs r' q)
    ultimately show ?thesis by (simp add: relay_inv_def)
  qed
qed

lemma relay_inv_submit:
  assumes "relay_inv start N r" "submitNext r = Some r'"
  shows "relay_inv start N r'"
  using assms(2)
  by (intro relay_inv_frame [OF assms(1)])
     (auto simp: submitNext_def segments_def split: list.splits relay_action.splits option.splits)

lemma relay_inv_commitNext:
  assumes "relay_inv start N r" "commitNext r = Some r'"
  shows "relay_inv start N r'"
proof -
  let ?ring = "rl_inFlight r"
  obtain p where p: "nextBlockToCommit ?ring = Some p" "\<not> bws_pendingCount (rl_heap r ! p) > 0"
    using assms(2) by (auto simp: commitNext_def split: option.splits if_splits)
  define b where "b = setStatusMetadataInBlock (rl_heap r ! p)"
  have r': "r' = r\<lparr>rl_inFlight := dropCommittedBlock ?ring, rl_heap := (rl_heap r)[p := b], rl_committed := rl_committed r @ [b]\<rparr>"
    using assms(2) p by (simp add: commitNext_def b_def Let_def)
  have ok: "ring_ok ?ring" using assms(1) by (simp add: relay_inv_def window_inv_def)
  have w: "\<forall>i < ring_count ?ring. points_to (rl_heap r) (ring_blocks ?ring ! i)
      (start + word_of_nat (length (rl_committed r)) + word_of_nat i)"
    using assms(1) unfolding relay_inv_def window_inv_def by blast
  obtain ps where ps: "ring_blocks ?ring = p # ps"
    using p(1) by (auto simp: nextBlockToCommit_eq [OF ok] split: list.splits)
  then have c: "ring_count ?ring = Suc (length ps)" by (metis length_Cons length_ring_blocks)
  have pt: "points_to (rl_heap r) p (start + word_of_nat (length (rl_committed r)))"
    using w [rule_format, of 0] ps c by simp
  then have "block_ok (rl_heap r ! p)" using assms(1) by (simp add: relay_inv_def heap_inv_def points_to_def)
  then have u: "unset (rl_heap r ! p) = 0" and okb: "block_ok b"
    using p(2) by (simp_all add: block_ok_def b_def setStatusMetadataInBlock_def unset_def)
  then have set: "settled b" by (simp add: settled_def b_def setStatusMetadataInBlock_def unset_zero)
  have num: "bws_blockNumber b = bws_blockNumber (rl_heap r ! p)" by (simp add: b_def setStatusMetadataInBlock_def)
  note drop = dropCommittedBlock_ok [OF ok, unfolded ps, simplified]
  have c': "ring_count (dropCommittedBlock ?ring) = length ps" by (simp add: dropCommittedBlock_def c)
  have next_i: "points_to (rl_heap r) (ps ! i) (start + word_of_nat (length (rl_committed r)) + 1 + word_of_nat i)" if "i < length ps" for i
    using w [rule_format, of "Suc i"] ps c that by (simp add: add.assoc)
  have "window_inv start r'"
  proof -
    have "nextBlockNum (dropCommittedBlock ?ring) = start + word_of_nat (length (rl_committed r) + 1)"
      using assms(1) drop by (simp add: relay_inv_def window_inv_def add.assoc)
    then show ?thesis
      using drop next_i num by (simp add: window_inv_def r' c' points_to_update add.commute add.left_commute add.assoc)
  qed
  moreover have "committed_inv start r'"
    using assms(1) set num pt by (simp add: relay_inv_def committed_inv_def r' nth_append points_to_def less_Suc_eq)
  moreover have "heap_inv r'"
    using assms(1) okb num
    by (auto simp: relay_inv_def heap_inv_def r' segments_def intro: points_to_update dest!: set_update_subset_insert [THEN subsetD])
  moreover have "status_inv r'" "size_inv N r'"
    using assms(1) by (simp_all add: relay_inv_def status_inv_def size_inv_def r' c c')
  ultimately show ?thesis by (simp add: relay_inv_def)
qed

lemma relay_inv_register:
  assumes "relay_inv start N r" "sendRegister r = Some r'" "Suc N < 2 ^ 64"
  shows "relay_inv start N r'"
proof -
  obtain sg q where q: "rl_sender r = SIdle" "rl_queue r = sg # q"
    using assms(2) by (auto simp: sendRegister_def split: sender_pc.splits list.splits)
  show ?thesis
  proof (cases "register (sg_blockNumber sg) (sg_withStatus sg) (rl_inFlight r)")
    case (Inl e)
    then have "r' = r\<lparr>rl_queue := q, rl_error := Some (NotNextBlock e)\<rparr>"
      using assms(2) q by (simp add: sendRegister_def)
    then show ?thesis by (intro relay_inv_frame [OF assms(1)]) (auto simp: segments_def q)
  next
    case (Inr x)
    obtain tracked rg where x: "x = (tracked, rg)" by (cases x)
    obtain pc where r': "r' = r\<lparr>rl_queue := q, rl_inFlight := rg, rl_sender := pc\<rparr>" "sender_segments pc = [sg]"
      using assms(2) q Inr x by (auto simp: sendRegister_def split: if_splits)
    have ok: "ring_ok (rl_inFlight r)" and sz: "Suc (ring_count (rl_inFlight r)) < 2 ^ 64"
      using assms(1,3) by (auto simp: relay_inv_def window_inv_def size_inv_def)
    note reg = ring.reg_cases [OF ok Inr [unfolded x]]
    have pt: "points_to (rl_heap r) (sg_withStatus sg) (sg_blockNumber sg)"
      using assms(1) by (simp add: relay_inv_def heap_inv_def segments_def q)
    have "window_inv start r' \<and> ring_count rg \<le> Suc (ring_count (rl_inFlight r))"
    proof (cases tracked)
      case True
      with reg sz assms(1) show ?thesis by (simp add: relay_inv_def window_inv_def r'(1))
    next
      case False
      then have c: "ring_blocks rg = ring_blocks (rl_inFlight r) @ [sg_withStatus sg]"
        and n: "sg_blockNumber sg = nextBlockNum (rl_inFlight r) + word_of_nat (ring_count (rl_inFlight r))"
        using reg sz by simp_all
      then have "ring_count rg = Suc (ring_count (rl_inFlight r))" by (metis length_append_singleton length_ring_blocks)
      with c n reg sz assms(1) pt show ?thesis
        by (simp add: relay_inv_def window_inv_def r'(1) nth_append less_Suc_eq)
    qed
    moreover have "heap_inv r'"
      using assms(1) by (auto simp: relay_inv_def heap_inv_def r' segments_def q)
    moreover have "committed_inv start r'" "status_inv r'"
      using assms(1) by (simp_all add: relay_inv_def committed_inv_def status_inv_def r')
    moreover have "size_inv N r'" if "ring_count rg \<le> Suc (ring_count (rl_inFlight r))"
      using assms(1) that by (simp add: relay_inv_def size_inv_def r' q)
    ultimately show ?thesis by (simp add: relay_inv_def)
  qed
qed

lemma relay_inv_feedback:
  assumes "relay_inv start N r"
  shows "relay_inv start N (processCheckpointFeedback fb (releaseCheckpointSlot fb r))"
  by (rule relay_inv_frame [OF assms])
     (auto simp: processCheckpointFeedback_def releaseCheckpointSlot_def segments_def split: Signal.splits option.splits)

lemma relay_inv_take:
  assumes "relay_inv start N r" "takeStatusBatch r = Some r'"
  shows "relay_inv start N r'"
proof -
  obtain b rest where q: "rl_status r = TIdle" "rl_batches r = b # rest"
    using assms(2) by (auto simp: takeStatusBatch_def split: status_pc.splits list.splits)
  let ?r1 = "r\<lparr>rl_batches := rest, rl_status := TStatus (tsb_status b) []\<rparr>"
  have 1: "relay_inv start N ?r1"
    using assms(1) by (auto simp: relay_inv_def window_inv_def committed_inv_def heap_inv_def status_inv_def size_inv_def
        segments_def q)
  show ?thesis
  proof (cases "tsb_feedback b")
    case None
    then have "r' = ?r1\<lparr>rl_checkpointHeld := False\<rparr>" using assms(2) q by (simp add: takeStatusBatch_def Let_def)
    then show ?thesis by (intro relay_inv_frame [OF 1]) (auto simp: segments_def)
  next
    case (Some fb)
    then have "r' = processCheckpointFeedback fb (releaseCheckpointSlot fb ?r1)"
      using assms(2) q by (simp add: takeStatusBatch_def Let_def)
    with relay_inv_feedback [OF 1] show ?thesis by simp
  qed
qed

text \<open>A status that is taken: the block it is for, and the new object of that block.\<close>

lemma takeStatus_cases:
  assumes "takeStatus r = Some r'"
  obtains (skip) st sts report where "rl_status r = TStatus (st # sts) report" "r' = r\<lparr>rl_status := TStatus sts report\<rparr>"
    | (fail) st sts report e where "rl_status r = TStatus (st # sts) report" "r' = r\<lparr>rl_error := Some (StatusFailed e)\<rparr>"
    | (set) st sts report p b where "rl_status r = TStatus (st # sts) report"
        "ring_get (ref_block_num (st_ref st)) (rl_inFlight r) = Some p" "holds (rl_heap r ! p) (st_ref st)"
        "setFinalStatus (ref_tx_num (st_ref st)) (st_status st) (rl_heap r ! p) = Inr b"
        "r' = r\<lparr>rl_heap := (rl_heap r)[p := b], rl_status := TStatus sts (report @ [st])\<rparr>"
  using assms unfolding takeStatus_def
  by (auto split: status_pc.splits list.splits option.splits if_splits sum.splits)

lemma relay_inv_status:
  assumes "relay_inv start N r" "takeStatus r = Some r'"
  shows "relay_inv start N r'"
  using assms(2)
proof (cases rule: takeStatus_cases)
  case skip
  then show ?thesis by (intro relay_inv_frame [OF assms(1)]) (auto simp: segments_def)
next
  case fail
  then show ?thesis by (intro relay_inv_frame [OF assms(1)]) (auto simp: segments_def)
next
  case (set st sts report p b)
  have "ring_ok (rl_inFlight r)" using assms(1) by (simp add: relay_inv_def window_inv_def)
  then have "p \<in> set (ring_blocks (rl_inFlight r))"
    using set(2) by (auto simp: ring_get_eq split: if_splits)
  then have p: "p < length (rl_heap r)"
    using assms(1) by (auto simp: relay_inv_def window_inv_def points_to_def in_set_conv_nth)
  have st: "st_status st \<noteq> statusNotYetValidated"
    using assms(1) set(1) by (simp add: relay_inv_def status_inv_def statusNotYetValidated_def)
  have okp: "block_ok (rl_heap r ! p)" using assms(1) p by (simp add: relay_inv_def heap_inv_def)
  note f = setFinalStatus_ok(1,2) [OF set(4) okp st]
  have "window_inv start r'" using assms(1) f(2) by (simp add: relay_inv_def window_inv_def set(5) points_to_update)
  moreover have "heap_inv r'"
    using assms(1) f by (auto simp: relay_inv_def heap_inv_def set(5) segments_def intro: points_to_update
        dest!: set_update_subset_insert [THEN subsetD])
  moreover have "committed_inv start r'" "status_inv r'" "size_inv N r'"
    using assms(1) set(1) by (simp_all add: relay_inv_def committed_inv_def status_inv_def size_inv_def set(5))
  ultimately show ?thesis by (simp add: relay_inv_def)
qed

lemma relay_inv_step:
  assumes "relay_step ps cfg env r r'" "relay_inv start N r" "Suc N < 2 ^ 64"
    and "\<And>r b st. env r b \<Longrightarrow> st \<in> set (tsb_status b) \<Longrightarrow> st_status st \<noteq> STATUS_UNSPECIFIED"
  shows "relay_inv start N r'"
  using assms(1)
proof cases
  case step_send
  then show ?thesis
    by (intro relay_inv_frame [OF assms(2)]) (auto simp: sendBatch_def segments_def split: sender_pc.splits)
next
  case (step_return b)
  with assms(2,4) show ?thesis
    by (auto simp: coordinatorReturns_def relay_inv_def window_inv_def committed_inv_def heap_inv_def status_inv_def
        size_inv_def segments_def)
next
  case step_release
  then show ?thesis
    by (intro relay_inv_frame [OF assms(2)]) (auto simp: releaseStatuses_def segments_def split: status_pc.splits list.splits)
next
  case (step_lock wk)
  then show ?thesis
    by (intro relay_inv_frame [OF assms(2)]) (auto simp: lock_relay_def segments_def split: if_splits)
next
  case (step_commit wk)
  then consider "commitNext r = Some r'" | "r' = leave wk r"
    by (auto simp: processCommittedBlocks_def split: if_splits option.splits)
  then show ?thesis
  proof cases
    case 1
    then show ?thesis by (rule relay_inv_commitNext [OF assms(2)])
  next
    case 2
    then show ?thesis
      by (intro relay_inv_frame [OF assms(2)])
         (auto simp: leave_def segments_def split: relay_worker.splits sender_pc.splits)
  qed
next
  case step_report
  then show ?thesis
    by (intro relay_inv_frame [OF assms(2)]) (auto simp: reportCommitted_def segments_def Let_def split: if_splits)
next
  case step_map
  show ?thesis by (rule relay_inv_map [OF assms(2) step_map(2)])
next
  case step_submit
  show ?thesis by (rule relay_inv_submit [OF assms(2) step_submit(2)])
next
  case step_register
  show ?thesis by (rule relay_inv_register [OF assms(2) step_register(2) assms(3)])
next
  case step_take
  show ?thesis by (rule relay_inv_take [OF assms(2) step_take(2)])
next
  case step_status
  show ?thesis by (rule relay_inv_status [OF assms(2) step_status(2)])
qed

lemma relay_inv_new:
  "2 * length incoming \<le> N \<Longrightarrow> relay_inv start N (newSession start limit incoming)"
  by (simp add: relay_inv_def window_inv_def committed_inv_def heap_inv_def status_inv_def size_inv_def segments_def
      newSession_def ring_reset_def ring_ok_def)

lemma relay_reachable_inv:
  assumes "relay_reachable ps cfg env (newSession start limit incoming) r" "2 * length incoming + 1 < 2 ^ 64"
    and "\<And>r b st. env r b \<Longrightarrow> st \<in> set (tsb_status b) \<Longrightarrow> st_status st \<noteq> STATUS_UNSPECIFIED"
  shows "relay_inv start (2 * length incoming) r"
  using assms(1)
proof induction
  case relay_start
  show ?case by (rule relay_inv_new) simp
next
  case (relay_next r r')
  show ?case by (rule relay_inv_step [OF relay_next.hyps(2) relay_next.IH]) (use assms(2,3) in simp_all)
qed

text \<open>
  C15: The relay emits the blocks one by one in the order of their numbers, from the block the session
  started with, and each with the final status of every one of its transactions in its metadata,
  whatever the interleaving of its goroutines and whichever statuses the coordinator returns.
\<close>

theorem relay_commits_in_order:
  assumes "relay_reachable ps cfg env (newSession start limit incoming) r" "2 * length incoming + 1 < 2 ^ 64"
    and "\<And>r b st. env r b \<Longrightarrow> st \<in> set (tsb_status b) \<Longrightarrow> st_status st \<noteq> STATUS_UNSPECIFIED"
  shows "map bws_blockNumber (rl_committed r) = map (\<lambda>i. start + word_of_nat i) [0..<length (rl_committed r)] \<and>
    (\<forall>b \<in> set (rl_committed r). STATUS_UNSPECIFIED \<notin> set (bws_txStatus b) \<and> bws_filter b = Some (bws_txStatus b))"
proof -
  have "committed_inv start r" using relay_reachable_inv [OF assms] by (simp add: relay_inv_def)
  then show ?thesis
    by (auto simp: committed_inv_def settled_def statusNotYetValidated_def in_set_conv_nth intro!: nth_equalityI)
qed

section \<open>A run\<close>

datatype relay_move = MMap | MSubmit | MRegister | MSend | MReturn TxStatusBatch | MTake | MStatus | MRelease
  | MLock relay_worker | MCommit relay_worker | MReport

fun relay_do :: "('b, 'd) parsers \<Rightarrow> TxParsingConfig \<Rightarrow> relay_move \<Rightarrow> relay \<Rightarrow> relay option" where
  "relay_do ps cfg MMap r = preProcessBlock ps cfg r"
| "relay_do ps cfg MSubmit r = submitNext r"
| "relay_do ps cfg MRegister r = sendRegister r"
| "relay_do ps cfg MSend r = sendBatch r"
| "relay_do ps cfg (MReturn b) r = Some (coordinatorReturns b r)"
| "relay_do ps cfg MTake r = takeStatusBatch r"
| "relay_do ps cfg MStatus r = takeStatus r"
| "relay_do ps cfg MRelease r = releaseStatuses r"
| "relay_do ps cfg (MLock wk) r = lock_relay wk r"
| "relay_do ps cfg (MCommit wk) r = processCommittedBlocks wk r"
| "relay_do ps cfg MReport r = reportCommitted r"

fun relay_run :: "('b, 'd) parsers \<Rightarrow> TxParsingConfig \<Rightarrow> relay_move list \<Rightarrow> relay \<Rightarrow> relay option" where
  "relay_run ps cfg [] r = Some r"
| "relay_run ps cfg (mv # mvs) r =
     (if rl_error r \<noteq> None then None
      else case relay_do ps cfg mv r of None \<Rightarrow> None | Some r' \<Rightarrow> relay_run ps cfg mvs r')"

lemma relay_do_step:
  assumes "relay_do ps cfg mv r = Some r'" "rl_error r = None" "\<And>b. mv = MReturn b \<Longrightarrow> env r b"
  shows "relay_step ps cfg env r r'"
  using assms by (cases mv) (auto intro: relay_step.intros)

lemma relay_run_reachable:
  assumes "relay_run ps cfg mvs r = Some r'" "relay_reachable ps cfg env r0 r"
    and "\<And>b r. MReturn b \<in> set mvs \<Longrightarrow> env r b"
  shows "relay_reachable ps cfg env r0 r'"
  using assms
proof (induction mvs arbitrary: r)
  case (Cons mv mvs)
  then obtain r1 where r1: "rl_error r = None" "relay_do ps cfg mv r = Some r1" "relay_run ps cfg mvs r1 = Some r'"
    by (auto split: if_splits option.splits)
  have "relay_step ps cfg env r r1"
    by (rule relay_do_step [OF r1(2,1)]) (simp add: Cons.prems(3))
  with Cons.prems(2) have "relay_reachable ps cfg env r0 r1" by (rule relay_next)
  with Cons.IH [OF r1(3)] Cons.prems(3) show ?case by simp
qed simp

text \<open>The sample block goes through; the coordinator returns the statuses of its two transactions.\<close>

definition demo_statuses :: TxStatusBatch where
  "demo_statuses =
     \<lparr>tsb_status = [\<lparr>st_ref = \<lparr>ref_block_num = 7, ref_tx_id = ''t2'', ref_tx_num = 3\<rparr>, st_status = COMMITTED\<rparr>,
                    \<lparr>st_ref = \<lparr>ref_block_num = 7, ref_tx_id = ''t1'', ref_tx_num = 1\<rparr>, st_status = ABORTED_MVCC_CONFLICT\<rparr>],
      tsb_feedback = None\<rparr>"

definition demo_moves :: "relay_move list" where
  "demo_moves = [MMap, MSubmit, MRegister, MSend, MReturn demo_statuses, MTake, MStatus, MStatus, MRelease,
     MLock StatusWorker, MCommit StatusWorker, MCommit StatusWorker]"

definition demo_session :: "relay option" where
  "demo_session = relay_run ref_parsers demo_cfg demo_moves (newSession 7 100 [demo_block])"

theorem relay_commits_in_order_witness:
  "\<exists>r. demo_session = Some r \<and> map bws_blockNumber (rl_committed r) = [7] \<and>
    (\<forall>b \<in> set (rl_committed r). STATUS_UNSPECIFIED \<notin> set (bws_txStatus b) \<and> bws_filter b = Some (bws_txStatus b))"
proof -
  have "(case demo_session of None \<Rightarrow> False | Some r \<Rightarrow> length (rl_committed r) = 1)" by code_simp
  then obtain r where r: "demo_session = Some r" "length (rl_committed r) = 1" by (auto split: option.splits)
  have rr: "relay_reachable ref_parsers demo_cfg (\<lambda>r b. b = demo_statuses) (newSession 7 100 [demo_block]) r"
    by (rule relay_run_reachable [OF r(1) [unfolded demo_session_def] relay_start]) (simp add: demo_moves_def)
  have "2 * length [demo_block] + 1 < 2 ^ 64" by simp
  moreover have "st_status st \<noteq> STATUS_UNSPECIFIED" if "b = demo_statuses" "st \<in> set (tsb_status b)" for b st
    using that by (auto simp: demo_statuses_def)
  ultimately have "map bws_blockNumber (rl_committed r) = map (\<lambda>i. 7 + word_of_nat i) [0..<length (rl_committed r)] \<and>
    (\<forall>b \<in> set (rl_committed r). STATUS_UNSPECIFIED \<notin> set (bws_txStatus b) \<and> bws_filter b = Some (bws_txStatus b))"
    by (rule relay_commits_in_order [OF rr])
  with r show ?thesis by (intro exI [of _ r]) simp
qed

end
