(* ===== verification/Notifier.thy ===== *)
theory Notifier
  imports Sidecar_Mapping Map_Views
begin

text \<open>
  \<open>service/sidecar/notify.go\<close>: the subscriptions of clients to the statuses of transactions, and the
  streams of committed blocks. One goroutine handles the requests, the statuses and the time-outs one
  after the other; a request is shared between the queues, the timer and the subscriptions, so requests
  are in a heap and everything else holds their addresses. The queue of a stream is what has been written
  to it; whether its client is too slow is outside of the model, and so is the text of a rejection.
\<close>

section \<open>Subscriptions\<close>

text \<open>The timer of a request: not created, running, fired, or stopped before it fired.\<close>

datatype timer = NoTimer | Running | Fired | Stopped

definition timer_Stop :: "timer \<Rightarrow> timer" where
  "timer_Stop t = (if t = Running then Stopped else t)"

record notificationRequest =
  nr_txIDs :: "string list"
  nr_timeout :: int
  nr_stream :: nat
  nr_timer :: timer
  nr_pending :: int

record subscriptions =
  txIDToRequests :: "(string, nat list) gomap"
  availableSlots :: int

datatype reject_reason = TooManyTxIDs nat int | ActiveLimitReached

datatype NotificationResponse =
    TxStatusEvents "TxStatus list"
  | TimeoutTxIds "string list"
  | RejectedTxIds "string list" reject_reason

text \<open>\<open>addRequest\<close>: the identifiers that do not fit, and the number of identifiers that are new.\<close>

fun addRequest :: "nat \<Rightarrow> string list \<Rightarrow> subscriptions \<Rightarrow> int \<Rightarrow> int \<Rightarrow> string list \<times> subscriptions \<times> int \<times> int" where
  "addRequest req [] m pending uniqueNew = ([], m, pending, uniqueNew)"
| "addRequest req (i # txIDs) m pending uniqueNew =
     (case map_of (txIDToRequests m) i of
        Some requests \<Rightarrow>
          if req \<in> set requests then addRequest req txIDs m pending uniqueNew
          else if availableSlots m \<le> 0 then (i # txIDs, m, pending, uniqueNew)
          else addRequest req txIDs
                 (m\<lparr>txIDToRequests := go_put i (requests @ [req]) (txIDToRequests m), availableSlots := availableSlots m - 1\<rparr>)
                 (pending + 1) uniqueNew
      | None \<Rightarrow>
          if availableSlots m \<le> 0 then (i # txIDs, m, pending, uniqueNew)
          else addRequest req txIDs
                 (m\<lparr>txIDToRequests := go_put i [req] (txIDToRequests m), availableSlots := availableSlots m - 1\<rparr>)
                 (pending + 1) (uniqueNew + 1))"

text \<open>The state of the loop over a batch of statuses. Stopping a timer that was never created panics.\<close>

datatype notifier_panic = NilTimer

record removal =
  rm_subs :: subscriptions
  rm_reqs :: "notificationRequest list"
  rm_respMap :: "(nat, TxStatus list) gomap"
  rm_pendingRemoved :: int
  rm_uniqueRemoved :: int

definition notifyRequest :: "TxStatus \<Rightarrow> nat \<Rightarrow> removal \<Rightarrow> notifier_panic + removal" where
  "notifyRequest response req s =
     (let r = rm_reqs s ! req;
          pending = nr_pending r - 1;
          resp = go_put (nr_stream r) (go_get [] (rm_respMap s) (nr_stream r) @ [response]) (rm_respMap s);
          r' = r\<lparr>nr_pending := pending, nr_timer := (if pending = 0 then timer_Stop (nr_timer r) else nr_timer r)\<rparr>
      in if pending = 0 \<and> nr_timer r = NoTimer then Inl NilTimer
         else Inr (s\<lparr>rm_respMap := resp, rm_reqs := (rm_reqs s)[req := r'],
                     rm_subs := (rm_subs s)\<lparr>availableSlots := availableSlots (rm_subs s) + 1\<rparr>,
                     rm_pendingRemoved := rm_pendingRemoved s + 1\<rparr>))"

definition removeStatus :: "TxStatus \<Rightarrow> removal \<Rightarrow> notifier_panic + removal" where
  "removeStatus response s =
     (case map_of (txIDToRequests (rm_subs s)) (ref_tx_id (st_ref response)) of
        None \<Rightarrow> Inr s
      | Some reqList \<Rightarrow>
          loop_err (notifyRequest response) reqList
            (s\<lparr>rm_subs := (rm_subs s)\<lparr>txIDToRequests := go_del (ref_tx_id (st_ref response)) (txIDToRequests (rm_subs s))\<rparr>,
               rm_uniqueRemoved := rm_uniqueRemoved s + 1\<rparr>))"

section \<open>The notifier\<close>

record notifier =
  nt_maxTimeout :: int
  nt_maxActiveTxIDs :: int
  nt_maxTxIDsPerRequest :: int
  nt_reqs :: "notificationRequest list"
  nt_requestQueue :: "nat list"
  nt_timeoutQueue :: "nat list"
  nt_subs :: subscriptions
  nt_written :: "(nat \<times> NotificationResponse) list"
  nt_pendingTxIDs :: int
  nt_uniquePendingTxIDs :: int

definition newNotifier :: "int \<Rightarrow> int \<Rightarrow> int \<Rightarrow> notifier" where
  "newNotifier maxTimeout maxActiveTxIDs maxTxIDsPerRequest =
     \<lparr>nt_maxTimeout = maxTimeout, nt_maxActiveTxIDs = maxActiveTxIDs, nt_maxTxIDsPerRequest = maxTxIDsPerRequest,
      nt_reqs = [], nt_requestQueue = [], nt_timeoutQueue = [],
      nt_subs = \<lparr>txIDToRequests = [], availableSlots = maxActiveTxIDs\<rparr>,
      nt_written = [], nt_pendingTxIDs = 0, nt_uniquePendingTxIDs = 0\<rparr>"

definition fixTimeout :: "int \<Rightarrow> int \<Rightarrow> int" where
  "fixTimeout requested maxTimeout = (let timeout = min requested maxTimeout in if timeout \<le> 0 then maxTimeout else timeout)"

text \<open>A client sends a request on its stream.\<close>

definition receiveRequest :: "nat \<Rightarrow> string list \<Rightarrow> int \<Rightarrow> notifier \<Rightarrow> notifier" where
  "receiveRequest stream txIDs timeout n =
     n\<lparr>nt_reqs := nt_reqs n @ [\<lparr>nr_txIDs = txIDs, nr_timeout = fixTimeout timeout (nt_maxTimeout n), nr_stream = stream,
                                 nr_timer = NoTimer, nr_pending = 0\<rparr>],
       nt_requestQueue := nt_requestQueue n @ [length (nt_reqs n)]\<rparr>"

definition writeEvent :: "nat \<Rightarrow> NotificationResponse \<Rightarrow> notifier \<Rightarrow> notifier" where
  "writeEvent stream e n = n\<lparr>nt_written := nt_written n @ [(stream, e)]\<rparr>"

definition handleRequest :: "nat \<Rightarrow> notifier \<Rightarrow> notifier" where
  "handleRequest req n =
     (let r = nt_reqs n ! req; txIDs = nr_txIDs r
      in if int (length txIDs) > nt_maxTxIDsPerRequest n
         then writeEvent (nr_stream r) (RejectedTxIds txIDs (TooManyTxIDs (length txIDs) (nt_maxTxIDsPerRequest n))) n
         else
           let (rejected, m, pending, uniqueNew) = addRequest req txIDs (nt_subs n) (nr_pending r) 0;
               n1 = n\<lparr>nt_subs := m\<rparr>;
               n2 = (if length rejected > 0 then writeEvent (nr_stream r) (RejectedTxIds rejected ActiveLimitReached) n1 else n1);
               r' = r\<lparr>nr_pending := pending, nr_timer := (if pending > 0 then Running else nr_timer r)\<rparr>
           in n2\<lparr>nt_reqs := (nt_reqs n2)[req := r'], nt_pendingTxIDs := nt_pendingTxIDs n2 + pending,
                 nt_uniquePendingTxIDs := nt_uniquePendingTxIDs n2 + uniqueNew\<rparr>)"

definition handleStatus :: "TxStatus list \<Rightarrow> notifier \<Rightarrow> notifier_panic + notifier" where
  "handleStatus status n =
     (case loop_err removeStatus status
             \<lparr>rm_subs = nt_subs n, rm_reqs = nt_reqs n, rm_respMap = [], rm_pendingRemoved = 0, rm_uniqueRemoved = 0\<rparr> of
        Inl e \<Rightarrow> Inl e
      | Inr s \<Rightarrow>
          Inr (n\<lparr>nt_subs := rm_subs s, nt_reqs := rm_reqs s,
                 nt_written := nt_written n @ map (\<lambda>(stream, response). (stream, TxStatusEvents response)) (rm_respMap s),
                 nt_pendingTxIDs := nt_pendingTxIDs n - rm_pendingRemoved s,
                 nt_uniquePendingTxIDs := nt_uniquePendingTxIDs n - rm_uniqueRemoved s\<rparr>))"

text \<open>The loop over the identifiers of a request that has timed out.\<close>

definition removeTimeout :: "nat \<Rightarrow> string \<Rightarrow> subscriptions \<times> string list \<times> int \<Rightarrow> subscriptions \<times> string list \<times> int" where
  "removeTimeout req i = (\<lambda>(m, txIDs, unique).
     case map_of (txIDToRequests m) i of
       None \<Rightarrow> (m, txIDs, unique)
     | Some requests \<Rightarrow>
         if req \<notin> set requests then (m, txIDs, unique)
         else if length requests = 1
         then (m\<lparr>availableSlots := availableSlots m + 1, txIDToRequests := go_del i (txIDToRequests m)\<rparr>, txIDs @ [i], unique + 1)
         else (m\<lparr>availableSlots := availableSlots m + 1,
                 txIDToRequests := go_put i (filter (\<lambda>r. r \<noteq> req) requests) (txIDToRequests m)\<rparr>, txIDs @ [i], unique))"

definition handleTimeout :: "nat \<Rightarrow> notifier \<Rightarrow> notifier" where
  "handleTimeout req n =
     (let (m, txIDs, unique) = fold (removeTimeout req) (nr_txIDs (nt_reqs n ! req)) (nt_subs n, [], 0);
          n1 = n\<lparr>nt_subs := m, nt_pendingTxIDs := nt_pendingTxIDs n - int (length txIDs),
                 nt_uniquePendingTxIDs := nt_uniquePendingTxIDs n - unique\<rparr>
      in if length txIDs > 0 then writeEvent (nr_stream (nt_reqs n ! req)) (TimeoutTxIds txIDs) n1 else n1)"

text \<open>
  The events: a client sends a request; the goroutine of \<open>run\<close> takes a request, a batch of statuses or a
  time-out from its queue; the timer of a request fires and its function queues the request.
\<close>

inductive notifier_step :: "notifier \<Rightarrow> notifier \<Rightarrow> bool" where
  receive: "notifier_step n (receiveRequest stream txIDs timeout n)"
| request: "nt_requestQueue n = req # q \<Longrightarrow> notifier_step n (handleRequest req (n\<lparr>nt_requestQueue := q\<rparr>))"
| status: "handleStatus status n = Inr n' \<Longrightarrow> notifier_step n n'"
| fire: "req < length (nt_reqs n) \<Longrightarrow> nr_timer (nt_reqs n ! req) = Running \<Longrightarrow>
    notifier_step n (n\<lparr>nt_reqs := (nt_reqs n)[req := (nt_reqs n ! req)\<lparr>nr_timer := Fired\<rparr>], nt_timeoutQueue := nt_timeoutQueue n @ [req]\<rparr>)"
| timeout: "nt_timeoutQueue n = req # q \<Longrightarrow> notifier_step n (handleTimeout req (n\<lparr>nt_timeoutQueue := q\<rparr>))"

inductive notifier_reachable :: "notifier \<Rightarrow> bool" where
  start: "notifier_reachable (newNotifier maxTimeout maxActiveTxIDs maxTxIDsPerRequest)"
| step: "notifier_reachable n \<Longrightarrow> notifier_step n n' \<Longrightarrow> notifier_reachable n'"

section \<open>Block streams\<close>

record blockStream =
  filterNamespaces_of :: "string list"
  filterStatuses :: "Status list"
  includeReadWriteSets :: bool
  includeEndorsements :: bool
  includeMetadata :: bool

record committedBlockWithTxs =
  cbt_txs :: "(TxRef \<times> Tx option) list"
  cbt_statuses :: "Status list"

record TxEvent =
  ev_ref :: TxRef
  ev_status :: Status
  ev_namespaces :: "TxNamespace list"
  ev_endorsements :: "EndorsementWithIdentity option list option list"
  ev_metadata :: bytes

definition filterNamespaces :: "Tx option \<Rightarrow> string list \<Rightarrow> TxNamespace list" where
  "filterNamespaces content filters =
     (case content of
        None \<Rightarrow> []
      | Some tx \<Rightarrow>
          if filters = [] then tx_namespaces tx
          else List.map_filter (\<lambda>f. find (\<lambda>ns. ns_id ns = f) (tx_namespaces tx)) filters)"

text \<open>\<open>None\<close> is a panic: a nil content is dereferenced, or there are fewer statuses than transactions.\<close>

definition buildEvent :: "blockStream \<Rightarrow> TxRef \<times> Tx option \<Rightarrow> Status \<Rightarrow> TxNamespace list \<Rightarrow> TxEvent option" where
  "buildEvent s = (\<lambda>(ref, content) status matchingNamespaces.
     case content of
       None \<Rightarrow>
         if includeEndorsements s \<or> includeMetadata s then None
         else Some \<lparr>ev_ref = ref, ev_status = status,
                    ev_namespaces = (if includeReadWriteSets s then matchingNamespaces else []),
                    ev_endorsements = [], ev_metadata = []\<rparr>
     | Some tx \<Rightarrow>
         Some \<lparr>ev_ref = ref, ev_status = status,
               ev_namespaces = (if includeReadWriteSets s then matchingNamespaces else []),
               ev_endorsements = (if includeEndorsements s then tx_endorsements tx else []),
               ev_metadata = (if includeMetadata s then tx_metadata tx else [])\<rparr>)"

fun filterAndBuildEvents :: "blockStream \<Rightarrow> (TxRef \<times> Tx option) list \<Rightarrow> Status list \<Rightarrow> TxEvent list option" where
  "filterAndBuildEvents s [] statuses = Some []"
| "filterAndBuildEvents s (tx # txs) [] = None"
| "filterAndBuildEvents s (tx # txs) (status # statuses) =
     (let matchingNamespaces = filterNamespaces (snd tx) (filterNamespaces_of s)
      in if length (filterStatuses s) > 0 \<and> status \<notin> set (filterStatuses s) then filterAndBuildEvents s txs statuses
         else if length (filterNamespaces_of s) > 0 \<and> length matchingNamespaces = 0 then filterAndBuildEvents s txs statuses
         else case buildEvent s tx status matchingNamespaces of
                None \<Rightarrow> None
              | Some e \<Rightarrow> map_option (Cons e) (filterAndBuildEvents s txs statuses))"

definition registerBlockStream :: "nat \<Rightarrow> nat list \<Rightarrow> nat list" where
  "registerBlockStream stream streams = streams @ [stream]"

definition unregisterBlockStream :: "nat \<Rightarrow> nat list \<Rightarrow> nat list" where
  "unregisterBlockStream stream streams = remove1 stream streams"

text \<open>
  The dispatch of a block to the streams registered when it starts. For each stream, the notifier ends,
  or the stream was cancelled before, or its queue stayed full for the whole time-out and it is cancelled,
  or it gets the block.
\<close>

datatype write_outcome = NotifierDone | StreamDone | StreamTimeout | StreamWritten

fun dispatchBlockToStreams :: "(nat \<Rightarrow> write_outcome) \<Rightarrow> nat list \<Rightarrow> 'b \<Rightarrow> (nat \<Rightarrow> 'b list) \<times> nat set \<Rightarrow> (nat \<Rightarrow> 'b list) \<times> nat set" where
  "dispatchBlockToStreams outcome [] block st = st"
| "dispatchBlockToStreams outcome (stream # streams) block (queues, cancelled) =
     (case outcome stream of
        NotifierDone \<Rightarrow> (queues, cancelled)
      | StreamDone \<Rightarrow> dispatchBlockToStreams outcome streams block (queues, cancelled)
      | StreamTimeout \<Rightarrow> dispatchBlockToStreams outcome streams block (queues, insert stream cancelled)
      | StreamWritten \<Rightarrow> dispatchBlockToStreams outcome streams block (queues(stream := queues stream @ [block]), cancelled))"

end
