(* ===== verification/Notifier_Props.thy ===== *)
theory Notifier_Props
  imports Notifier Sidecar_Mapping_Props
begin

text \<open>
  The accounting of the notifier: slots, gauges and timers agree with the subscriptions whatever the
  order of requests, statuses and time-outs; a status reaches every subscriber; and what a block stream
  does with a transaction that was rejected before it had a content.
\<close>

section \<open>Subscriptions as a multiset\<close>

definition pairs :: "(string, nat list) gomap \<Rightarrow> (string \<times> nat) multiset" where
  "pairs m = mset (flat (\<lambda>i rs. map (Pair i) rs) m)"

definition waits :: "(string, nat list) gomap \<Rightarrow> nat \<Rightarrow> nat" where
  "waits m r = size (filter_mset (\<lambda>p. snd p = r) (pairs m))"

definition subs_wf :: "(string, nat list) gomap \<Rightarrow> bool" where
  "subs_wf m \<longleftrightarrow> wf_gomap m \<and> (\<forall>(i, rs) \<in> set m. rs \<noteq> [] \<and> distinct rs)"

lemma subs_wf_get: "subs_wf m \<Longrightarrow> map_of m i = Some rs \<Longrightarrow> rs \<noteq> [] \<and> distinct rs"
  by (auto simp: subs_wf_def dest: map_of_SomeD)

lemma subs_wf_put:
  assumes "subs_wf m" "rs \<noteq> []" "distinct rs"
  shows "subs_wf (go_put i rs m)"
proof -
  have "x \<noteq> [] \<and> distinct x" if "(k, x) \<in> set (go_put i rs m)" for k x
    using _ _ that by (rule go_put_all) (use assms in \<open>auto simp: subs_wf_def\<close>)
  then show ?thesis using assms(1) by (auto simp: subs_wf_def)
qed

lemma set_go_del: "set (go_del k m) \<subseteq> set m"
  by (auto simp: go_del_def AList.delete_eq)

lemma subs_wf_del: "subs_wf m \<Longrightarrow> subs_wf (go_del i m)"
  using set_go_del [of i m] by (auto simp: subs_wf_def)

lemma pairs_put:
  assumes "wf_gomap m"
  shows "pairs (go_put i rs m) + mset (map (Pair i) (go_get [] m i)) = pairs m + mset (map (Pair i) rs)"
  using mset_flat_put [OF assms, of "\<lambda>i rs. map (Pair i) rs" i rs]
  by (cases "map_of m i") (simp_all add: pairs_def go_get_def)

lemma pairs_append:
  assumes "wf_gomap m"
  shows "pairs (go_put i (go_get [] m i @ [r]) m) = pairs m + {#(i, r)#}"
  using pairs_put [OF assms, of i "go_get [] m i @ [r]"] by simp

lemma pairs_del: "pairs (go_del i m) = filter_mset (\<lambda>p. fst p \<noteq> i) (pairs m)"
proof -
  have "flat (\<lambda>i rs. map (Pair i) rs) (go_del i m) = filter (\<lambda>p. fst p \<noteq> i) (flat (\<lambda>i rs. map (Pair i) rs) m)"
    by (rule flat_del) auto
  then show ?thesis by (simp add: pairs_def)
qed

lemma in_pairs: "wf_gomap m \<Longrightarrow> (i, r) \<in># pairs m \<longleftrightarrow> r \<in> set (go_get [] m i)"
  by (cases "map_of m i") (force simp: pairs_def set_flat go_get_def wf_gomap_in)+

lemma pairs_split:
  assumes "wf_gomap m"
  shows "pairs m = pairs (go_del i m) + mset (map (Pair i) (go_get [] m i))"
proof -
  have "filter_mset (\<lambda>p. fst p = i) (pairs m) = mset (map (Pair i) (go_get [] m i))"
    using assms
  proof (induction m)
    case (Cons x m)
    obtain k rs where x: "x = (k, rs)" by (cases x)
    have "wf_gomap m" using Cons.prems by (simp add: wf_gomap_def)
    moreover have "k = i \<Longrightarrow> map_of m i = None" using Cons.prems by (auto simp: x wf_gomap_def map_of_eq_None_iff)
    moreover have "pairs (x # m) = mset (map (Pair k) rs) + pairs m" by (simp add: pairs_def x)
    moreover have "filter_mset (\<lambda>p. fst p = i) (mset (map (Pair k) rs)) = (if k = i then mset (map (Pair k) rs) else {#})"
      by (induction rs) auto
    ultimately show ?case using Cons.IH by (auto simp: x go_get_def)
  qed (simp add: pairs_def)
  then show ?thesis unfolding pairs_del by (metis multiset_partition union_commute)
qed

lemma length_put: "length (go_put k v m) = length m + (if map_of m k = None then 1 else 0)"
  by (induction m) (auto simp: go_put_def)

lemma length_gomap: "wf_gomap m \<Longrightarrow> length m = card (set (go_keys m))"
  by (metis distinct_card go_keys_def length_map wf_gomap_def)

lemma length_del: "wf_gomap m \<Longrightarrow> map_of m k \<noteq> None \<Longrightarrow> Suc (length (go_del k m)) = length m"
  by (auto simp: length_gomap set_go_keys finite_dom_map_of intro!: card_Suc_Diff1)

section \<open>Adding a request\<close>

lemma waits_add: "pairs m' = pairs m + S \<Longrightarrow> waits m' r = waits m r + size (filter_mset (\<lambda>p. snd p = r) S)"
  by (simp add: waits_def)

text \<open>What \<open>addRequest\<close> does: it adds the subscriptions \<open>S\<close> of the request.\<close>

lemma addRequest_ok:
  assumes "addRequest req ids m p u = (rej, m', p', u')" "subs_wf (txIDToRequests m)"
  shows "\<exists>S. subs_wf (txIDToRequests m') \<and> pairs (txIDToRequests m') = pairs (txIDToRequests m) + S \<and>
    set_mset S \<subseteq> set ids \<times> {req} \<and> p' = p + int (size S) \<and> availableSlots m' = availableSlots m - int (size S) \<and>
    u' - u = int (length (txIDToRequests m')) - int (length (txIDToRequests m)) \<and>
    (0 \<le> availableSlots m \<longrightarrow> 0 \<le> availableSlots m')"
  using assms
proof (induction req ids m p u rule: addRequest.induct)
  case (1 req m p u)
  then show ?case by (intro exI [of _ "{#}"]) simp
next
  case (2 req i ids m p u)
  let ?M = "txIDToRequests m"
  have wf: "wf_gomap ?M" using "2.prems"(2) by (simp add: subs_wf_def)
  let ?m = "m\<lparr>txIDToRequests := go_put i (go_get [] ?M i @ [req]) ?M, availableSlots := availableSlots m - 1\<rparr>"
  have ex: "\<exists>S. subs_wf (txIDToRequests m') \<and> pairs (txIDToRequests m') = pairs ?M + S \<and>
    set_mset S \<subseteq> set (i # ids) \<times> {req} \<and> p' = p + int (size S) \<and> availableSlots m' = availableSlots m - int (size S) \<and>
    u' - u = int (length (txIDToRequests m')) - int (length ?M) \<and> (0 \<le> availableSlots m \<longrightarrow> 0 \<le> availableSlots m')"
    if "0 < availableSlots m" and ih: "\<exists>S. subs_wf (txIDToRequests m') \<and> pairs (txIDToRequests m') = pairs (txIDToRequests ?m) + S \<and>
      set_mset S \<subseteq> set ids \<times> {req} \<and> p' = p + 1 + int (size S) \<and> availableSlots m' = availableSlots ?m - int (size S) \<and>
      u' - (u + (if map_of ?M i = None then 1 else 0)) = int (length (txIDToRequests m')) - int (length (txIDToRequests ?m)) \<and>
      (0 \<le> availableSlots ?m \<longrightarrow> 0 \<le> availableSlots m')"
  proof -
    from ih obtain S where S: "subs_wf (txIDToRequests m')" "pairs (txIDToRequests m') = pairs (txIDToRequests ?m) + S"
      "set_mset S \<subseteq> set ids \<times> {req}" "p' = p + 1 + int (size S)" "availableSlots m' = availableSlots ?m - int (size S)"
      "u' - (u + (if map_of ?M i = None then 1 else 0)) = int (length (txIDToRequests m')) - int (length (txIDToRequests ?m))"
      "0 \<le> availableSlots ?m \<longrightarrow> 0 \<le> availableSlots m'" by blast
    show ?thesis
      by (intro exI [of _ "add_mset (i, req) S"]) (use S that(1) pairs_append [OF wf, of i req] in \<open>auto simp: length_put split: if_splits\<close>)
  qed
  show ?case
  proof (cases "map_of ?M i")
    case None
    show ?thesis
    proof (cases "availableSlots m \<le> 0")
      case True
      with None "2.prems" show ?thesis by (intro exI [of _ "{#}"]) auto
    next
      case False
      have "subs_wf (txIDToRequests ?m)" using "2.prems"(2) None by (simp add: go_get_def subs_wf_put)
      then show ?thesis using ex "2.IH"(1) [OF None False] "2.prems"(1) None False by (simp add: go_get_def)
    qed
  next
    case (Some rs)
    then have rs: "rs \<noteq> []" "distinct rs" using subs_wf_get [OF "2.prems"(2)] by auto
    consider "req \<in> set rs" | "req \<notin> set rs" "availableSlots m \<le> 0" | "req \<notin> set rs" "\<not> availableSlots m \<le> 0" by blast
    then show ?thesis
    proof cases
      case 1
      then obtain S where "subs_wf (txIDToRequests m') \<and> pairs (txIDToRequests m') = pairs ?M + S \<and>
        set_mset S \<subseteq> set ids \<times> {req} \<and> p' = p + int (size S) \<and> availableSlots m' = availableSlots m - int (size S) \<and>
        u' - u = int (length (txIDToRequests m')) - int (length ?M) \<and> (0 \<le> availableSlots m \<longrightarrow> 0 \<le> availableSlots m')"
        using "2.IH"(2) [OF Some 1] "2.prems" Some by auto
      then show ?thesis by (intro exI [of _ S]) auto
    next
      case 2
      with Some "2.prems" show ?thesis by (intro exI [of _ "{#}"]) auto
    next
      case 3
      have "subs_wf (txIDToRequests ?m)" using "2.prems"(2) Some 3 rs by (simp add: go_get_def subs_wf_put)
      then show ?thesis using ex "2.IH"(3) [OF Some 3] "2.prems"(1) Some 3 by (simp add: go_get_def)
    qed
  qed
qed

section \<open>Removing statuses\<close>

text \<open>A request is live while its timer runs or its time-out is queued.\<close>

definition live :: "nat set \<Rightarrow> notificationRequest list \<Rightarrow> nat \<Rightarrow> bool" where
  "live Q reqs r \<longleftrightarrow> nr_timer (reqs ! r) = Running \<or> nr_timer (reqs ! r) = Fired \<and> r \<in> Q"

text \<open>The counters of the requests, when those in \<open>R\<close> are still to be decremented.\<close>

definition tracked :: "nat set \<Rightarrow> notificationRequest list \<Rightarrow> (string, nat list) gomap \<Rightarrow> nat list \<Rightarrow> bool" where
  "tracked Q reqs M R \<longleftrightarrow>
     (\<forall>r < length reqs. if live Q reqs r then nr_pending (reqs ! r) = int (waits M r) + (if r \<in> set R then 1 else 0)
                       else waits M r = 0 \<and> r \<notin> set R)"

definition kept :: "nat set \<Rightarrow> notificationRequest list \<Rightarrow> notificationRequest list \<Rightarrow> bool" where
  "kept Q reqs reqs' \<longleftrightarrow> length reqs' = length reqs \<and>
     (\<forall>r < length reqs. nr_stream (reqs' ! r) = nr_stream (reqs ! r) \<and> nr_txIDs (reqs' ! r) = nr_txIDs (reqs ! r) \<and>
        (nr_timer (reqs ! r) = Fired \<longrightarrow> nr_timer (reqs' ! r) = Fired) \<and>
        (nr_timer (reqs' ! r) = NoTimer \<longrightarrow> nr_timer (reqs ! r) = NoTimer) \<and> (\<not> live Q reqs r \<longrightarrow> reqs' ! r = reqs ! r))"

definition resp_wf :: "(nat, TxStatus list) gomap \<Rightarrow> bool" where
  "resp_wf resp \<longleftrightarrow> wf_gomap resp \<and> (\<forall>(s, l) \<in> set resp. l \<noteq> [])"

definition received :: "(nat \<Rightarrow> TxStatus list) \<Rightarrow> (nat, TxStatus list) gomap \<Rightarrow> (nat, TxStatus list) gomap \<Rightarrow> bool" where
  "received got resp resp' \<longleftrightarrow>
     (\<forall>s. go_get [] resp' s = go_get [] resp s @ got s) \<and>
     (resp_wf resp \<longrightarrow> resp_wf resp')"

definition copies :: "notificationRequest list \<Rightarrow> TxStatus \<Rightarrow> nat list \<Rightarrow> nat \<Rightarrow> TxStatus list" where
  "copies reqs response R s = replicate (length (filter (\<lambda>r. nr_stream (reqs ! r) = s) R)) response"

lemma reqs_kept_refl: "kept Q reqs reqs"
  by (simp add: kept_def)

lemma reqs_kept_live: "kept Q reqs reqs' \<Longrightarrow> r < length reqs \<Longrightarrow> \<not> live Q reqs r \<Longrightarrow> \<not> live Q reqs' r"
  unfolding kept_def live_def by metis

lemma reqs_kept_trans:
  assumes "kept Q reqs reqs1" "kept Q reqs1 reqs2"
  shows "kept Q reqs reqs2"
  unfolding kept_def
proof (intro conjI allI impI)
  show "length reqs2 = length reqs" using assms by (simp add: kept_def)
  fix r assume r: "r < length reqs"
  then have r1: "r < length reqs1" using assms(1) by (simp add: kept_def)
  note a = assms(1) [unfolded kept_def, THEN conjunct2, rule_format, OF r]
  note b = assms(2) [unfolded kept_def, THEN conjunct2, rule_format, OF r1]
  show "nr_stream (reqs2 ! r) = nr_stream (reqs ! r)" "nr_txIDs (reqs2 ! r) = nr_txIDs (reqs ! r)" using a b by simp_all
  show "nr_timer (reqs2 ! r) = Fired" if "nr_timer (reqs ! r) = Fired" using a b that by simp
  show "nr_timer (reqs ! r) = NoTimer" if "nr_timer (reqs2 ! r) = NoTimer" using a b that by simp
  show "reqs2 ! r = reqs ! r" if "\<not> live Q reqs r" using a b that reqs_kept_live [OF assms(1) r that] by simp
qed

lemma received_refl: "received (\<lambda>s. []) resp resp"
  by (simp add: received_def)

lemma received_trans: "received f resp resp1 \<Longrightarrow> received g resp1 resp2 \<Longrightarrow> received (\<lambda>s. f s @ g s) resp resp2"
  unfolding received_def by (intro conjI) simp_all

lemma received_cong: "received f resp resp' \<Longrightarrow> (\<And>s. f s = g s) \<Longrightarrow> received g resp resp'"
  by (simp add: received_def)

lemma received_one: "received (\<lambda>s. if s = k then [st] else []) resp (go_put k (go_get [] resp k @ [st]) resp)"
  unfolding received_def
proof (intro conjI impI allI)
  assume a: "resp_wf resp"
  have "l \<noteq> []" if "(s, l) \<in> set (go_put k (go_get [] resp k @ [st]) resp)" for s l
    using _ _ that by (rule go_put_all) (use a in \<open>auto simp: resp_wf_def\<close>)
  then show "resp_wf (go_put k (go_get [] resp k @ [st]) resp)" using a by (auto simp: resp_wf_def)
qed simp

lemma trackedD:
  assumes "tracked Q reqs M R" "r < length reqs"
  shows "live Q reqs r \<Longrightarrow> nr_pending (reqs ! r) = int (waits M r) + (if r \<in> set R then 1 else 0)"
    "\<not> live Q reqs r \<Longrightarrow> waits M r = 0 \<and> r \<notin> set R"
  using assms(1) [unfolded tracked_def, rule_format, OF assms(2)] by simp_all

lemma trackedI:
  assumes "\<And>r. r < length reqs \<Longrightarrow> live Q reqs r \<Longrightarrow> nr_pending (reqs ! r) = int (waits M r) + (if r \<in> set R then 1 else 0)"
    "\<And>r. r < length reqs \<Longrightarrow> \<not> live Q reqs r \<Longrightarrow> waits M r = 0 \<and> r \<notin> set R"
  shows "tracked Q reqs M R"
  unfolding tracked_def using assms by simp

lemma live_update: "live Q (reqs[r := x]) y = (if y = r \<and> r < length reqs then nr_timer x = Running \<or> nr_timer x = Fired \<and> r \<in> Q else live Q reqs y)"
  by (cases "r < length reqs") (auto simp: live_def not_less list_update_beyond)

lemma notifyRequest_ok:
  assumes "tracked Q (rm_reqs s) M (r # R)" "distinct (r # R)" "r < length (rm_reqs s)"
  shows "\<exists>s'. notifyRequest st r s = Inr s' \<and> tracked Q (rm_reqs s') M R \<and> kept Q (rm_reqs s) (rm_reqs s') \<and>
    received (copies (rm_reqs s) st [r]) (rm_respMap s) (rm_respMap s') \<and>
    rm_subs s' = (rm_subs s)\<lparr>availableSlots := availableSlots (rm_subs s) + 1\<rparr> \<and>
    rm_pendingRemoved s' = rm_pendingRemoved s + 1 \<and> rm_uniqueRemoved s' = rm_uniqueRemoved s"
proof -
  let ?r = "rm_reqs s ! r"
  have l: "live Q (rm_reqs s) r" using trackedD(2) [OF assms(1,3)] by auto
  have p: "nr_pending ?r = int (waits M r) + 1" using trackedD(1) [OF assms(1,3) l] by simp
  from l have nt: "nr_timer ?r \<noteq> NoTimer" by (auto simp: live_def)
  let ?r' = "?r\<lparr>nr_pending := nr_pending ?r - 1, nr_timer := (if nr_pending ?r - 1 = 0 then timer_Stop (nr_timer ?r) else nr_timer ?r)\<rparr>"
  let ?s = "s\<lparr>rm_respMap := go_put (nr_stream ?r) (go_get [] (rm_respMap s) (nr_stream ?r) @ [st]) (rm_respMap s),
      rm_reqs := (rm_reqs s)[r := ?r'],
      rm_subs := (rm_subs s)\<lparr>availableSlots := availableSlots (rm_subs s) + 1\<rparr>,
      rm_pendingRemoved := rm_pendingRemoved s + 1\<rparr>"
  have n: "notifyRequest st r s = Inr ?s" using nt by (simp add: notifyRequest_def Let_def)
  have "tracked Q ((rm_reqs s)[r := ?r']) M R"
  proof (rule trackedI)
    fix x assume x: "x < length ((rm_reqs s)[r := ?r'])"
    then have x': "x < length (rm_reqs s)" by simp
    note t = trackedD [OF assms(1) x']
    show "nr_pending ((rm_reqs s)[r := ?r'] ! x) = int (waits M x) + (if x \<in> set R then 1 else 0)"
      if "live Q ((rm_reqs s)[r := ?r']) x"
      using that t(1) assms(2,3) p by (cases "x = r") (simp_all add: live_update)
    show "waits M x = 0 \<and> x \<notin> set R" if "\<not> live Q ((rm_reqs s)[r := ?r']) x"
      using that t(2) assms(2,3) p l
      by (cases "x = r"; cases "waits M r = 0") (auto simp: live_update live_def timer_Stop_def)
  qed
  moreover have "kept Q (rm_reqs s) ((rm_reqs s)[r := ?r'])"
    unfolding kept_def
  proof (intro conjI allI impI)
    fix x assume x: "x < length (rm_reqs s)"
    show "nr_stream ((rm_reqs s)[r := ?r'] ! x) = nr_stream (rm_reqs s ! x)" "nr_txIDs ((rm_reqs s)[r := ?r'] ! x) = nr_txIDs (rm_reqs s ! x)"
      using x by (cases "x = r"; simp)+
    show "nr_timer ((rm_reqs s)[r := ?r'] ! x) = Fired" if "nr_timer (rm_reqs s ! x) = Fired"
      using x that by (cases "x = r") (simp_all add: timer_Stop_def)
    show "nr_timer (rm_reqs s ! x) = NoTimer" if "nr_timer ((rm_reqs s)[r := ?r'] ! x) = NoTimer"
      using x that by (cases "x = r") (simp_all add: timer_Stop_def split: if_splits)
    show "(rm_reqs s)[r := ?r'] ! x = rm_reqs s ! x" if "\<not> live Q (rm_reqs s) x"
      using l that by (cases "x = r") simp_all
  qed simp
  moreover have "received (copies (rm_reqs s) st [r]) (rm_respMap s) (rm_respMap ?s)"
    using received_one [of "nr_stream ?r" st "rm_respMap s"] by (simp add: received_def copies_def)
  ultimately show ?thesis using n by (intro exI [of _ ?s]) simp
qed


lemma copies_kept: "kept Q reqs reqs' \<Longrightarrow> \<forall>r \<in> set R. r < length reqs \<Longrightarrow> copies reqs' st R s = copies reqs st R s"
  unfolding copies_def by (rule arg_cong [where f = "\<lambda>l. replicate (length l) st"], rule filter_cong) (simp_all add: kept_def)

lemma notifyRequests_ok:
  assumes "tracked Q (rm_reqs s) M R" "distinct R" "\<forall>r \<in> set R. r < length (rm_reqs s)"
  shows "\<exists>s'. loop_err (notifyRequest st) R s = Inr s' \<and> tracked Q (rm_reqs s') M [] \<and> kept Q (rm_reqs s) (rm_reqs s') \<and>
    received (copies (rm_reqs s) st R) (rm_respMap s) (rm_respMap s') \<and>
    rm_subs s' = (rm_subs s)\<lparr>availableSlots := availableSlots (rm_subs s) + int (length R)\<rparr> \<and>
    rm_pendingRemoved s' = rm_pendingRemoved s + int (length R) \<and> rm_uniqueRemoved s' = rm_uniqueRemoved s"
  using assms
proof (induction R arbitrary: s)
  case Nil
  then show ?case by (simp add: reqs_kept_refl received_def copies_def)
next
  case (Cons r R)
  obtain s1 where s1: "notifyRequest st r s = Inr s1" "tracked Q (rm_reqs s1) M R" and k1: "kept Q (rm_reqs s) (rm_reqs s1)"
    and g1: "received (copies (rm_reqs s) st [r]) (rm_respMap s) (rm_respMap s1)"
    and c1: "rm_subs s1 = (rm_subs s)\<lparr>availableSlots := availableSlots (rm_subs s) + 1\<rparr>"
      "rm_pendingRemoved s1 = rm_pendingRemoved s + 1" "rm_uniqueRemoved s1 = rm_uniqueRemoved s"
    using notifyRequest_ok [OF Cons.prems(1,2)] Cons.prems(3) by auto
  have R: "\<forall>x \<in> set R. x < length (rm_reqs s)" "\<forall>x \<in> set R. x < length (rm_reqs s1)" using Cons.prems(3) k1 by (simp_all add: kept_def)
  obtain s2 where s2: "loop_err (notifyRequest st) R s1 = Inr s2" "tracked Q (rm_reqs s2) M []" and k2: "kept Q (rm_reqs s1) (rm_reqs s2)"
    and g2: "received (copies (rm_reqs s1) st R) (rm_respMap s1) (rm_respMap s2)"
    and c2: "rm_subs s2 = (rm_subs s1)\<lparr>availableSlots := availableSlots (rm_subs s1) + int (length R)\<rparr>"
      "rm_pendingRemoved s2 = rm_pendingRemoved s1 + int (length R)" "rm_uniqueRemoved s2 = rm_uniqueRemoved s1"
    using Cons.IH [OF s1(2) _ R(2)] Cons.prems(2) by auto
  have "received (copies (rm_reqs s) st (r # R)) (rm_respMap s) (rm_respMap s2)"
    using received_trans [OF g1 g2]
    by (rule received_cong) (simp add: copies_kept [OF k1 R(1)], simp add: copies_def)
  then show ?case using s1(1) s2 reqs_kept_trans [OF k1 k2] c1 c2 by simp
qed

definition subscribed :: "notificationRequest list \<Rightarrow> (string, nat list) gomap \<Rightarrow> bool" where
  "subscribed reqs M \<longleftrightarrow> (\<forall>i r. (i, r) \<in># pairs M \<longrightarrow> r < length reqs \<and> i \<in> set (nr_txIDs (reqs ! r)))"

lemma waits_del:
  assumes "subs_wf M"
  shows "waits M r = waits (go_del i M) r + (if r \<in> set (go_get [] M i) then 1 else 0)"
proof -
  have d: "distinct (go_get [] M i)" by (cases "map_of M i") (use subs_wf_get [OF assms] in \<open>auto simp: go_get_def\<close>)
  have "size (filter_mset (\<lambda>p. snd p = r) (mset (map (Pair i) xs))) = (if r \<in> set xs then 1 else 0)" if "distinct xs" for xs
    using that by (induction xs) auto
  then show ?thesis
    using waits_add [OF pairs_split [of M i], of r] assms d by (simp add: subs_wf_def)
qed

lemma subscribed_sub: "subscribed reqs M \<Longrightarrow> kept Q reqs reqs' \<Longrightarrow> set_mset (pairs M') \<subseteq> set_mset (pairs M) \<Longrightarrow> subscribed reqs' M'"
  unfolding subscribed_def kept_def by (metis subsetD)

lemma pairs_del_sub: "set_mset (pairs (go_del i M)) \<subseteq> set_mset (pairs M)"
  by (simp add: pairs_del)

lemma removeStatus_ok:
  fixes s st
  defines "M \<equiv> txIDToRequests (rm_subs s)" and "i \<equiv> ref_tx_id (st_ref st)"
  assumes "subs_wf M" "tracked Q (rm_reqs s) M []" "subscribed (rm_reqs s) M"
  shows "\<exists>s'. removeStatus st s = Inr s' \<and> txIDToRequests (rm_subs s') = go_del i M \<and> tracked Q (rm_reqs s') (go_del i M) [] \<and>
    kept Q (rm_reqs s) (rm_reqs s') \<and> received (copies (rm_reqs s) st (go_get [] M i)) (rm_respMap s) (rm_respMap s') \<and>
    availableSlots (rm_subs s') + int (size (pairs (go_del i M))) = availableSlots (rm_subs s) + int (size (pairs M)) \<and>
    rm_pendingRemoved s' + int (size (pairs (go_del i M))) = rm_pendingRemoved s + int (size (pairs M)) \<and>
    rm_uniqueRemoved s' + int (length (go_del i M)) = rm_uniqueRemoved s + int (length M)"
proof (cases "map_of M i")
  case None
  then have "go_del i M = M" by (simp add: go_del_def delete_id map_of_eq_None_iff)
  then show ?thesis
    using None assms(3-5) by (simp add: removeStatus_def M_def i_def go_get_def reqs_kept_refl received_def copies_def)
next
  case (Some R)
  let ?s = "s\<lparr>rm_subs := (rm_subs s)\<lparr>txIDToRequests := go_del i M\<rparr>, rm_uniqueRemoved := rm_uniqueRemoved s + 1\<rparr>"
  have wf: "wf_gomap M" using assms(3) by (simp add: subs_wf_def)
  have R: "go_get [] M i = R" using Some by (simp add: go_get_def)
  have "tracked Q (rm_reqs ?s) (go_del i M) R"
  proof (rule trackedI)
    fix r assume r: "r < length (rm_reqs ?s)"
    then have r': "r < length (rm_reqs s)" by simp
    note t = trackedD [OF assms(4) r'] waits_del [OF assms(3), of r i]
    show "nr_pending (rm_reqs ?s ! r) = int (waits (go_del i M) r) + (if r \<in> set R then 1 else 0)" if "live Q (rm_reqs ?s) r"
      using t that by (simp add: R)
    show "waits (go_del i M) r = 0 \<and> r \<notin> set R" if "\<not> live Q (rm_reqs ?s) r"
      using t that by (simp add: R split: if_splits)
  qed
  moreover have "distinct R" using subs_wf_get [OF assms(3) Some] by simp
  moreover have "\<forall>r \<in> set R. r < length (rm_reqs ?s)" using assms(5) in_pairs [OF wf, of i] R by (auto simp: subscribed_def)
  ultimately obtain s' where s': "loop_err (notifyRequest st) R ?s = Inr s'" "tracked Q (rm_reqs s') (go_del i M) []" "kept Q (rm_reqs ?s) (rm_reqs s')"
    "received (copies (rm_reqs ?s) st R) (rm_respMap ?s) (rm_respMap s')"
    "rm_subs s' = (rm_subs ?s)\<lparr>availableSlots := availableSlots (rm_subs ?s) + int (length R)\<rparr>"
    "rm_pendingRemoved s' = rm_pendingRemoved ?s + int (length R)" "rm_uniqueRemoved s' = rm_uniqueRemoved ?s"
    using notifyRequests_ok by blast
  moreover have "removeStatus st s = Inr s'" using s'(1) Some by (simp add: removeStatus_def M_def i_def)
  moreover have "size (pairs M) = size (pairs (go_del i M)) + length R" using arg_cong [OF pairs_split [OF wf, of i], of size] by (simp add: R)
  moreover have "int (length M) = int (length (go_del i M)) + 1" using length_del [OF wf, of i] Some by simp
  ultimately show ?thesis by (intro exI [of _ s']) (simp add: R)
qed

text \<open>A status for an identifier is delivered once: the first one of the batch.\<close>

fun first_statuses :: "TxStatus list \<Rightarrow> TxStatus list" where
  "first_statuses [] = []"
| "first_statuses (st # sts) = st # filter (\<lambda>x. ref_tx_id (st_ref x) \<noteq> ref_tx_id (st_ref st)) (first_statuses sts)"

definition deliveries :: "notificationRequest list \<Rightarrow> (string, nat list) gomap \<Rightarrow> TxStatus list \<Rightarrow> nat \<Rightarrow> TxStatus list" where
  "deliveries reqs M sts s = concat (map (\<lambda>st. copies reqs st (go_get [] M (ref_tx_id (st_ref st))) s) (first_statuses sts))"

definition unsubscribe :: "TxStatus list \<Rightarrow> (string, nat list) gomap \<Rightarrow> (string, nat list) gomap" where
  "unsubscribe sts M = fold (\<lambda>st. go_del (ref_tx_id (st_ref st))) sts M"

lemma concat_filter_Nil: "(\<And>x. x \<in> set xs \<Longrightarrow> \<not> P x \<Longrightarrow> f x = []) \<Longrightarrow> concat (map f (filter P xs)) = concat (map f xs)"
  by (induction xs) auto

lemma deliveries_Cons:
  "deliveries reqs M (st # sts) s = copies reqs st (go_get [] M (ref_tx_id (st_ref st))) s @ deliveries reqs (go_del (ref_tx_id (st_ref st)) M) sts s"
proof -
  let ?i = "ref_tx_id (st_ref st)" and ?P = "\<lambda>x. ref_tx_id (st_ref x) \<noteq> ref_tx_id (st_ref st)"
  have "concat (map (\<lambda>st. copies reqs st (go_get [] (go_del ?i M) (ref_tx_id (st_ref st))) s) (first_statuses sts)) =
    concat (map (\<lambda>st. copies reqs st (go_get [] (go_del ?i M) (ref_tx_id (st_ref st))) s) (filter ?P (first_statuses sts)))"
    by (rule concat_filter_Nil [symmetric]) (simp add: go_get_def copies_def)
  also have "\<dots> = concat (map (\<lambda>st. copies reqs st (go_get [] M (ref_tx_id (st_ref st))) s) (filter ?P (first_statuses sts)))"
    by (intro arg_cong [where f = concat] map_cong) (simp_all add: go_get_def)
  finally show ?thesis by (simp add: deliveries_def)
qed

lemma deliveries_kept:
  assumes "kept Q reqs reqs'" "subscribed reqs M" "wf_gomap M"
  shows "deliveries reqs' M sts s = deliveries reqs M sts s"
proof -
  have "copies reqs' st (go_get [] M i) s = copies reqs st (go_get [] M i) s" for st i
    by (rule copies_kept [OF assms(1)]) (use assms(2) in_pairs [OF assms(3), of i] in \<open>auto simp: subscribed_def\<close>)
  then show ?thesis by (simp add: deliveries_def)
qed

lemma removeStatuses_ok:
  fixes s sts
  defines "M \<equiv> txIDToRequests (rm_subs s)"
  assumes "subs_wf M" "tracked Q (rm_reqs s) M []" "subscribed (rm_reqs s) M"
  shows "\<exists>s'. loop_err removeStatus sts s = Inr s' \<and> txIDToRequests (rm_subs s') = unsubscribe sts M \<and> subs_wf (unsubscribe sts M) \<and>
    tracked Q (rm_reqs s') (unsubscribe sts M) [] \<and> subscribed (rm_reqs s') (unsubscribe sts M) \<and>
    kept Q (rm_reqs s) (rm_reqs s') \<and> received (deliveries (rm_reqs s) M sts) (rm_respMap s) (rm_respMap s') \<and>
    availableSlots (rm_subs s') + int (size (pairs (unsubscribe sts M))) = availableSlots (rm_subs s) + int (size (pairs M)) \<and>
    rm_pendingRemoved s' + int (size (pairs (unsubscribe sts M))) = rm_pendingRemoved s + int (size (pairs M)) \<and>
    rm_uniqueRemoved s' + int (length (unsubscribe sts M)) = rm_uniqueRemoved s + int (length M)"
  using assms(2-4) unfolding M_def
proof (induction sts arbitrary: s)
  case Nil
  then show ?case by (simp add: unsubscribe_def reqs_kept_refl received_def deliveries_def)
next
  case (Cons st sts)
  let ?i = "ref_tx_id (st_ref st)" and ?M = "txIDToRequests (rm_subs s)"
  obtain s1 where s1: "removeStatus st s = Inr s1" and M1: "txIDToRequests (rm_subs s1) = go_del ?i ?M"
    and t1: "tracked Q (rm_reqs s1) (go_del ?i ?M) []" and k1: "kept Q (rm_reqs s) (rm_reqs s1)"
    and g1: "received (copies (rm_reqs s) st (go_get [] ?M ?i)) (rm_respMap s) (rm_respMap s1)"
    and c1: "availableSlots (rm_subs s1) + int (size (pairs (go_del ?i ?M))) = availableSlots (rm_subs s) + int (size (pairs ?M))"
      "rm_pendingRemoved s1 + int (size (pairs (go_del ?i ?M))) = rm_pendingRemoved s + int (size (pairs ?M))"
      "rm_uniqueRemoved s1 + int (length (go_del ?i ?M)) = rm_uniqueRemoved s + int (length ?M)"
    using removeStatus_ok [OF Cons.prems, of st] by blast
  have sub: "subscribed (rm_reqs s1) (go_del ?i ?M)" by (rule subscribed_sub [OF Cons.prems(3) k1 pairs_del_sub])
  have sub0: "subscribed (rm_reqs s) (go_del ?i ?M)" by (rule subscribed_sub [OF Cons.prems(3) reqs_kept_refl pairs_del_sub])
  have wf: "wf_gomap (go_del ?i ?M)" using Cons.prems(1) by (simp add: subs_wf_def)
  have u: "unsubscribe (st # sts) ?M = unsubscribe sts (go_del ?i ?M)" by (simp add: unsubscribe_def)
  obtain s2 where s2: "loop_err removeStatus sts s1 = Inr s2" and k2: "kept Q (rm_reqs s1) (rm_reqs s2)"
    and g2: "received (deliveries (rm_reqs s1) (go_del ?i ?M) sts) (rm_respMap s1) (rm_respMap s2)"
    and r2: "txIDToRequests (rm_subs s2) = unsubscribe sts (go_del ?i ?M)" "subs_wf (unsubscribe sts (go_del ?i ?M))"
      "tracked Q (rm_reqs s2) (unsubscribe sts (go_del ?i ?M)) []" "subscribed (rm_reqs s2) (unsubscribe sts (go_del ?i ?M))"
    and c2: "availableSlots (rm_subs s2) + int (size (pairs (unsubscribe sts (go_del ?i ?M)))) = availableSlots (rm_subs s1) + int (size (pairs (go_del ?i ?M)))"
      "rm_pendingRemoved s2 + int (size (pairs (unsubscribe sts (go_del ?i ?M)))) = rm_pendingRemoved s1 + int (size (pairs (go_del ?i ?M)))"
      "rm_uniqueRemoved s2 + int (length (unsubscribe sts (go_del ?i ?M))) = rm_uniqueRemoved s1 + int (length (go_del ?i ?M))"
    using Cons.IH [of s1, unfolded M1, OF subs_wf_del [OF Cons.prems(1)] t1 sub] by blast
  have "received (deliveries (rm_reqs s) ?M (st # sts)) (rm_respMap s) (rm_respMap s2)"
    using received_trans [OF g1 g2]
    by (rule received_cong) (simp add: deliveries_Cons deliveries_kept [OF k1 sub0 wf])
  then show ?case using s1 s2 r2 reqs_kept_trans [OF k1 k2] c1 c2 unfolding u by simp
qed

section \<open>Removing a request that has timed out\<close>

lemma filter_mset_all: "\<forall>x \<in># A. P x \<Longrightarrow> filter_mset P A = A"
  by (induction A) simp_all

lemma removeTimeout_ok:
  assumes "removeTimeout req i (m, l, u) = (m', l', u')" "subs_wf (txIDToRequests m)"
  shows "subs_wf (txIDToRequests m') \<and> pairs (txIDToRequests m') = filter_mset (\<lambda>p. p \<noteq> (i, req)) (pairs (txIDToRequests m)) \<and>
    availableSlots m' + int (size (pairs (txIDToRequests m'))) = availableSlots m + int (size (pairs (txIDToRequests m))) \<and>
    int (length l') + int (size (pairs (txIDToRequests m'))) = int (length l) + int (size (pairs (txIDToRequests m))) \<and>
    u' + int (length (txIDToRequests m')) = u + int (length (txIDToRequests m))"
proof (cases "req \<in> set (go_get [] (txIDToRequests m) i)")
  case False
  have "wf_gomap (txIDToRequests m)" using assms(2) by (simp add: subs_wf_def)
  then have "(i, req) \<notin># pairs (txIDToRequests m)" using False in_pairs by blast
  then have "filter_mset (\<lambda>p. p \<noteq> (i, req)) (pairs (txIDToRequests m)) = pairs (txIDToRequests m)"
    by (auto simp: filter_mset_eq_conv)
  moreover have "removeTimeout req i (m, l, u) = (m, l, u)"
    using False by (auto simp: removeTimeout_def go_get_def split: option.splits)
  ultimately show ?thesis using assms by simp
next
  case True
  let ?M = "txIDToRequests m"
  have wf: "wf_gomap ?M" using assms(2) by (simp add: subs_wf_def)
  obtain rs where rs: "map_of ?M i = Some rs" and "req \<in> set rs" using True by (cases "map_of ?M i") (auto simp: go_get_def)
  then obtain a b where ab: "rs = a @ req # b" using split_list by metis
  have d: "distinct rs" using subs_wf_get [OF assms(2) rs] by simp
  have g: "go_get [] ?M i = rs" using rs by (simp add: go_get_def)
  have f: "filter (\<lambda>r. r \<noteq> req) rs = a @ b"
    using d ab by (auto intro!: arg_cong2 [of _ _ _ _ append] filter_True)
  have one: "pairs ?M = pairs (go_del i ?M) + mset (map (Pair i) (a @ b)) + {#(i, req)#}"
    using pairs_split [OF wf, of i] by (simp add: g ab)
  have "\<forall>p \<in># pairs (go_del i ?M) + mset (map (Pair i) (a @ b)). p \<noteq> (i, req)" using d ab by (auto simp: pairs_del)
  then have flt: "filter_mset (\<lambda>p. p \<noteq> (i, req)) (pairs ?M) = pairs (go_del i ?M) + mset (map (Pair i) (a @ b))"
    unfolding one by (subst filter_union_mset, subst filter_mset_all) simp_all
  show ?thesis
  proof (cases "length rs = 1")
    case True
    then have "a = []" "b = []" using ab by simp_all
    then have p: "filter_mset (\<lambda>p. p \<noteq> (i, req)) (pairs ?M) = pairs (go_del i ?M)" "size (pairs ?M) = size (pairs (go_del i ?M)) + 1"
      using flt arg_cong [OF one, of size] by simp_all
    have m: "m' = m\<lparr>availableSlots := availableSlots m + 1, txIDToRequests := go_del i ?M\<rparr>" "l' = l @ [i]" "u' = u + 1"
      using assms(1) rs \<open>req \<in> set rs\<close> True by (simp_all add: removeTimeout_def)
    have "int (length ?M) = int (length (go_del i ?M)) + 1" using length_del [OF wf, of i] rs by simp
    then show ?thesis using m p subs_wf_del [OF assms(2), of i] by simp
  next
    case False
    have "pairs (go_put i (a @ b) ?M) = pairs (go_del i ?M) + mset (map (Pair i) (a @ b))"
      using pairs_put [OF wf, of i "a @ b"] pairs_split [OF wf, of i] by (simp add: g ab)
    then have p: "filter_mset (\<lambda>p. p \<noteq> (i, req)) (pairs ?M) = pairs (go_put i (a @ b) ?M)" "size (pairs ?M) = size (pairs (go_put i (a @ b) ?M)) + 1"
      using flt arg_cong [OF one, of size] by simp_all
    have m: "m' = m\<lparr>availableSlots := availableSlots m + 1, txIDToRequests := go_put i (a @ b) ?M\<rparr>" "l' = l @ [i]" "u' = u"
      using assms(1) rs \<open>req \<in> set rs\<close> False f by (simp_all add: removeTimeout_def)
    have "subs_wf (go_put i (a @ b) ?M)" by (rule subs_wf_put [OF assms(2)]) (use False ab d in auto)
    then show ?thesis using m p length_put [of i "a @ b" ?M] rs by simp
  qed
qed

lemma removeTimeouts_ok:
  assumes "fold (removeTimeout req) is (m, l, u) = (m', l', u')" "subs_wf (txIDToRequests m)"
  shows "subs_wf (txIDToRequests m') \<and> pairs (txIDToRequests m') = filter_mset (\<lambda>p. \<not> (fst p \<in> set is \<and> snd p = req)) (pairs (txIDToRequests m)) \<and>
    availableSlots m' + int (size (pairs (txIDToRequests m'))) = availableSlots m + int (size (pairs (txIDToRequests m))) \<and>
    int (length l') + int (size (pairs (txIDToRequests m'))) = int (length l) + int (size (pairs (txIDToRequests m))) \<and>
    u' + int (length (txIDToRequests m')) = u + int (length (txIDToRequests m))"
  using assms
proof (induction "is" arbitrary: m l u)
  case (Cons i "is")
  obtain m1 l1 u1 where e: "removeTimeout req i (m, l, u) = (m1, l1, u1)" by (metis prod_cases3)
  have "fold (removeTimeout req) is (m1, l1, u1) = (m', l', u')" using Cons.prems(1) e by simp
  note r = removeTimeout_ok [OF e Cons.prems(2)] and ih = Cons.IH [OF this removeTimeout_ok [OF e Cons.prems(2), THEN conjunct1]]
  have "filter_mset (\<lambda>p. \<not> (fst p \<in> set is \<and> snd p = req)) (filter_mset (\<lambda>p. p \<noteq> (i, req)) (pairs (txIDToRequests m))) =
    filter_mset (\<lambda>p. \<not> (fst p \<in> set (i # is) \<and> snd p = req)) (pairs (txIDToRequests m))"
    by (simp add: filter_filter_mset) (rule filter_mset_cong, auto)
  then have "pairs (txIDToRequests m') = filter_mset (\<lambda>p. \<not> (fst p \<in> set (i # is) \<and> snd p = req)) (pairs (txIDToRequests m))"
    using ih r by metis
  then show ?case using ih r by (intro conjI) linarith+
qed simp

section \<open>The invariant of the notifier\<close>

definition queues_ok :: "notifier \<Rightarrow> bool" where
  "queues_ok n \<longleftrightarrow>
     distinct (nt_requestQueue n) \<and> (\<forall>r \<in> set (nt_requestQueue n). r < length (nt_reqs n) \<and> nr_timer (nt_reqs n ! r) = NoTimer) \<and>
     distinct (nt_timeoutQueue n) \<and> (\<forall>r \<in> set (nt_timeoutQueue n). r < length (nt_reqs n) \<and> nr_timer (nt_reqs n ! r) = Fired) \<and>
     (\<forall>r < length (nt_reqs n). nr_timer (nt_reqs n ! r) = NoTimer \<longrightarrow> nr_pending (nt_reqs n ! r) = 0)"

abbreviation subs_of :: "notifier \<Rightarrow> (string, nat list) gomap" where
  "subs_of n \<equiv> txIDToRequests (nt_subs n)"

definition counts_ok :: "notifier \<Rightarrow> bool" where
  "counts_ok n \<longleftrightarrow>
     availableSlots (nt_subs n) + int (size (pairs (subs_of n))) = nt_maxActiveTxIDs n \<and>
     (0 \<le> nt_maxActiveTxIDs n \<longrightarrow> 0 \<le> availableSlots (nt_subs n)) \<and>
     nt_pendingTxIDs n = int (size (pairs (subs_of n))) \<and> nt_uniquePendingTxIDs n = int (length (subs_of n))"

definition notifier_inv :: "notifier \<Rightarrow> bool" where
  "notifier_inv n \<longleftrightarrow>
     subs_wf (subs_of n) \<and> tracked (set (nt_timeoutQueue n)) (nt_reqs n) (subs_of n) [] \<and>
     subscribed (nt_reqs n) (subs_of n) \<and> queues_ok n \<and> counts_ok n"

lemma filter_mset_empty_conv_all: "filter_mset P A = {#} \<longleftrightarrow> (\<forall>x. x \<in># A \<longrightarrow> \<not> P x)"
  by (induction A) auto

lemma waits_zero: "waits m r = 0 \<longleftrightarrow> (\<forall>i. (i, r) \<notin># pairs m)"
proof -
  have "waits m r = 0 \<longleftrightarrow> (\<forall>p. p \<in># pairs m \<longrightarrow> snd p \<noteq> r)"
    by (simp add: waits_def filter_mset_empty_conv_all)
  then show ?thesis by force
qed

lemma subscribed_update: "subscribed reqs M \<Longrightarrow> nr_txIDs x = nr_txIDs (reqs ! r) \<Longrightarrow> subscribed (reqs[r := x]) M"
  unfolding subscribed_def by (metis length_list_update nth_list_update_eq nth_list_update_neq)

lemma newNotifier_inv: "notifier_inv (newNotifier t a x)"
  by (simp add: notifier_inv_def newNotifier_def subs_wf_def wf_gomap_def tracked_def subscribed_def pairs_def queues_ok_def counts_ok_def)

lemma receive_inv:
  assumes "notifier_inv n"
  shows "notifier_inv (receiveRequest stream ids t n)"
proof -
  let ?n = "receiveRequest stream ids t n"
  let ?reqs = "nt_reqs n" and ?reqs' = "nt_reqs ?n" and ?M = "subs_of n" and ?Q = "set (nt_timeoutQueue n)"
  have i: "subs_wf ?M" "tracked ?Q ?reqs ?M []" "subscribed ?reqs ?M" "queues_ok n" "counts_ok n"
    using assms by (simp_all add: notifier_inv_def)
  have eq: "subs_of ?n = ?M" "nt_timeoutQueue ?n = nt_timeoutQueue n" "length ?reqs' = Suc (length ?reqs)"
    "nt_requestQueue ?n = nt_requestQueue n @ [length ?reqs]"
    by (simp_all add: receiveRequest_def)
  have old: "?reqs' ! r = ?reqs ! r" if "r < length ?reqs" for r using that by (simp add: receiveRequest_def nth_append)
  have new: "nr_timer (?reqs' ! length ?reqs) = NoTimer" "nr_pending (?reqs' ! length ?reqs) = 0" by (simp_all add: receiveRequest_def)
  have "waits ?M (length ?reqs) = 0"
    using i(3) by (auto simp: waits_zero subscribed_def)
  then have "tracked ?Q ?reqs' ?M []"
    using i(2) old new by (intro trackedI) (auto simp: eq(3) less_Suc_eq live_def dest: trackedD)
  moreover have "subscribed ?reqs' ?M" using i(3) old by (fastforce simp: subscribed_def eq(3) less_Suc_eq)
  moreover have "queues_ok ?n" using i(4) old new by (auto simp: queues_ok_def eq less_Suc_eq)
  moreover have "counts_ok ?n" using i(5) by (simp add: counts_ok_def receiveRequest_def)
  ultimately show ?thesis using i(1) by (simp add: notifier_inv_def eq)
qed

lemma fire_inv:
  assumes "notifier_inv n" "r < length (nt_reqs n)" "nr_timer (nt_reqs n ! r) = Running"
  shows "notifier_inv (n\<lparr>nt_reqs := (nt_reqs n)[r := (nt_reqs n ! r)\<lparr>nr_timer := Fired\<rparr>], nt_timeoutQueue := nt_timeoutQueue n @ [r]\<rparr>)"
proof -
  let ?reqs' = "(nt_reqs n)[r := (nt_reqs n ! r)\<lparr>nr_timer := Fired\<rparr>]" and ?M = "subs_of n"
  let ?Q = "set (nt_timeoutQueue n)"
  have i: "subs_wf ?M" "tracked ?Q (nt_reqs n) ?M []" "subscribed (nt_reqs n) ?M" "queues_ok n" "counts_ok n"
    using assms(1) by (simp_all add: notifier_inv_def)
  have lv: "live (insert r ?Q) ?reqs' x = live ?Q (nt_reqs n) x" for x
    using assms(2,3) by (cases "x = r") (auto simp: live_def)
  have "tracked (insert r ?Q) ?reqs' ?M []"
  proof (rule trackedI)
    fix x assume x: "x < length ?reqs'"
    note t = trackedD [OF i(2), of x]
    show "nr_pending (?reqs' ! x) = int (waits ?M x) + (if x \<in> set [] then 1 else 0)" if "live (insert r ?Q) ?reqs' x"
      using x t(1) that by (cases "x = r") (simp_all add: lv)
    show "waits ?M x = 0 \<and> x \<notin> set []" if "\<not> live (insert r ?Q) ?reqs' x" using x t(2) that by (simp add: lv)
  qed
  moreover have "subscribed ?reqs' ?M" using i(3) by (rule subscribed_update) simp
  moreover have "queues_ok (n\<lparr>nt_reqs := ?reqs', nt_timeoutQueue := nt_timeoutQueue n @ [r]\<rparr>)"
    using i(4) assms(2,3) by (auto simp: queues_ok_def nth_list_update)
  ultimately show ?thesis using i(1,5) by (simp add: notifier_inv_def counts_ok_def)
qed

lemma request_inv:
  assumes "notifier_inv n" "nt_requestQueue n = r # q"
  shows "notifier_inv (handleRequest r (n\<lparr>nt_requestQueue := q\<rparr>))"
proof -
  let ?M = "subs_of n" and ?Q = "set (nt_timeoutQueue n)" and ?r = "nt_reqs n ! r"
  have i: "subs_wf ?M" "tracked ?Q (nt_reqs n) ?M []" "subscribed (nt_reqs n) ?M" "queues_ok n" "counts_ok n"
    using assms(1) by (simp_all add: notifier_inv_def)
  have r: "r < length (nt_reqs n)" "nr_timer ?r = NoTimer" "nr_pending ?r = 0" "r \<notin> set q" "r \<notin> ?Q"
    using i(4) assms(2) by (auto simp: queues_ok_def)
  have q: "queues_ok (n\<lparr>nt_requestQueue := q\<rparr>)" using i(4) assms(2) by (simp add: queues_ok_def)
  show ?thesis
  proof (cases "int (length (nr_txIDs ?r)) > nt_maxTxIDsPerRequest n")
    case True
    then show ?thesis
      using i q by (simp add: notifier_inv_def handleRequest_def Let_def writeEvent_def queues_ok_def counts_ok_def)
  next
    case False
    obtain rej m p u where a: "addRequest r (nr_txIDs ?r) (nt_subs n) 0 0 = (rej, m, p, u)" by (metis prod_cases4)
    let ?r' = "?r\<lparr>nr_pending := p, nr_timer := (if p > 0 then Running else NoTimer)\<rparr>"
    let ?reqs' = "(nt_reqs n)[r := ?r']" and ?n = "handleRequest r (n\<lparr>nt_requestQueue := q\<rparr>)"
    obtain S where S: "subs_wf (txIDToRequests m)" "pairs (txIDToRequests m) = pairs ?M + S" "set_mset S \<subseteq> set (nr_txIDs ?r) \<times> {r}"
      "p = int (size S)" "availableSlots m = availableSlots (nt_subs n) - int (size S)"
      "u = int (length (txIDToRequests m)) - int (length ?M)" "0 \<le> availableSlots (nt_subs n) \<longrightarrow> 0 \<le> availableSlots m"
      using addRequest_ok [OF a i(1)] by auto
    have n': "nt_subs ?n = m" "nt_reqs ?n = ?reqs'" "nt_requestQueue ?n = q" "nt_timeoutQueue ?n = nt_timeoutQueue n"
      "nt_maxActiveTxIDs ?n = nt_maxActiveTxIDs n" "nt_pendingTxIDs ?n = nt_pendingTxIDs n + p" "nt_uniquePendingTxIDs ?n = nt_uniquePendingTxIDs n + u"
      using a r False by (simp_all add: handleRequest_def writeEvent_def Let_def)
    have wr: "waits ?M r = 0" using trackedD(2) [OF i(2) r(1)] r(2) by (simp add: live_def)
    have w: "waits (txIDToRequests m) x = waits ?M x + (if x = r then size S else 0)" for x
    proof -
      have "filter_mset (\<lambda>p. snd p = x) S = (if x = r then S else {#})"
        using S(3) by (cases "x = r") (auto simp: filter_mset_empty_conv_all intro!: filter_mset_all)
      then show ?thesis using waits_add [OF S(2), of x] by simp
    qed
    have "tracked ?Q ?reqs' (txIDToRequests m) []"
    proof (rule trackedI)
      fix x assume x: "x < length ?reqs'"
      note t = trackedD [OF i(2), of x]
      show "nr_pending (?reqs' ! x) = int (waits (txIDToRequests m) x) + (if x \<in> set [] then 1 else 0)" if "live ?Q ?reqs' x"
        using x t(1) that r S(4) wr by (cases "x = r") (simp_all add: live_update w)
      show "waits (txIDToRequests m) x = 0 \<and> x \<notin> set []" if "\<not> live ?Q ?reqs' x"
        using x t(2) that r S(4) wr by (cases "x = r") (simp_all add: live_update w split: if_splits)
    qed
    moreover have "subscribed ?reqs' (txIDToRequests m)"
      using i(3) S(2,3) r(1) by (auto simp: subscribed_def nth_list_update)
    moreover have "queues_ok ?n" using q r S(4) by (auto simp: queues_ok_def n' nth_list_update)
    moreover have "counts_ok ?n" using i(5) S by (simp add: counts_ok_def n')
    ultimately show ?thesis using S(1) by (simp add: notifier_inv_def n')
  qed
qed

lemma timeout_inv:
  assumes "notifier_inv n" "nt_timeoutQueue n = r # q"
  shows "notifier_inv (handleTimeout r (n\<lparr>nt_timeoutQueue := q\<rparr>))"
proof -
  let ?M = "subs_of n" and ?Q = "set (nt_timeoutQueue n)" and ?ids = "nr_txIDs (nt_reqs n ! r)"
  have i: "subs_wf ?M" "tracked ?Q (nt_reqs n) ?M []" "subscribed (nt_reqs n) ?M" "queues_ok n" "counts_ok n"
    using assms(1) by (simp_all add: notifier_inv_def)
  have r: "r < length (nt_reqs n)" "nr_timer (nt_reqs n ! r) = Fired" "r \<notin> set q" using i(4) assms(2) by (auto simp: queues_ok_def)
  obtain m l u where f: "fold (removeTimeout r) ?ids (nt_subs n, [], 0) = (m, l, u)" by (metis prod_cases3)
  note t = removeTimeouts_ok [OF f i(1)]
  let ?n = "handleTimeout r (n\<lparr>nt_timeoutQueue := q\<rparr>)" and ?M' = "txIDToRequests m"
  have n': "nt_subs ?n = m" "nt_reqs ?n = nt_reqs n" "nt_requestQueue ?n = nt_requestQueue n" "nt_timeoutQueue ?n = q"
    "nt_maxActiveTxIDs ?n = nt_maxActiveTxIDs n" "nt_pendingTxIDs ?n = nt_pendingTxIDs n - int (length l)" "nt_uniquePendingTxIDs ?n = nt_uniquePendingTxIDs n - u"
    using f by (simp_all add: handleTimeout_def writeEvent_def Let_def)
  have mem: "(x, y) \<in># pairs ?M' \<longleftrightarrow> (x, y) \<in># pairs ?M \<and> \<not> (x \<in> set ?ids \<and> y = r)" for x y using t by simp
  have w: "waits ?M' x = (if x = r then 0 else waits ?M x)" for x
  proof (cases "x = r")
    case True
    then show ?thesis using mem i(3) by (auto simp: waits_zero subscribed_def)
  next
    case False
    then have "filter_mset (\<lambda>p. snd p = x) (pairs ?M') = filter_mset (\<lambda>p. snd p = x) (pairs ?M)"
      using t by (auto simp: filter_filter_mset intro!: filter_mset_cong)
    then show ?thesis using False by (simp add: waits_def)
  qed
  have lv: "live (set q) (nt_reqs n) x = (x \<noteq> r \<and> live ?Q (nt_reqs n) x)" for x
    using r assms(2) by (auto simp: live_def)
  have "tracked (set q) (nt_reqs n) ?M' []"
    by (rule trackedI) (use trackedD [OF i(2)] in \<open>auto simp: lv w\<close>)
  moreover have "subscribed (nt_reqs n) ?M'" using i(3) mem unfolding subscribed_def by blast
  moreover have "queues_ok ?n" using i(4) assms(2) by (simp add: queues_ok_def n')
  moreover have "counts_ok ?n" unfolding counts_ok_def n'
    using i(5) [unfolded counts_ok_def] t [THEN conjunct2, THEN conjunct2] by auto
  ultimately show ?thesis using t by (simp add: notifier_inv_def n')
qed

lemma unsubscribe_size: "size (pairs (unsubscribe sts M)) \<le> size (pairs M)"
proof (induction sts arbitrary: M)
  case (Cons st sts)
  let ?M = "go_del (ref_tx_id (st_ref st)) M"
  have "size (pairs ?M) \<le> size (pairs M)" unfolding pairs_del by (rule size_mset_mono) simp
  with Cons.IH [of ?M] show ?case by (simp add: unsubscribe_def)
qed (simp add: unsubscribe_def)

lemma keptD:
  assumes "kept Q reqs reqs'" "r < length reqs"
  shows "nr_timer (reqs ! r) = Fired \<Longrightarrow> nr_timer (reqs' ! r) = Fired"
    "nr_timer (reqs' ! r) = NoTimer \<Longrightarrow> nr_timer (reqs ! r) = NoTimer"
    "nr_timer (reqs ! r) = NoTimer \<Longrightarrow> reqs' ! r = reqs ! r"
proof -
  have a: "nr_timer (reqs ! r) = Fired \<longrightarrow> nr_timer (reqs' ! r) = Fired" "nr_timer (reqs' ! r) = NoTimer \<longrightarrow> nr_timer (reqs ! r) = NoTimer"
    "\<not> live Q reqs r \<longrightarrow> reqs' ! r = reqs ! r"
    using assms unfolding kept_def by blast+
  then show "nr_timer (reqs ! r) = Fired \<Longrightarrow> nr_timer (reqs' ! r) = Fired"
    "nr_timer (reqs' ! r) = NoTimer \<Longrightarrow> nr_timer (reqs ! r) = NoTimer" by blast+
  assume "nr_timer (reqs ! r) = NoTimer"
  then have "\<not> live Q reqs r" by (simp add: live_def)
  with a(3) show "reqs' ! r = reqs ! r" by blast
qed

lemma queues_kept:
  assumes "queues_ok n" "kept Q (nt_reqs n) (nt_reqs n')"
    and "nt_requestQueue n' = nt_requestQueue n" "nt_timeoutQueue n' = nt_timeoutQueue n"
  shows "queues_ok n'"
proof -
  have l: "length (nt_reqs n') = length (nt_reqs n)" using assms(2) by (simp add: kept_def)
  note k = keptD [OF assms(2)]
  have q: "distinct (nt_requestQueue n)" "distinct (nt_timeoutQueue n)"
    "\<And>r. r \<in> set (nt_requestQueue n) \<Longrightarrow> r < length (nt_reqs n) \<and> nr_timer (nt_reqs n ! r) = NoTimer"
    "\<And>r. r \<in> set (nt_timeoutQueue n) \<Longrightarrow> r < length (nt_reqs n) \<and> nr_timer (nt_reqs n ! r) = Fired"
    "\<And>r. r < length (nt_reqs n) \<Longrightarrow> nr_timer (nt_reqs n ! r) = NoTimer \<Longrightarrow> nr_pending (nt_reqs n ! r) = 0"
    using assms(1) by (simp_all add: queues_ok_def)
  show ?thesis unfolding queues_ok_def assms(3,4) l
    by (intro conjI ballI allI impI q(1,2)) (metis q(3-) k)+
qed

lemma status_ok:
  assumes "notifier_inv n"
  shows "\<exists>n'. handleStatus sts n = Inr n' \<and> notifier_inv n' \<and> subs_of n' = unsubscribe sts (subs_of n) \<and>
    (\<exists>new. nt_written n' = nt_written n @ map (\<lambda>(s, l). (s, TxStatusEvents l)) new \<and> resp_wf new \<and>
           (\<forall>s. go_get [] new s = deliveries (nt_reqs n) (subs_of n) sts s))"
proof -
  let ?M = "subs_of n" and ?Q = "set (nt_timeoutQueue n)" and ?U = "unsubscribe sts (subs_of n)"
  let ?s = "\<lparr>rm_subs = nt_subs n, rm_reqs = nt_reqs n, rm_respMap = [], rm_pendingRemoved = 0, rm_uniqueRemoved = 0\<rparr>"
  have i: "subs_wf ?M" "tracked ?Q (nt_reqs n) ?M []" "subscribed (nt_reqs n) ?M" "queues_ok n" "counts_ok n"
    using assms by (simp_all add: notifier_inv_def)
  obtain s where s: "loop_err removeStatus sts ?s = Inr s" "txIDToRequests (rm_subs s) = ?U" "subs_wf ?U"
    "tracked ?Q (rm_reqs s) ?U []" "subscribed (rm_reqs s) ?U" and k: "kept ?Q (nt_reqs n) (rm_reqs s)"
    and g: "received (deliveries (nt_reqs n) ?M sts) [] (rm_respMap s)"
    and c: "availableSlots (rm_subs s) + int (size (pairs ?U)) = availableSlots (nt_subs n) + int (size (pairs ?M))"
      "rm_pendingRemoved s + int (size (pairs ?U)) = int (size (pairs ?M))" "rm_uniqueRemoved s + int (length ?U) = int (length ?M)"
    using removeStatuses_ok [of ?s ?Q sts] i(1-3) by auto
  obtain n' where n': "handleStatus sts n = Inr n'" "nt_subs n' = rm_subs s" "nt_reqs n' = rm_reqs s" "nt_requestQueue n' = nt_requestQueue n"
    "nt_timeoutQueue n' = nt_timeoutQueue n" "nt_maxActiveTxIDs n' = nt_maxActiveTxIDs n"
    "nt_pendingTxIDs n' = nt_pendingTxIDs n - rm_pendingRemoved s" "nt_uniquePendingTxIDs n' = nt_uniquePendingTxIDs n - rm_uniqueRemoved s"
    "nt_written n' = nt_written n @ map (\<lambda>(s, l). (s, TxStatusEvents l)) (rm_respMap s)"
    using s(1) by (simp add: handleStatus_def)
  have sz: "size (pairs ?U) \<le> size (pairs ?M)" by (rule unsubscribe_size)
  have "queues_ok n'"
    by (rule queues_kept [OF i(4)]) (use k in \<open>simp_all add: n'\<close>)
  moreover have "counts_ok n'" using i(5) c sz unfolding counts_ok_def n' s(2) by linarith
  ultimately have "notifier_inv n'" using s by (simp add: notifier_inv_def n')
  moreover have "resp_wf (rm_respMap s)" "\<forall>x. go_get [] (rm_respMap s) x = deliveries (nt_reqs n) ?M sts x"
    using g by (simp_all add: received_def resp_wf_def wf_gomap_def)
  moreover have "subs_of n' = ?U" using n'(2) s(2) by simp
  ultimately show ?thesis using n'(1,9) by blast
qed

lemma notifier_reachable_inv: "notifier_reachable n \<Longrightarrow> notifier_inv n"
proof (induction rule: notifier_reachable.induct)
  case (start t a x)
  then show ?case by (rule newNotifier_inv)
next
  case (step n n')
  from step.hyps(2) step.IH show ?case
  proof cases
    case (receive stream txIDs timeout)
    then show ?thesis using receive_inv [OF step.IH] by simp
  next
    case (request req q)
    then show ?thesis using request_inv [OF step.IH] by simp
  next
    case (status sts)
    then show ?thesis using status_ok [OF step.IH, of sts] by auto
  next
    case (fire req)
    then show ?thesis using fire_inv [OF step.IH] by simp
  next
    case (timeout req q)
    then show ?thesis using timeout_inv [OF step.IH] by simp
  qed
qed

section \<open>Accounting\<close>

text \<open>
  C30: Whatever clients send, in whichever order the notifier takes requests, statuses and time-outs, and
  whenever timers fire: the free slots and the active subscriptions always add up to the configured
  maximum and never exceed it, both gauges agree with the subscriptions, no subscription is kept for a
  request whose timer neither runs nor has its time-out queued, so each is eventually released, and no
  batch of statuses makes the notifier panic on a timer that was never created.
\<close>

theorem notifier_accounting:
  fixes n
  defines "active \<equiv> sum_list (map (length \<circ> snd) (txIDToRequests (nt_subs n)))"
  assumes "notifier_reachable n"
  shows "availableSlots (nt_subs n) + int active = nt_maxActiveTxIDs n \<and>
    (0 \<le> nt_maxActiveTxIDs n \<longrightarrow> 0 \<le> availableSlots (nt_subs n)) \<and>
    nt_pendingTxIDs n = int active \<and> nt_uniquePendingTxIDs n = int (length (txIDToRequests (nt_subs n))) \<and>
    (\<forall>(i, rs) \<in> set (txIDToRequests (nt_subs n)). \<forall>r \<in> set rs.
       nr_timer (nt_reqs n ! r) = Running \<or> r \<in> set (nt_timeoutQueue n)) \<and>
    (\<forall>sts. \<exists>n'. handleStatus sts n = Inr n')"
proof -
  note inv = notifier_reachable_inv [OF assms(2)]
  have "size (pairs m) = sum_list (map (length \<circ> snd) m)" for m by (induction m) (auto simp: pairs_def)
  then have sz: "active = size (pairs (subs_of n))" by (simp add: active_def)
  have c: "counts_ok n" using inv by (simp add: notifier_inv_def)
  have "nr_timer (nt_reqs n ! r) = Running \<or> r \<in> set (nt_timeoutQueue n)"
    if "(i, rs) \<in> set (subs_of n)" "r \<in> set rs" for i rs r
  proof -
    have p: "(i, r) \<in># pairs (subs_of n)" using that by (force simp: pairs_def set_flat)
    have t: "tracked (set (nt_timeoutQueue n)) (nt_reqs n) (subs_of n) []" and "r < length (nt_reqs n)"
      using inv p by (auto simp: notifier_inv_def subscribed_def)
    then show ?thesis using trackedD(2) [OF t, of r] p by (auto simp: live_def waits_zero)
  qed
  moreover have "\<forall>sts. \<exists>n'. handleStatus sts n = Inr n'" using status_ok [OF inv] by blast
  ultimately show ?thesis using c unfolding sz counts_ok_def by blast
qed


section \<open>Block streams and rejected messages\<close>

lemma setFinal_txs: "setFinalStatus i st b = Inr b' \<Longrightarrow> bws_txs b' = bws_txs b"
  by (auto simp: setFinalStatus_def split: if_splits)

lemma rejectNonDB_txs: "rejectNonDBStatusTx ref st m = Inr m' \<Longrightarrow> bws_txs (bm_withStatus m') = bws_txs (bm_withStatus m)"
  by (auto simp: rejectNonDBStatusTx_def split: if_splits sum.splits dest: setFinal_txs)

lemma addTxID_txs: "addTxIDMapping ref m = Inr (dup, m') \<Longrightarrow> bws_txs (bm_withStatus m') = bws_txs (bm_withStatus m)"
  by (auto simp: addTxIDMapping_def split: prod.splits bool.splits sum.splits dest: rejectNonDB_txs)

lemma rejectTx_txs: "rejectTx ref st m = Inr m' \<Longrightarrow> bws_txs (bm_withStatus m') = bws_txs (bm_withStatus m)"
  by (auto simp: rejectTx_def split: if_splits prod.splits bool.splits sum.splits dest: rejectNonDB_txs addTxID_txs)

lemma prepareTxSlot_txs:
  "prepareTxSlot ref tx m = Inr (res, m') \<Longrightarrow> num_of ref \<noteq> i \<Longrightarrow> bws_txs (bm_withStatus m') ! i = bws_txs (bm_withStatus m) ! i"
  by (auto simp: prepareTxSlot_def Let_def num_of_def split: if_splits prod.splits bool.splits sum.splits dest: addTxID_txs)

text \<open>Only a message that parsing accepts gets a content, in its own slot.\<close>

lemma applyParsedTX_txs:
  assumes "applyParsedTX (ref, px) m = Inr m'" "num_of ref \<noteq> i \<or> px_status px \<noteq> statusNotYetValidated"
  shows "bws_txs (bm_withStatus m') ! i = bws_txs (bm_withStatus m) ! i"
proof (cases "px_status px = statusNotYetValidated")
  case False
  then show ?thesis using assms(1) by (auto simp: applyParsedTX_def split: option.splits dest: rejectTx_txs)
next
  case True
  then have "num_of ref \<noteq> i" using assms(2) by simp
  then show ?thesis using assms(1) True
    by (auto simp: applyParsedTX_def appendTx_def appendConfigTx_def appendToBatch_def
        split: option.splits if_splits sum.splits prod.splits dest: prepareTxSlot_txs rejectTx_txs)
qed

lemma mapBlock_no_content:
  assumes "mapBlock ps cfg blk d = Inr m" "blk_data blk = Some msgs" "length msgs < 2 ^ 32" "i < length msgs"
    and "px_status (fst (parseMessage ps (msgs ! i))) \<noteq> statusNotYetValidated"
  shows "snd (bws_txs (bm_withStatus m) ! i) = None"
proof -
  let ?parsed = "map (parseAt ps (blk_number blk) msgs) [0..<length msgs]"
  obtain m1 where m1: "loop_err applyParsedTX ?parsed (newMapper (blk_number blk) ?parsed d) = Inr m1"
    "bm_withStatus m = bm_withStatus m1"
    using assms(1,2) by (auto simp: mapBlock_def Let_def parseMessages_eq comp_def split: sum.splits)
  have "snd (bws_txs (bm_withStatus m1) ! i) = None"
  proof (rule loop_err_inv [OF m1(1), where P = "\<lambda>m. snd (bws_txs (bm_withStatus m) ! i) = None"])
    show "snd (bws_txs (bm_withStatus (newMapper (blk_number blk) ?parsed d)) ! i) = None"
      using assms(4) by (simp add: newMapper_def split: prod.splits)
    fix x s s' assume x: "x \<in> set ?parsed" "snd (bws_txs (bm_withStatus s) ! i) = None" "applyParsedTX x s = Inr s'"
    obtain ref px where rp: "x = (ref, px)" by (cases x)
    from x(1) obtain j where j: "j < length msgs" "x = parseAt ps (blk_number blk) msgs j" by auto
    have "num_of ref = j"
      using j assms(3) by (auto simp: rp parseAt_def Let_def num_of_def unat_of_nat split: prod.splits)
    then have "num_of ref \<noteq> i \<or> px_status px \<noteq> statusNotYetValidated"
      using assms(5) j by (auto simp: rp parseAt_def Let_def split: prod.splits)
    from applyParsedTX_txs [OF x(3) [unfolded rp] this] x(2) show "snd (bws_txs (bm_withStatus s') ! i) = None" by simp
  qed
  then show ?thesis using m1(2) by simp
qed

lemma filterAndBuildEvents_panics:
  assumes "i < length txs" "snd (txs ! i) = None" "includeEndorsements s \<or> includeMetadata s"
    and "filterNamespaces_of s = []" "filterStatuses s = []"
  shows "filterAndBuildEvents s txs sts = None"
  using assms
proof (induction s txs sts arbitrary: i rule: filterAndBuildEvents.induct)
  case (3 s tx txs st sts)
  show ?case
  proof (cases i)
    case 0
    then show ?thesis using "3.prems" by (cases tx) (auto simp: buildEvent_def)
  next
    case (Suc j)
    then show ?thesis
      using "3.IH"(3) "3.prems" by (cases "buildEvent s tx st (filterNamespaces (snd tx) [])") (simp_all add: Let_def)
  qed
qed simp_all


section \<open>Examples\<close>

text \<open>One client subscribes to two transactions, with room for three subscriptions; one of them is settled.\<close>

definition demo_notifier :: notifier where
  "demo_notifier = handleRequest 0 ((receiveRequest 4 [''a'', ''b''] 3 (newNotifier 10 3 5))\<lparr>nt_requestQueue := []\<rparr>)"

definition demo_status :: TxStatus where
  "demo_status = \<lparr>st_ref = \<lparr>ref_block_num = 1, ref_tx_id = ''a'', ref_tx_num = 0\<rparr>, st_status = COMMITTED\<rparr>"

lemma demo_notifier_reachable: "notifier_reachable demo_notifier"
  unfolding demo_notifier_def
  by (rule notifier_reachable.step [OF notifier_reachable.step [OF notifier_reachable.start notifier_step.receive] notifier_step.request])
     (simp add: receiveRequest_def newNotifier_def)

theorem notifier_accounting_witness:
  "txIDToRequests (nt_subs demo_notifier) = [(''a'', [0]), (''b'', [0])] \<and> availableSlots (nt_subs demo_notifier) + 2 = 3 \<and>
   nr_timer (nt_reqs demo_notifier ! 0) = Running"
proof -
  have d: "txIDToRequests (nt_subs demo_notifier) = [(''a'', [0]), (''b'', [0])]" "nt_maxActiveTxIDs demo_notifier = 3"
    "nt_timeoutQueue demo_notifier = []"
    by code_simp+
  from notifier_accounting [OF demo_notifier_reachable] show ?thesis by (simp add: d)
qed


definition demo_stream :: blockStream where
  "demo_stream = \<lparr>filterNamespaces_of = [], filterStatuses = [], includeReadWriteSets = False, includeEndorsements = True, includeMetadata = False\<rparr>"


end
