(* ===== verification/Query_Service.thy ===== *)
theory Query_Service
  imports State_DB Policy
begin

text \<open>
  \<open>service/query\<close>: views, the batchers they share, the query batches of a batcher, and the requests that
  add keys to query batches and wait for their rows. Objects behind pointers are in heaps and addressed by
  their index. The requests, the time-outs and the functions that run when a context ends interleave: one
  step is one operation on a shared map, one critical section, or one stage of the execution of a batch.
  A context that ends takes the contexts derived from it with it in the same step. The connection pool and
  the database decide how \<open>Acquire\<close> and \<open>Query\<close> end; a query that succeeds reads one state of the database.
\<close>

section \<open>Errors and contexts\<close>

datatype query_err = ErrInvalidOrStaleView | ErrTooManyActiveViews | ErrViewIDCollision | ErrEmptyNamespaces | ErrEmptyKeys string
  | ErrEmptyTxIDs | ErrTooManyKeys nat nat | ErrNamespaceID policy_error | ContextCanceled | DeadlineExceeded | QueryFailed db_error

text \<open>A context that has ended has an error and a cause.\<close>

datatype go_ctx = Live | Ended query_err query_err

definition ctx_cancel :: "query_err option \<Rightarrow> go_ctx \<Rightarrow> go_ctx" where
  "ctx_cancel cause c =
     (case c of
        Live \<Rightarrow> Ended ContextCanceled (case cause of None \<Rightarrow> ContextCanceled | Some e \<Rightarrow> e)
      | Ended e k \<Rightarrow> Ended e k)"

definition ctx_timeout :: "go_ctx \<Rightarrow> go_ctx" where
  "ctx_timeout c = (if c = Live then Ended DeadlineExceeded DeadlineExceeded else c)"

definition ctx_inherit :: "go_ctx \<Rightarrow> go_ctx \<Rightarrow> go_ctx" where
  "ctx_inherit parent c = (if c = Live then parent else c)"

section \<open>Query batches\<close>

record Row =
  Row_Key :: bytes
  Row_Value :: bytes
  Row_Version :: u64

definition txStatusNsID :: string where
  "txStatusNsID = ''$tx_status$''"

datatype execute_pc = Unsubmitted | Spawned | Acquiring | Querying | Finished

text \<open>\<open>qb_read\<close> is the state of the database that the query has read.\<close>

record namespaceQueryBatch =
  qb_batcher :: nat
  qb_ctx :: go_ctx
  qb_nsID :: string
  qb_keys :: "bytes list"
  qb_minSize :: nat
  qb_pc :: execute_pc
  qb_finalized :: bool
  qb_result :: "(bytes \<rightharpoonup> Row) option"
  qb_statusResult :: "(bytes \<rightharpoonup> TxStatus) option"
  qb_read :: "database option"

definition submit :: "namespaceQueryBatch \<Rightarrow> namespaceQueryBatch" where
  "submit q = (if qb_pc q = Unsubmitted then q\<lparr>qb_pc := Spawned\<rparr> else q)"

definition addKeys :: "bytes list \<Rightarrow> namespaceQueryBatch \<Rightarrow> bool \<times> namespaceQueryBatch" where
  "addKeys keys q =
     (if qb_ctx q \<noteq> Live then (False, q)
      else if qb_finalized q then (False, q)
      else let q1 = q\<lparr>qb_keys := qb_keys q @ keys\<rparr>
           in (True, if length (qb_keys q1) \<ge> qb_minSize q1 then submit q1 else q1))"

definition uniqueKeys :: "bytes list \<Rightarrow> bytes list" where
  "uniqueKeys keys = fold (\<lambda>key unique. if key \<in> set unique then unique else unique @ [key]) keys []"

definition unsafeQueryRows :: "database \<Rightarrow> string \<Rightarrow> bytes list \<Rightarrow> db_error + Row list" where
  "unsafeQueryRows db nsID keys =
     (case db_ns db nsID of
        None \<Rightarrow> Inl (NoTable nsID)
      | Some t \<Rightarrow>
          Inr (List.map_filter
                 (\<lambda>k. map_option (\<lambda>r. \<lparr>Row_Key = k, Row_Value = row_value r, Row_Version = word_of_nat (row_version r)\<rparr>) (t k)) keys))"

definition readTxStatusRow :: "wire \<Rightarrow> database \<Rightarrow> bytes \<Rightarrow> TxStatus list \<Rightarrow> db_error + TxStatus list" where
  "readTxStatusRow w db txID rows =
     (case tx_status db txID of
        None \<Rightarrow> Inr rows
      | Some (status, height) \<Rightarrow>
          (case NewHeightFromBytes w height of
             Inl e \<Rightarrow> Inl (BadHeight e)
           | Inr (ht, _) \<Rightarrow>
               Inr (rows @ [\<lparr>st_ref = \<lparr>ref_block_num = h_block_num ht, ref_tx_id = txID, ref_tx_num = h_tx_num ht\<rparr>, st_status = status\<rparr>])))"

definition unsafeQueryTxStatus :: "wire \<Rightarrow> database \<Rightarrow> bytes list \<Rightarrow> db_error + TxStatus list" where
  "unsafeQueryTxStatus w db txIDs = loop_err (readTxStatusRow w db) txIDs []"

text \<open>\<open>execute\<close>: it checks its context, acquires a connection, finalizes the batch, and runs the query.\<close>

definition executeBegin :: "namespaceQueryBatch \<Rightarrow> namespaceQueryBatch option" where
  "executeBegin q =
     (if qb_pc q \<noteq> Spawned then None
      else Some (q\<lparr>qb_pc := (if qb_ctx q \<noteq> Live then Finished else Acquiring)\<rparr>))"

definition executeAcquired :: "db_error option \<Rightarrow> namespaceQueryBatch \<Rightarrow> namespaceQueryBatch option" where
  "executeAcquired err q =
     (if qb_pc q \<noteq> Acquiring then None
      else case err of
             Some e \<Rightarrow> Some (q\<lparr>qb_ctx := ctx_cancel (Some (QueryFailed e)) (qb_ctx q), qb_pc := Finished\<rparr>)
           | None \<Rightarrow> Some (q\<lparr>qb_finalized := True, qb_pc := Querying\<rparr>))"

definition executeFailed :: "db_error \<Rightarrow> namespaceQueryBatch \<Rightarrow> namespaceQueryBatch" where
  "executeFailed e q = q\<lparr>qb_ctx := ctx_cancel (Some (QueryFailed e)) (qb_ctx q), qb_pc := Finished\<rparr>"

definition executeQuery :: "wire \<Rightarrow> db_error + database \<Rightarrow> namespaceQueryBatch \<Rightarrow> namespaceQueryBatch option" where
  "executeQuery w outcome q =
     (if qb_pc q \<noteq> Querying then None
      else case outcome of
             Inl e \<Rightarrow> Some (executeFailed e q)
           | Inr db \<Rightarrow>
               if qb_nsID q \<noteq> txStatusNsID then
                 (case unsafeQueryRows db (qb_nsID q) (uniqueKeys (qb_keys q)) of
                    Inl e \<Rightarrow> Some (executeFailed e q)
                  | Inr rows \<Rightarrow>
                      Some (q\<lparr>qb_result := Some (fold (\<lambda>r m. m(Row_Key r \<mapsto> r)) rows Map.empty),
                              qb_read := Some db, qb_ctx := ctx_cancel None (qb_ctx q), qb_pc := Finished\<rparr>))
               else
                 (case unsafeQueryTxStatus w db (uniqueKeys (qb_keys q)) of
                    Inl e \<Rightarrow> Some (executeFailed e q)
                  | Inr rows \<Rightarrow>
                      Some (q\<lparr>qb_statusResult := Some (fold (\<lambda>r m. m(ref_tx_id (st_ref r) \<mapsto> r)) rows Map.empty),
                              qb_read := Some db, qb_ctx := ctx_cancel None (qb_ctx q), qb_pc := Finished\<rparr>)))"

text \<open>\<open>waitForRows\<close> once the context of the batch has ended; \<open>None\<close> is waiting.\<close>

definition waitForRows :: "bytes list \<Rightarrow> namespaceQueryBatch \<Rightarrow> (query_err + Row list \<times> TxStatus list) option" where
  "waitForRows keys q =
     (case qb_ctx q of
        Live \<Rightarrow> None
      | Ended err cause \<Rightarrow>
          Some (if err = DeadlineExceeded then Inl ErrInvalidOrStaleView
                else if cause \<noteq> ContextCanceled then Inl cause
                else Inr (case qb_result q of None \<Rightarrow> [] | Some m \<Rightarrow> List.map_filter m keys,
                          case qb_statusResult q of None \<Rightarrow> [] | Some m \<Rightarrow> List.map_filter m keys)))"

section \<open>Views and batchers\<close>

record ViewParameters =
  vp_isoLevel :: int
  vp_nonDeferrable :: bool
  vp_timeoutMilliseconds :: u64

record query_config =
  MinBatchKeys :: nat
  MaxAggregatedViews :: nat
  MaxActiveViews :: nat
  MaxViewTimeout :: nat
  MaxRequestKeys :: nat

definition minIsoLevel :: int where "minIsoLevel = 0"
definition maxIsoLevel :: int where "maxIsoLevel = 3"
definition deferredBit :: int where "deferredBit = 4"

definition viewParametersKey :: "ViewParameters \<Rightarrow> int" where
  "viewParametersKey p =
     (let index = max minIsoLevel (min (vp_isoLevel p) maxIsoLevel)
      in if vp_nonDeferrable p then or index deferredBit else index)"

record batcher =
  bt_ctx :: go_ctx
  bt_refCounter :: nat
  bt_latest :: "string \<rightharpoonup> nat"

text \<open>
  \<open>vh_joined\<close> is the batcher whose end cancels the view, \<open>vh_released\<close> says that the function that runs
  when the view has ended has released its slot, and \<open>vh_locked\<close> that a request holds the lock of the view.
\<close>

record viewHolder =
  vh_ctx :: go_ctx
  vh_params :: ViewParameters
  vh_batcher :: "nat option"
  vh_retired :: bool
  vh_joined :: "nat option"
  vh_released :: bool
  vh_locked :: bool

text \<open>The stages of \<open>mapUpdateOrCreate\<close>, with the value it has loaded.\<close>

datatype map_pc = MLoad | MUpdate "nat option" | MStore "nat option"

datatype call_pc = CStart | CLock nat | CAssign nat map_pc | CCheck nat | CAdd nat map_pc | CWait | CReturned "query_err option"

record call =
  c_view :: "string option"
  c_namespaces :: "(string \<times> bytes list) list"
  c_batches :: "nat list"
  c_results :: "(Row list \<times> TxStatus list) list"
  c_pc :: call_pc

text \<open>Batcher 0 is \<open>nonConsistentBatcher\<close>. \<open>qs_leaving\<close> are the batchers that retired views are about to leave.\<close>

record viewsBatcher =
  qs_config :: query_config
  qs_ctx :: go_ctx
  qs_free :: nat
  qs_ids :: "string \<rightharpoonup> nat"
  qs_listing :: "int \<rightharpoonup> nat"
  qs_views :: "viewHolder list"
  qs_batchers :: "batcher list"
  qs_queries :: "namespaceQueryBatch list"
  qs_leaving :: "nat list"
  qs_calls :: "call list"

definition newService :: "query_config \<Rightarrow> viewsBatcher" where
  "newService cfg =
     \<lparr>qs_config = cfg, qs_ctx = Live, qs_free = MaxActiveViews cfg, qs_ids = Map.empty, qs_listing = Map.empty, qs_views = [],
      qs_batchers = [\<lparr>bt_ctx = Live, bt_refCounter = 0, bt_latest = Map.empty\<rparr>], qs_queries = [], qs_leaving = [], qs_calls = []\<rparr>"

text \<open>\<open>LoadOrStore\<close> and \<open>CompareAndSwap\<close>: the map, whether the new value was stored, and the value to use next.\<close>

definition mapStore :: "'k \<Rightarrow> nat option \<Rightarrow> nat \<Rightarrow> ('k \<rightharpoonup> nat) \<Rightarrow> ('k \<rightharpoonup> nat) \<times> bool \<times> nat option" where
  "mapStore key val newVal m =
     (case val of
        None \<Rightarrow> (case m key of None \<Rightarrow> (m(key \<mapsto> newVal), True, Some newVal) | Some v \<Rightarrow> (m, False, Some v))
      | Some v \<Rightarrow> if m key = Some v then (m(key \<mapsto> newVal), True, Some newVal) else (m, False, m key))"

definition BeginView_timeout :: "query_config \<Rightarrow> ViewParameters \<Rightarrow> ViewParameters" where
  "BeginView_timeout cfg p =
     (if vp_timeoutMilliseconds p = 0 \<or> sint (vp_timeoutMilliseconds p) > int (MaxViewTimeout cfg)
      then p\<lparr>vp_timeoutMilliseconds := word_of_nat (MaxViewTimeout cfg)\<rparr> else p)"

definition makeView :: "string \<Rightarrow> ViewParameters \<Rightarrow> viewsBatcher \<Rightarrow> query_err option \<times> viewsBatcher" where
  "makeView viewID p s =
     (if MaxActiveViews (qs_config s) > 0 \<and> qs_free s = 0 then (Some ErrTooManyActiveViews, s)
      else if qs_ids s viewID \<noteq> None then (Some ErrViewIDCollision, s)
      else (None, s\<lparr>qs_free := (if MaxActiveViews (qs_config s) > 0 then qs_free s - 1 else qs_free s), qs_ids := (qs_ids s)(viewID \<mapsto> length (qs_views s)),
                    qs_views := qs_views s @ [\<lparr>vh_ctx = qs_ctx s, vh_params = p, vh_batcher = None, vh_retired = False,
                                               vh_joined = None, vh_released = False, vh_locked = False\<rparr>]\<rparr>))"

definition view_update :: "nat \<Rightarrow> (viewHolder \<Rightarrow> viewHolder) \<Rightarrow> viewsBatcher \<Rightarrow> viewsBatcher" where
  "view_update v f s = s\<lparr>qs_views := (qs_views s)[v := f (qs_views s ! v)]\<rparr>"

definition query_update :: "nat \<Rightarrow> (namespaceQueryBatch \<Rightarrow> namespaceQueryBatch) \<Rightarrow> viewsBatcher \<Rightarrow> viewsBatcher" where
  "query_update q f s = s\<lparr>qs_queries := (qs_queries s)[q := f (qs_queries s ! q)]\<rparr>"

definition batcher_update :: "nat \<Rightarrow> (batcher \<Rightarrow> batcher) \<Rightarrow> viewsBatcher \<Rightarrow> viewsBatcher" where
  "batcher_update b f s = s\<lparr>qs_batchers := (qs_batchers s)[b := f (qs_batchers s ! b)]\<rparr>"

text \<open>The function that runs when a view has ended, before and in its critical section.\<close>

definition releaseView :: "nat \<Rightarrow> viewsBatcher \<Rightarrow> viewsBatcher option" where
  "releaseView v s =
     (if v < length (qs_views s) \<and> vh_ctx (qs_views s ! v) \<noteq> Live \<and> \<not> vh_released (qs_views s ! v)
      then Some (view_update v (\<lambda>h. h\<lparr>vh_released := True\<rparr>)
                   (s\<lparr>qs_free := (if MaxActiveViews (qs_config s) > 0 then qs_free s + 1 else qs_free s),
                      qs_ids := (\<lambda>i. if qs_ids s i = Some v then None else qs_ids s i)\<rparr>))
      else None)"

definition retireView :: "nat \<Rightarrow> viewsBatcher \<Rightarrow> viewsBatcher option" where
  "retireView v s =
     (let h = qs_views s ! v
      in if v < length (qs_views s) \<and> vh_released h \<and> \<not> vh_retired h \<and> \<not> vh_locked h
         then Some (view_update v (\<lambda>h. h\<lparr>vh_batcher := None, vh_retired := True\<rparr>)
                      (s\<lparr>qs_leaving := (case vh_batcher h of None \<Rightarrow> qs_leaving s | Some b \<Rightarrow> b # qs_leaving s)\<rparr>))
         else None)"

definition removeViewID :: "string \<Rightarrow> viewsBatcher \<Rightarrow> query_err option \<times> viewsBatcher" where
  "removeViewID viewID s =
     (case qs_ids s viewID of
        None \<Rightarrow> (Some ErrInvalidOrStaleView, s)
      | Some v \<Rightarrow> (None, view_update v (\<lambda>h. h\<lparr>vh_ctx := ctx_cancel None (vh_ctx h)\<rparr>) (s\<lparr>qs_ids := (qs_ids s)(viewID := None)\<rparr>)))"

definition batcher_isStale :: "batcher \<Rightarrow> bool" where
  "batcher_isStale b \<longleftrightarrow> bt_ctx b \<noteq> Live"

definition join :: "nat \<Rightarrow> nat \<Rightarrow> viewsBatcher \<Rightarrow> bool \<times> viewsBatcher" where
  "join b v s =
     (let bt = qs_batchers s ! b
      in if batcher_isStale bt \<or> bt_refCounter bt \<ge> MaxAggregatedViews (qs_config s) then (False, s)
         else (True, view_update v (\<lambda>h. h\<lparr>vh_batcher := Some b, vh_joined := Some b\<rparr>)
                       (batcher_update b (\<lambda>x. x\<lparr>bt_refCounter := bt_refCounter x + 1\<rparr>) s)))"

text \<open>The end of the context of a batcher is the end of the contexts of its query batches.\<close>

definition batcher_cancel :: "nat \<Rightarrow> viewsBatcher \<Rightarrow> viewsBatcher" where
  "batcher_cancel b s =
     (let c = ctx_cancel None (bt_ctx (qs_batchers s ! b))
      in batcher_update b (\<lambda>x. x\<lparr>bt_ctx := c\<rparr>)
           (s\<lparr>qs_queries := map (\<lambda>q. if qb_batcher q = b then q\<lparr>qb_ctx := ctx_inherit c (qb_ctx q)\<rparr> else q) (qs_queries s)\<rparr>))"

definition batcher_leave :: "nat \<Rightarrow> viewsBatcher \<Rightarrow> viewsBatcher" where
  "batcher_leave b s =
     (let s1 = batcher_update b (\<lambda>x. x\<lparr>bt_refCounter := bt_refCounter x - 1\<rparr>) s
      in if bt_refCounter (qs_batchers s1 ! b) = 0 then batcher_cancel b s1 else s1)"

definition serviceDone :: "viewsBatcher \<Rightarrow> viewsBatcher" where
  "serviceDone s =
     (let c = ctx_cancel None (qs_ctx s)
      in s\<lparr>qs_ctx := c, qs_views := map (\<lambda>h. h\<lparr>vh_ctx := ctx_inherit c (vh_ctx h)\<rparr>) (qs_views s),
           qs_batchers := map (\<lambda>b. b\<lparr>bt_ctx := ctx_inherit c (bt_ctx b)\<rparr>) (qs_batchers s),
           qs_queries := map (\<lambda>q. q\<lparr>qb_ctx := ctx_inherit c (qb_ctx q)\<rparr>) (qs_queries s)\<rparr>)"

section \<open>Requests\<close>

definition validateKeysCount :: "query_config \<Rightarrow> nat \<Rightarrow> query_err option" where
  "validateKeysCount cfg count =
     (if MaxRequestKeys cfg > 0 \<and> count > MaxRequestKeys cfg then Some (ErrTooManyKeys count (MaxRequestKeys cfg)) else None)"

fun checkNamespaces :: "(string \<times> bytes list) list \<Rightarrow> query_err option" where
  "checkNamespaces [] = None"
| "checkNamespaces ((nsID, keys) # nss) =
     (case ValidateNamespaceID nsID of
        Some e \<Rightarrow> Some (ErrNamespaceID e)
      | None \<Rightarrow> if length keys = 0 then Some (ErrEmptyKeys nsID) else checkNamespaces nss)"

definition newCall :: "string option \<Rightarrow> (string \<times> bytes list) list \<Rightarrow> query_err option \<Rightarrow> viewsBatcher \<Rightarrow> viewsBatcher" where
  "newCall view nss err s =
     s\<lparr>qs_calls := qs_calls s @ [\<lparr>c_view = view, c_namespaces = nss, c_batches = [], c_results = [],
                                  c_pc = (case err of None \<Rightarrow> CStart | Some e \<Rightarrow> CReturned (Some e))\<rparr>]\<rparr>"

definition GetRows :: "string option \<Rightarrow> (string \<times> bytes list) list \<Rightarrow> viewsBatcher \<Rightarrow> viewsBatcher" where
  "GetRows view nss s =
     newCall view nss
       (if length nss = 0 then Some ErrEmptyNamespaces
        else case checkNamespaces nss of
               Some e \<Rightarrow> Some e
             | None \<Rightarrow> validateKeysCount (qs_config s) (sum_list (map (\<lambda>(nsID, keys). length keys) nss))) s"

definition GetTransactionStatus :: "string option \<Rightarrow> bytes list \<Rightarrow> viewsBatcher \<Rightarrow> viewsBatcher" where
  "GetTransactionStatus view txIDs s =
     newCall view [(txStatusNsID, txIDs)]
       (if length txIDs = 0 then Some ErrEmptyTxIDs else validateKeysCount (qs_config s) (length txIDs)) s"

definition call_update :: "nat \<Rightarrow> (call \<Rightarrow> call) \<Rightarrow> viewsBatcher \<Rightarrow> viewsBatcher" where
  "call_update i f s = s\<lparr>qs_calls := (qs_calls s)[i := f (qs_calls s ! i)]\<rparr>"

definition goto :: "nat \<Rightarrow> call_pc \<Rightarrow> viewsBatcher \<Rightarrow> viewsBatcher" where
  "goto i pc = call_update i (\<lambda>c. c\<lparr>c_pc := pc\<rparr>)"

definition unlock :: "nat \<Rightarrow> viewsBatcher \<Rightarrow> viewsBatcher" where
  "unlock v = view_update v (\<lambda>h. h\<lparr>vh_locked := False\<rparr>)"

text \<open>\<open>getBatcher\<close>: the look-up of the view, and its critical section.\<close>

definition getBatcher_load :: "nat \<Rightarrow> viewsBatcher \<Rightarrow> viewsBatcher" where
  "getBatcher_load i s =
     (case c_view (qs_calls s ! i) of
        None \<Rightarrow> goto i (CAdd 0 MLoad) s
      | Some viewID \<Rightarrow>
          (case qs_ids s viewID of
             None \<Rightarrow> goto i (CReturned (Some ErrInvalidOrStaleView)) s
           | Some v \<Rightarrow> goto i (CLock v) s))"

definition getBatcher_lock :: "nat \<Rightarrow> nat \<Rightarrow> viewsBatcher \<Rightarrow> viewsBatcher option" where
  "getBatcher_lock i v s =
     (let h = qs_views s ! v
      in if vh_locked h then None
         else if vh_retired h then Some (goto i (CReturned (Some ErrInvalidOrStaleView)) s)
         else Some (goto i (if vh_batcher h = None then CAssign v MLoad else CCheck v)
                      (view_update v (\<lambda>h. h\<lparr>vh_locked := True\<rparr>) s)))"

definition updateOrCreateBatcher :: "nat \<Rightarrow> nat \<Rightarrow> map_pc \<Rightarrow> viewsBatcher \<Rightarrow> viewsBatcher" where
  "updateOrCreateBatcher i v pc s =
     (let key = viewParametersKey (vh_params (qs_views s ! v))
      in case pc of
           MLoad \<Rightarrow> goto i (CAssign v (MUpdate (qs_listing s key))) s
         | MUpdate None \<Rightarrow> goto i (CAssign v (MStore None)) s
         | MUpdate (Some b) \<Rightarrow>
             (case join b v s of
                (True, s') \<Rightarrow> goto i (CCheck v) s'
              | (False, s') \<Rightarrow> goto i (CAssign v (MStore (Some b))) s')
         | MStore val \<Rightarrow>
             (case mapStore key val (length (qs_batchers s)) (qs_listing s) of
                (listing, assigned, val') \<Rightarrow>
                  goto i (CAssign v (MUpdate val'))
                    (if assigned
                     then s\<lparr>qs_listing := listing,
                            qs_batchers := qs_batchers s @ [\<lparr>bt_ctx = qs_ctx s, bt_refCounter = 0, bt_latest = Map.empty\<rparr>]\<rparr>
                     else s)))"

definition getBatcher_check :: "nat \<Rightarrow> nat \<Rightarrow> viewsBatcher \<Rightarrow> viewsBatcher" where
  "getBatcher_check i v s =
     (case vh_batcher (qs_views s ! v) of
        None \<Rightarrow> s
      | Some b \<Rightarrow>
          unlock v (if batcher_isStale (qs_batchers s ! b) then goto i (CReturned (Some ErrInvalidOrStaleView)) s
                    else goto i (CAdd b MLoad) s))"

text \<open>\<open>assignRequest\<close>: \<open>batcher_addNamespaceKeys\<close> for each namespace of the request.\<close>

definition batcher_addNamespaceKeys :: "nat \<Rightarrow> nat \<Rightarrow> map_pc \<Rightarrow> viewsBatcher \<Rightarrow> viewsBatcher" where
  "batcher_addNamespaceKeys i b pc s =
     (let c = qs_calls s ! i; (nsID, keys) = c_namespaces c ! length (c_batches c)
      in case pc of
           MLoad \<Rightarrow> goto i (CAdd b (MUpdate (bt_latest (qs_batchers s ! b) nsID))) s
         | MUpdate None \<Rightarrow> goto i (CAdd b (MStore None)) s
         | MUpdate (Some q) \<Rightarrow>
             (case addKeys keys (qs_queries s ! q) of
                (True, q') \<Rightarrow>
                  call_update i (\<lambda>c. c\<lparr>c_batches := c_batches c @ [q],
                                       c_pc := (if Suc (length (c_batches c)) = length (c_namespaces c) then CWait else CAdd b MLoad)\<rparr>)
                    (query_update q (\<lambda>x. q') s)
              | (False, q') \<Rightarrow> goto i (CAdd b (MStore (Some q))) s)
         | MStore val \<Rightarrow>
             (case mapStore nsID val (length (qs_queries s)) (bt_latest (qs_batchers s ! b)) of
                (latest, assigned, val') \<Rightarrow>
                  goto i (CAdd b (MUpdate val'))
                    (if assigned
                     then batcher_update b (\<lambda>x. x\<lparr>bt_latest := latest\<rparr>)
                            (s\<lparr>qs_queries := qs_queries s @
                                 [\<lparr>qb_batcher = b, qb_ctx = bt_ctx (qs_batchers s ! b), qb_nsID = nsID, qb_keys = [],
                                   qb_minSize = MinBatchKeys (qs_config s), qb_pc = Unsubmitted, qb_finalized = False,
                                   qb_result = None, qb_statusResult = None, qb_read = None\<rparr>]\<rparr>)
                     else s)))"

definition collectRows :: "nat \<Rightarrow> viewsBatcher \<Rightarrow> viewsBatcher option" where
  "collectRows i s =
     (let c = qs_calls s ! i; j = length (c_results c)
      in case waitForRows (snd (c_namespaces c ! j)) (qs_queries s ! (c_batches c ! j)) of
           None \<Rightarrow> None
         | Some (Inl e) \<Rightarrow> Some (goto i (CReturned (Some e)) s)
         | Some (Inr res) \<Rightarrow>
             Some (call_update i (\<lambda>c. c\<lparr>c_results := c_results c @ [res],
                                        c_pc := (if Suc j = length (c_namespaces c) then CReturned None else CWait)\<rparr>) s))"

text \<open>One step of a request, and what its own context does to it when it ends.\<close>

definition callStep :: "nat \<Rightarrow> viewsBatcher \<Rightarrow> viewsBatcher option" where
  "callStep i s =
     (case c_pc (qs_calls s ! i) of
        CStart \<Rightarrow> Some (getBatcher_load i s)
      | CLock v \<Rightarrow> getBatcher_lock i v s
      | CAssign v pc \<Rightarrow> Some (updateOrCreateBatcher i v pc s)
      | CCheck v \<Rightarrow> Some (getBatcher_check i v s)
      | CAdd b pc \<Rightarrow> Some (batcher_addNamespaceKeys i b pc s)
      | CWait \<Rightarrow> collectRows i s
      | CReturned r \<Rightarrow> None)"

definition callDone :: "nat \<Rightarrow> query_err \<Rightarrow> viewsBatcher \<Rightarrow> viewsBatcher option" where
  "callDone i e s =
     (case c_pc (qs_calls s ! i) of
        CAssign v (MUpdate val) \<Rightarrow> Some (unlock v (goto i (CReturned (Some e)) s))
      | CAdd b (MUpdate val) \<Rightarrow> Some (goto i (CReturned (Some e)) s)
      | CWait \<Rightarrow> Some (goto i (CReturned (Some e)) s)
      | _ \<Rightarrow> None)"

section \<open>Steps\<close>

datatype query_move =
    BeginView string ViewParameters
  | EndView string
  | ViewTimeout nat
  | CancelJoined nat
  | ReleaseView nat
  | RetireView nat
  | Leave nat
  | Unlist int nat
  | SubmitTimer nat
  | ExecuteBegin nat
  | ExecuteAcquired nat "db_error option"
  | ExecuteQuery nat "db_error + database"
  | CallGetRows "string option" "(string \<times> bytes list) list"
  | CallGetTransactionStatus "string option" "bytes list"
  | CallStep nat
  | CallDone nat query_err
  | ServiceDone

definition on_query :: "nat \<Rightarrow> (namespaceQueryBatch \<Rightarrow> namespaceQueryBatch option) \<Rightarrow> viewsBatcher \<Rightarrow> viewsBatcher option" where
  "on_query q f s =
     (if q < length (qs_queries s) then map_option (\<lambda>x. query_update q (\<lambda>_. x) s) (f (qs_queries s ! q)) else None)"

fun query_do :: "wire \<Rightarrow> query_move \<Rightarrow> viewsBatcher \<Rightarrow> viewsBatcher option" where
  "query_do w (BeginView viewID p) s = Some (snd (makeView viewID (BeginView_timeout (qs_config s) p) s))"
| "query_do w (EndView viewID) s = Some (snd (removeViewID viewID s))"
| "query_do w (ViewTimeout v) s =
     (if v < length (qs_views s) then Some (view_update v (\<lambda>h. h\<lparr>vh_ctx := ctx_timeout (vh_ctx h)\<rparr>) s) else None)"
| "query_do w (CancelJoined v) s =
     (if v < length (qs_views s) \<and> (case vh_joined (qs_views s ! v) of None \<Rightarrow> False | Some b \<Rightarrow> bt_ctx (qs_batchers s ! b) \<noteq> Live)
      then Some (view_update v (\<lambda>h. h\<lparr>vh_ctx := ctx_cancel None (vh_ctx h)\<rparr>) s) else None)"
| "query_do w (ReleaseView v) s = releaseView v s"
| "query_do w (RetireView v) s = retireView v s"
| "query_do w (Leave b) s =
     (if b \<in> set (qs_leaving s) then Some (batcher_leave b (s\<lparr>qs_leaving := remove1 b (qs_leaving s)\<rparr>)) else None)"
| "query_do w (Unlist key b) s = Some (s\<lparr>qs_listing := (if qs_listing s key = Some b then (qs_listing s)(key := None) else qs_listing s)\<rparr>)"
| "query_do w (SubmitTimer q) s = on_query q (\<lambda>x. Some (submit x)) s"
| "query_do w (ExecuteBegin q) s = on_query q executeBegin s"
| "query_do w (ExecuteAcquired q e) s = on_query q (executeAcquired e) s"
| "query_do w (ExecuteQuery q outcome) s = on_query q (executeQuery w outcome) s"
| "query_do w (CallGetRows view nss) s = Some (GetRows view nss s)"
| "query_do w (CallGetTransactionStatus view txIDs) s = Some (GetTransactionStatus view txIDs s)"
| "query_do w (CallStep i) s = (if i < length (qs_calls s) then callStep i s else None)"
| "query_do w (CallDone i e) s = (if i < length (qs_calls s) \<and> (e = ContextCanceled \<or> e = DeadlineExceeded) then callDone i e s else None)"
| "query_do w ServiceDone s = Some (serviceDone s)"

inductive query_reachable :: "wire \<Rightarrow> viewsBatcher \<Rightarrow> bool" where
  start: "query_reachable w (newService cfg)"
| step: "query_reachable w s \<Longrightarrow> query_do w mv s = Some s' \<Longrightarrow> query_reachable w s'"

end
