(* ===== verification/Query_Views.thy ===== *)
theory Query_Views
  imports Query_Service "HOL-Library.Multiset"
begin

text \<open>
  Views of the query service: slots, reference counts and locks in every reachable state, and that a
  batcher that no view uses any more has ended.
\<close>

section \<open>Counting\<close>

definition count_if :: "('a \<Rightarrow> bool) \<Rightarrow> 'a list \<Rightarrow> nat" where
  "count_if P xs = length (filter P xs)"

lemma count_if_update:
  "i < length xs \<Longrightarrow> count_if P (xs[i := y]) + (if P (xs ! i) then 1 else 0) = count_if P xs + (if P y then 1 else 0)"
proof (induction xs arbitrary: i)
  case (Cons x xs)
  then show ?case
  proof (cases i)
    case (Suc j)
    then show ?thesis using Cons.IH [of j] Cons.prems by (simp add: count_if_def)
  qed (simp add: count_if_def)
qed simp

lemma count_if_append [simp]: "count_if P (xs @ ys) = count_if P xs + count_if P ys"
  by (simp add: count_if_def)

lemma count_if_Nil [simp]: "count_if P [] = 0"
  by (simp add: count_if_def)

lemma count_if_Cons [simp]: "count_if P (x # xs) = (if P x then 1 else 0) + count_if P xs"
  by (simp add: count_if_def)

lemma count_if_map [simp]: "count_if P (map f xs) = count_if (P \<circ> f) xs"
  by (simp add: count_if_def filter_map)

lemma count_if_pos: "i < length xs \<Longrightarrow> P (xs ! i) \<Longrightarrow> 0 < count_if P xs"
  unfolding count_if_def by (metis filter_empty_conv length_greater_0_conv nth_mem)

lemma count_if_two: "i < length xs \<Longrightarrow> j < length xs \<Longrightarrow> i \<noteq> j \<Longrightarrow> P (xs ! i) \<Longrightarrow> P (xs ! j) \<Longrightarrow> 2 \<le> count_if P xs"
proof -
  assume a: "i < length xs" "j < length xs" "i \<noteq> j" "P (xs ! i)" "P (xs ! j)"
  then have "{i, j} \<subseteq> {k. k < length xs \<and> P (xs ! k)}" by auto
  then have "card {i, j} \<le> card {k. k < length xs \<and> P (xs ! k)}" by (rule card_mono [rotated]) simp
  then show ?thesis using a(3) by (simp add: count_if_def length_filter_conv_card)
qed

lemma count_remove1: "count_list (remove1 a xs) b = (if a = b then count_list xs b - 1 else count_list xs b)"
  by (induction xs) auto

section \<open>Reference counts\<close>

definition holds_batcher :: "nat \<Rightarrow> viewHolder \<Rightarrow> bool" where
  "holds_batcher b h \<longleftrightarrow> vh_batcher h = Some b"

definition joined :: "viewHolder list \<Rightarrow> nat \<Rightarrow> bool" where
  "joined vs b \<longleftrightarrow> (\<exists>v < length vs. vh_joined (vs ! v) = Some b)"

definition refs_ok :: "nat \<Rightarrow> viewHolder list \<Rightarrow> batcher list \<Rightarrow> nat list \<Rightarrow> bool" where
  "refs_ok maxViews vs bs leaving \<longleftrightarrow>
     (\<forall>v < length vs. vh_batcher (vs ! v) = (if vh_retired (vs ! v) then None else vh_joined (vs ! v))) \<and>
     (\<forall>b. joined vs b \<longrightarrow> 0 < b \<and> b < length bs) \<and>
     (\<forall>b < length bs. bt_refCounter (bs ! b) = count_if (holds_batcher b) vs + count_list leaving b) \<and>
     (\<forall>b \<in> set leaving. joined vs b) \<and>
     (\<forall>b < length bs. bt_refCounter (bs ! b) \<le> maxViews) \<and>
     (\<forall>b. joined vs b \<longrightarrow> bt_refCounter (bs ! b) = 0 \<longrightarrow> bt_ctx (bs ! b) \<noteq> Live)"

lemma refs_okD:
  assumes "refs_ok n vs bs L"
  shows "v < length vs \<Longrightarrow> vh_batcher (vs ! v) = (if vh_retired (vs ! v) then None else vh_joined (vs ! v))"
    "joined vs b \<Longrightarrow> 0 < b \<and> b < length bs"
    "b < length bs \<Longrightarrow> bt_refCounter (bs ! b) = count_if (holds_batcher b) vs + count_list L b"
    "b \<in> set L \<Longrightarrow> joined vs b"
    "b < length bs \<Longrightarrow> bt_refCounter (bs ! b) \<le> n"
    "joined vs b \<Longrightarrow> bt_refCounter (bs ! b) = 0 \<Longrightarrow> bt_ctx (bs ! b) \<noteq> Live"
  using assms unfolding refs_ok_def by blast+

lemma refs_okI:
  assumes "\<And>v. v < length vs \<Longrightarrow> vh_batcher (vs ! v) = (if vh_retired (vs ! v) then None else vh_joined (vs ! v))"
    "\<And>b. joined vs b \<Longrightarrow> 0 < b \<and> b < length bs"
    "\<And>b. b < length bs \<Longrightarrow> bt_refCounter (bs ! b) = count_if (holds_batcher b) vs + count_list L b"
    "\<And>b. b \<in> set L \<Longrightarrow> joined vs b"
    "\<And>b. b < length bs \<Longrightarrow> bt_refCounter (bs ! b) \<le> n"
    "\<And>b. joined vs b \<Longrightarrow> bt_refCounter (bs ! b) = 0 \<Longrightarrow> bt_ctx (bs ! b) \<noteq> Live"
  shows "refs_ok n vs bs L"
  unfolding refs_ok_def using assms by blast

lemma joined_update: "v < length vs \<Longrightarrow> vh_joined h = vh_joined (vs ! v) \<Longrightarrow> joined (vs[v := h]) b = joined vs b"
  unfolding joined_def by (metis length_list_update nth_list_update_eq nth_list_update_neq)

lemma joined_append: "vh_joined h = None \<Longrightarrow> joined (vs @ [h]) b = joined vs b"
  by (auto simp: joined_def nth_append less_Suc_eq)

text \<open>Changes of a view that keep its batcher.\<close>

lemma refs_view_keep:
  assumes "refs_ok n vs bs L" "v < length vs" "vh_batcher h = vh_batcher (vs ! v)" "vh_joined h = vh_joined (vs ! v)" "vh_retired h = vh_retired (vs ! v)"
  shows "refs_ok n (vs[v := h]) bs L"
proof (rule refs_okI)
  note r = refs_okD [OF assms(1)] and j = joined_update [OF assms(2,4)]
  show "vh_batcher (vs[v := h] ! x) = (if vh_retired (vs[v := h] ! x) then None else vh_joined (vs[v := h] ! x))"
    if "x < length (vs[v := h])" for x
    using r(1) [of x] that assms by (cases "x = v") simp_all
  have "count_if (holds_batcher b) (vs[v := h]) = count_if (holds_batcher b) vs" for b
    using count_if_update [OF assms(2), of "holds_batcher b" h] assms(3) by (simp add: holds_batcher_def split: if_splits)
  then show "bt_refCounter (bs ! b) = count_if (holds_batcher b) (vs[v := h]) + count_list L b" if "b < length bs" for b
    using r(3) that by simp
qed (use refs_okD(2-) [OF assms(1)] joined_update [OF assms(2,4)] in auto)

lemma refs_append_view:
  assumes "refs_ok n vs bs L" "vh_batcher h = None" "vh_joined h = None"
  shows "refs_ok n (vs @ [h]) bs L"
proof (rule refs_okI)
  note r = refs_okD [OF assms(1)]
  show "vh_batcher ((vs @ [h]) ! x) = (if vh_retired ((vs @ [h]) ! x) then None else vh_joined ((vs @ [h]) ! x))"
    if "x < length (vs @ [h])" for x
    using r(1) [of x] that assms(2,3) by (auto simp: nth_append less_Suc_eq)
  show "bt_refCounter (bs ! b) = count_if (holds_batcher b) (vs @ [h]) + count_list L b" if "b < length bs" for b
    using r(3) that assms(2) by (simp add: holds_batcher_def)
qed (use refs_okD(2-) [OF assms(1)] joined_append [OF assms(3)] in auto)

lemma refs_retire:
  assumes "refs_ok n vs bs L" "v < length vs"
  shows "refs_ok n (vs[v := (vs ! v)\<lparr>vh_batcher := None, vh_retired := True\<rparr>]) bs
    (case vh_batcher (vs ! v) of None \<Rightarrow> L | Some b \<Rightarrow> b # L)"
    (is "refs_ok n ?vs bs ?L")
proof (rule refs_okI)
  note r = refs_okD [OF assms(1)]
  have j: "joined ?vs b = joined vs b" for b by (rule joined_update [OF assms(2)]) simp
  show "vh_batcher (?vs ! x) = (if vh_retired (?vs ! x) then None else vh_joined (?vs ! x))" if "x < length ?vs" for x
    using r(1) [of x] that assms(2) by (cases "x = v") simp_all
  show "bt_refCounter (bs ! b) = count_if (holds_batcher b) ?vs + count_list ?L b" if "b < length bs" for b
    using r(3) [OF that] count_if_update [OF assms(2), of "holds_batcher b" "(vs ! v)\<lparr>vh_batcher := None, vh_retired := True\<rparr>"]
    by (auto simp: holds_batcher_def split: option.splits if_splits)
  show "joined ?vs b" if "b \<in> set ?L" for b
    using that r(4) r(1) [OF assms(2)] assms(2) unfolding j by (auto simp: joined_def split: option.splits if_splits)
  show "0 < b \<and> b < length bs" if "joined ?vs b" for b using that r(2) by (simp add: j)
  show "bt_refCounter (bs ! b) \<le> n" if "b < length bs" for b using that r(5) by simp
  show "bt_ctx (bs ! b) \<noteq> Live" if "joined ?vs b" "bt_refCounter (bs ! b) = 0" for b using that r(6) by (simp add: j)
qed

lemma refs_join:
  assumes "refs_ok n vs bs L" "v < length vs" "0 < b" "b < length bs" "vh_batcher (vs ! v) = None" "\<not> vh_retired (vs ! v)"
    and "bt_refCounter (bs ! b) < n"
  shows "refs_ok n (vs[v := (vs ! v)\<lparr>vh_batcher := Some b, vh_joined := Some b\<rparr>])
    (bs[b := (bs ! b)\<lparr>bt_refCounter := bt_refCounter (bs ! b) + 1\<rparr>]) L"
    (is "refs_ok n ?vs ?bs L")
proof (rule refs_okI)
  note r = refs_okD [OF assms(1)]
  have n: "vh_joined (vs ! v) = None" using r(1) [OF assms(2)] assms(5,6) by simp
  have j: "joined ?vs x \<longleftrightarrow> x = b \<or> joined vs x" for x
  proof -
    have "vh_joined (?vs ! y) = (if y = v then Some b else vh_joined (vs ! y))" for y using assms(2) by (cases "y = v") simp_all
    then show ?thesis using assms(2) n unfolding joined_def by (metis length_list_update option.distinct(1) option.inject)
  qed
  show "vh_batcher (?vs ! x) = (if vh_retired (?vs ! x) then None else vh_joined (?vs ! x))" if "x < length ?vs" for x
    using r(1) [of x] that assms(2,6) by (cases "x = v") simp_all
  show "bt_refCounter (?bs ! x) = count_if (holds_batcher x) ?vs + count_list L x" if "x < length ?bs" for x
    using r(3) [of x] that assms(4,5) count_if_update [OF assms(2), of "holds_batcher x" "(vs ! v)\<lparr>vh_batcher := Some b, vh_joined := Some b\<rparr>"]
    by (cases "x = b") (auto simp: holds_batcher_def)
  show "joined ?vs x" if "x \<in> set L" for x using that r(4) by (simp add: j)
  show "0 < x \<and> x < length ?bs" if "joined ?vs x" for x using that r(2) assms(3,4) by (auto simp: j)
  show "bt_refCounter (?bs ! x) \<le> n" if "x < length ?bs" for x using that r(5) [of x] assms(7) by (cases "x = b") simp_all
  show "bt_ctx (?bs ! x) \<noteq> Live" if "joined ?vs x" "bt_refCounter (?bs ! x) = 0" for x
    using that r(6) [of x] assms(4) by (cases "x = b") (simp_all add: j)
qed

lemma refs_leave:
  assumes "refs_ok n vs bs L" "b \<in> set L" "bt_refCounter x = bt_refCounter (bs ! b) - 1"
    and "bt_ctx x = (if bt_refCounter x = 0 then ctx_cancel None (bt_ctx (bs ! b)) else bt_ctx (bs ! b))"
  shows "refs_ok n vs (bs[b := x]) (remove1 b L)"
proof (rule refs_okI)
  note r = refs_okD [OF assms(1)]
  have b: "b < length bs" using r(2,4) assms(2) by blast
  have c: "0 < count_list L b" using assms(2) by (metis count_list_0_iff gr0I)
  show "vh_batcher (vs ! v) = (if vh_retired (vs ! v) then None else vh_joined (vs ! v))" if "v < length vs" for v using r(1) that by blast
  show "0 < y \<and> y < length (bs[b := x])" if "joined vs y" for y using r(2) that by simp
  show "bt_refCounter (bs[b := x] ! y) = count_if (holds_batcher y) vs + count_list (remove1 b L) y" if "y < length (bs[b := x])" for y
    using r(3) [of y] that b c assms(3) by (cases "y = b") (simp_all add: count_remove1)
  show "joined vs y" if "y \<in> set (remove1 b L)" for y using r(4) that by (meson notin_set_remove1)
  show "bt_refCounter (bs[b := x] ! y) \<le> n" if "y < length (bs[b := x])" for y using r(5) [of y] that assms(3) by (cases "y = b") simp_all
  show "bt_ctx (bs[b := x] ! y) \<noteq> Live" if "joined vs y" "bt_refCounter (bs[b := x] ! y) = 0" for y
    using r(6) [of y] that b assms(3,4) by (cases "y = b") (simp_all add: ctx_cancel_def split: go_ctx.splits)
qed

text \<open>Changes of the batchers that keep the counters and only end contexts.\<close>

lemma refs_batchers:
  assumes "refs_ok n vs bs L" "length bs \<le> length bs'"
    and "\<And>b. b < length bs \<Longrightarrow> bt_refCounter (bs' ! b) = bt_refCounter (bs ! b) \<and> (bt_ctx (bs ! b) \<noteq> Live \<longrightarrow> bt_ctx (bs' ! b) \<noteq> Live)"
    and "\<And>b. length bs \<le> b \<Longrightarrow> b < length bs' \<Longrightarrow> bt_refCounter (bs' ! b) = 0"
  shows "refs_ok n vs bs' L"
proof (rule refs_okI)
  note r = refs_okD [OF assms(1)]
  have j: "joined vs b \<Longrightarrow> 0 < b \<and> b < length bs" for b by (rule r(2))
  have new: "count_if (holds_batcher b) vs = 0" "count_list L b = 0" if "length bs \<le> b" for b
  proof -
    have "\<not> holds_batcher b (vs ! v)" if "v < length vs" for v
      using r(1) [OF that] j [of b] \<open>length bs \<le> b\<close> that by (auto simp: holds_batcher_def joined_def split: if_splits)
    then show "count_if (holds_batcher b) vs = 0" by (simp add: count_if_def filter_empty_conv all_set_conv_all_nth)
    have "b \<notin> set L" using r(4) j that by (meson not_le)
    then show "count_list L b = 0" by simp
  qed
  show "vh_batcher (vs ! v) = (if vh_retired (vs ! v) then None else vh_joined (vs ! v))" if "v < length vs" for v using r(1) that by blast
  show "0 < b \<and> b < length bs'" if "joined vs b" for b using j [OF that] assms(2) by simp
  show "bt_refCounter (bs' ! b) = count_if (holds_batcher b) vs + count_list L b" if "b < length bs'" for b
    using r(3) [of b] assms(3,4) new that by (cases "b < length bs") simp_all
  show "joined vs b" if "b \<in> set L" for b using r(4) that by blast
  show "bt_refCounter (bs' ! b) \<le> n" if "b < length bs'" for b
    using r(5) [of b] assms(3,4) that by (cases "b < length bs") simp_all
  show "bt_ctx (bs' ! b) \<noteq> Live" if "joined vs b" "bt_refCounter (bs' ! b) = 0" for b
    using r(6) [OF that(1)] assms(3) [of b] j [OF that(1)] that(2) by simp
qed

lemma refs_map_views:
  assumes "refs_ok n vs bs L" "\<And>h. vh_batcher (f h) = vh_batcher h" "\<And>h. vh_joined (f h) = vh_joined h" "\<And>h. vh_retired (f h) = vh_retired h"
  shows "refs_ok n (map f vs) bs L"
proof -
  have j: "joined (map f vs) b = joined vs b" for b using assms(3) by (auto simp: joined_def)
  have c: "count_if (holds_batcher b) (map f vs) = count_if (holds_batcher b) vs" for b by (simp add: comp_def holds_batcher_def [abs_def] assms(2))
  show ?thesis
    using assms(1) unfolding refs_ok_def j c length_map by (simp add: assms(2-4) cong: conj_cong del: count_if_map)
qed

section \<open>Locks\<close>

fun lock_of :: "call_pc \<Rightarrow> nat option" where
  "lock_of (CAssign v pc) = Some v"
| "lock_of (CCheck v) = Some v"
| "lock_of _ = None"

definition has_lock :: "nat \<Rightarrow> call \<Rightarrow> bool" where
  "has_lock v c \<longleftrightarrow> lock_of (c_pc c) = Some v"

fun val_of :: "map_pc \<Rightarrow> nat option" where
  "val_of MLoad = None"
| "val_of (MUpdate val) = val"
| "val_of (MStore val) = val"

text \<open>Where a request is, it has a view or a batcher that exists, and its view is as it left it.\<close>

fun pc_ok :: "viewHolder list \<Rightarrow> nat \<Rightarrow> call_pc \<Rightarrow> bool" where
  "pc_ok vs n (CLock v) = (v < length vs)"
| "pc_ok vs n (CAssign v pc) = (v < length vs \<and> vh_batcher (vs ! v) = None \<and> \<not> vh_retired (vs ! v) \<and> (\<forall>b. val_of pc = Some b \<longrightarrow> 0 < b \<and> b < n))"
| "pc_ok vs n (CCheck v) = (v < length vs \<and> vh_batcher (vs ! v) \<noteq> None)"
| "pc_ok vs n (CAdd b pc) = (b < n \<and> (b = 0 \<or> joined vs b))"
| "pc_ok vs n _ = True"

definition locks_ok :: "viewHolder list \<Rightarrow> call list \<Rightarrow> bool" where
  "locks_ok vs cs \<longleftrightarrow> (\<forall>v < length vs. count_if (has_lock v) cs = (if vh_locked (vs ! v) then 1 else 0))"

definition pcs_ok :: "viewHolder list \<Rightarrow> nat \<Rightarrow> call list \<Rightarrow> bool" where
  "pcs_ok vs n cs \<longleftrightarrow> (\<forall>i < length cs. pc_ok vs n (c_pc (cs ! i)))"

definition free_ok :: "viewsBatcher \<Rightarrow> bool" where
  "free_ok s \<longleftrightarrow> (0 < MaxActiveViews (qs_config s) \<longrightarrow>
     qs_free s + count_if (\<lambda>h. \<not> vh_released h) (qs_views s) = MaxActiveViews (qs_config s))"

definition queries_ok :: "viewHolder list \<Rightarrow> batcher list \<Rightarrow> namespaceQueryBatch list \<Rightarrow> bool" where
  "queries_ok vs bs qs \<longleftrightarrow>
     (\<forall>q < length qs. qb_batcher (qs ! q) < length bs \<and> (qb_batcher (qs ! q) = 0 \<or> joined vs (qb_batcher (qs ! q))) \<and>
        (bt_ctx (bs ! qb_batcher (qs ! q)) \<noteq> Live \<longrightarrow> qb_ctx (qs ! q) \<noteq> Live))"

definition views_inv :: "viewsBatcher \<Rightarrow> bool" where
  "views_inv s \<longleftrightarrow>
     refs_ok (MaxAggregatedViews (qs_config s)) (qs_views s) (qs_batchers s) (qs_leaving s) \<and>
     locks_ok (qs_views s) (qs_calls s) \<and> pcs_ok (qs_views s) (length (qs_batchers s)) (qs_calls s) \<and>
     free_ok s \<and> queries_ok (qs_views s) (qs_batchers s) (qs_queries s) \<and>
     (\<forall>i v. qs_ids s i = Some v \<longrightarrow> v < length (qs_views s)) \<and>
     (\<forall>k b. qs_listing s k = Some b \<longrightarrow> 0 < b \<and> b < length (qs_batchers s)) \<and> 0 < length (qs_batchers s)"

lemma views_invD:
  assumes "views_inv s"
  shows "refs_ok (MaxAggregatedViews (qs_config s)) (qs_views s) (qs_batchers s) (qs_leaving s)"
    "locks_ok (qs_views s) (qs_calls s)" "pcs_ok (qs_views s) (length (qs_batchers s)) (qs_calls s)"
    "free_ok s" "queries_ok (qs_views s) (qs_batchers s) (qs_queries s)"
    "\<And>i v. qs_ids s i = Some v \<Longrightarrow> v < length (qs_views s)"
    "\<And>k b. qs_listing s k = Some b \<Longrightarrow> 0 < b \<and> b < length (qs_batchers s)" "0 < length (qs_batchers s)"
  using assms unfolding views_inv_def by blast+

lemma views_invI:
  assumes "refs_ok (MaxAggregatedViews (qs_config s)) (qs_views s) (qs_batchers s) (qs_leaving s)"
    "locks_ok (qs_views s) (qs_calls s)" "pcs_ok (qs_views s) (length (qs_batchers s)) (qs_calls s)"
    "free_ok s" "queries_ok (qs_views s) (qs_batchers s) (qs_queries s)"
    "\<And>i v. qs_ids s i = Some v \<Longrightarrow> v < length (qs_views s)"
    "\<And>k b. qs_listing s k = Some b \<Longrightarrow> 0 < b \<and> b < length (qs_batchers s)" "0 < length (qs_batchers s)"
  shows "views_inv s"
  unfolding views_inv_def using assms by blast

section \<open>Steps that change views\<close>

lemma pc_ok_mono:
  assumes "pc_ok vs n pc" "n \<le> n'" "length vs \<le> length vs'" "\<And>b. joined vs b \<Longrightarrow> joined vs' b"
    and "\<And>v. v < length vs \<Longrightarrow> lock_of pc = Some v \<Longrightarrow> vh_batcher (vs' ! v) = vh_batcher (vs ! v) \<and> vh_retired (vs' ! v) = vh_retired (vs ! v)"
  shows "pc_ok vs' n' pc"
  using assms by (cases pc) (auto intro: less_le_trans)

lemma pcs_mono:
  assumes "pcs_ok vs n cs" "n \<le> n'" "length vs \<le> length vs'" "\<And>b. joined vs b \<Longrightarrow> joined vs' b"
    and "\<And>v. v < length vs \<Longrightarrow> vh_batcher (vs' ! v) = vh_batcher (vs ! v) \<and> vh_retired (vs' ! v) = vh_retired (vs ! v)"
  shows "pcs_ok vs' n' cs"
  unfolding pcs_ok_def
proof (intro allI impI)
  fix i assume "i < length cs"
  then have "pc_ok vs n (c_pc (cs ! i))" using assms(1) by (simp add: pcs_ok_def)
  then show "pc_ok vs' n' (c_pc (cs ! i))" by (rule pc_ok_mono) (use assms(2-) in auto)
qed

lemma queries_ok_mono:
  assumes "queries_ok vs bs qs" "length bs \<le> length bs'" "\<And>b. joined vs b \<Longrightarrow> joined vs' b"
    and "\<And>b. b < length bs \<Longrightarrow> bt_ctx (bs' ! b) = bt_ctx (bs ! b)"
  shows "queries_ok vs' bs' qs"
  using assms unfolding queries_ok_def by (metis less_le_trans)

text \<open>A change of a view that keeps its batcher, whether it is retired, and its lock.\<close>

lemma view_keep_inv:
  assumes "views_inv s" "v < length (qs_views s)"
    and "vh_batcher h = vh_batcher (qs_views s ! v)" "vh_joined h = vh_joined (qs_views s ! v)" "vh_retired h = vh_retired (qs_views s ! v)"
      "vh_locked h = vh_locked (qs_views s ! v)"
    and "qs_views s' = (qs_views s)[v := h]" "qs_batchers s' = qs_batchers s" "qs_leaving s' = qs_leaving s" "qs_calls s' = qs_calls s"
      "qs_queries s' = qs_queries s" "qs_config s' = qs_config s" "qs_listing s' = qs_listing s" "free_ok s'"
      "\<And>i x. qs_ids s' i = Some x \<Longrightarrow> qs_ids s i = Some x"
  shows "views_inv s'"
proof -
  note d = views_invD [OF assms(1)] and j = joined_update [OF assms(2,4)]
  have e: "vh_batcher ((qs_views s)[v := h] ! x) = vh_batcher (qs_views s ! x)" "vh_retired ((qs_views s)[v := h] ! x) = vh_retired (qs_views s ! x)"
    "vh_locked ((qs_views s)[v := h] ! x) = vh_locked (qs_views s ! x)" for x
    using assms(2-6) by (cases "x = v"; simp)+
  show ?thesis
  proof (rule views_invI)
    show "refs_ok (MaxAggregatedViews (qs_config s')) (qs_views s') (qs_batchers s') (qs_leaving s')"
      unfolding assms(7-9,12) by (rule refs_view_keep [OF d(1) assms(2-5)])
    show "locks_ok (qs_views s') (qs_calls s')" using d(2) unfolding assms(7,10) locks_ok_def by (simp add: e)
    show "pcs_ok (qs_views s') (length (qs_batchers s')) (qs_calls s')"
      unfolding assms(7,8,10) by (rule pcs_mono [OF d(3)]) (simp_all add: e j)
    show "queries_ok (qs_views s') (qs_batchers s') (qs_queries s')"
      unfolding assms(7,8,11) by (rule queries_ok_mono [OF d(5)]) (simp_all add: j)
    show "free_ok s'" by (rule assms(14))
    show "x < length (qs_views s')" if "qs_ids s' i = Some x" for i x using d(6) assms(15) [OF that] assms(7) by simp
    show "0 < b \<and> b < length (qs_batchers s')" if "qs_listing s' k = Some b" for k b using d(7) that assms(8,13) by simp
    show "0 < length (qs_batchers s')" using d(8) assms(8) by simp
  qed
qed

lemma view_ctx_inv:
  assumes "views_inv s" "v < length (qs_views s)" "\<And>i x. ids i = Some x \<Longrightarrow> qs_ids s i = Some x"
  shows "views_inv (view_update v (\<lambda>h. h\<lparr>vh_ctx := f (vh_ctx h)\<rparr>) (s\<lparr>qs_ids := ids\<rparr>))"
proof -
  have "free_ok s" using assms(1) by (rule views_invD)
  then have "free_ok (view_update v (\<lambda>h. h\<lparr>vh_ctx := f (vh_ctx h)\<rparr>) (s\<lparr>qs_ids := ids\<rparr>))"
    using count_if_update [OF assms(2), of "\<lambda>h. \<not> vh_released h" "(qs_views s ! v)\<lparr>vh_ctx := f (vh_ctx (qs_views s ! v))\<rparr>"]
    by (simp add: free_ok_def view_update_def)
  then show ?thesis
    by (intro view_keep_inv [OF assms(1,2), where h = "(qs_views s ! v)\<lparr>vh_ctx := f (vh_ctx (qs_views s ! v))\<rparr>"])
       (simp_all add: view_update_def assms(3))
qed

lemma makeView_inv:
  assumes "views_inv s"
  shows "views_inv (snd (makeView viewID p s))"
proof (cases "MaxActiveViews (qs_config s) > 0 \<and> qs_free s = 0 \<or> qs_ids s viewID \<noteq> None")
  case True
  then show ?thesis using assms by (auto simp: makeView_def)
next
  case False
  let ?h = "\<lparr>vh_ctx = qs_ctx s, vh_params = p, vh_batcher = None, vh_retired = False, vh_joined = None, vh_released = False, vh_locked = False\<rparr>"
  let ?s = "snd (makeView viewID p s)"
  have s': "qs_views ?s = qs_views s @ [?h]" "qs_batchers ?s = qs_batchers s" "qs_leaving ?s = qs_leaving s" "qs_calls ?s = qs_calls s"
    "qs_queries ?s = qs_queries s" "qs_config ?s = qs_config s" "qs_listing ?s = qs_listing s"
    "qs_ids ?s = (qs_ids s)(viewID \<mapsto> length (qs_views s))"
    "qs_free ?s = (if MaxActiveViews (qs_config s) > 0 then qs_free s - 1 else qs_free s)"
    using False by (auto simp: makeView_def)
  note d = views_invD [OF assms]
  have j: "joined (qs_views s @ [?h]) b = joined (qs_views s) b" for b by (rule joined_append) simp
  have nolock: "count_if (has_lock (length (qs_views s))) (qs_calls s) = 0"
  proof -
    have "\<not> has_lock (length (qs_views s)) (qs_calls s ! i)" if "i < length (qs_calls s)" for i
      using d(3) [unfolded pcs_ok_def, rule_format, OF that] by (cases "c_pc (qs_calls s ! i)") (auto simp: has_lock_def)
    then show ?thesis by (simp add: count_if_def filter_empty_conv all_set_conv_all_nth)
  qed
  show ?thesis
  proof (rule views_invI)
    show "refs_ok (MaxAggregatedViews (qs_config ?s)) (qs_views ?s) (qs_batchers ?s) (qs_leaving ?s)"
      unfolding s' by (rule refs_append_view [OF d(1)]) simp_all
    show "locks_ok (qs_views ?s) (qs_calls ?s)" using d(2) nolock unfolding s' locks_ok_def by (auto simp: nth_append less_Suc_eq)
    show "pcs_ok (qs_views ?s) (length (qs_batchers ?s)) (qs_calls ?s)"
      unfolding s' by (rule pcs_mono [OF d(3)]) (simp_all add: j nth_append)
    show "queries_ok (qs_views ?s) (qs_batchers ?s) (qs_queries ?s)"
      unfolding s' by (rule queries_ok_mono [OF d(5)]) (simp_all add: j)
    show "free_ok ?s" using d(4) False unfolding free_ok_def s' by auto
    show "v < length (qs_views ?s)" if "qs_ids ?s i = Some v" for i v
      using d(6) [of i v] that unfolding s' by (auto split: if_splits)
    show "0 < b \<and> b < length (qs_batchers ?s)" if "qs_listing ?s k = Some b" for k b using d(7) that unfolding s' by blast
    show "0 < length (qs_batchers ?s)" using d(8) unfolding s' .
  qed
qed

lemma releaseView_inv:
  assumes "views_inv s" "releaseView v s = Some s'"
  shows "views_inv s'"
proof -
  have v: "v < length (qs_views s)" "\<not> vh_released (qs_views s ! v)"
    and s': "s' = view_update v (\<lambda>h. h\<lparr>vh_released := True\<rparr>)
        (s\<lparr>qs_free := (if MaxActiveViews (qs_config s) > 0 then qs_free s + 1 else qs_free s),
           qs_ids := (\<lambda>i. if qs_ids s i = Some v then None else qs_ids s i)\<rparr>)"
    using assms(2) by (auto simp: releaseView_def split: if_splits)
  have "free_ok s" using assms(1) by (rule views_invD)
  then have "free_ok s'"
    using count_if_update [OF v(1), of "\<lambda>h. \<not> vh_released h" "(qs_views s ! v)\<lparr>vh_released := True\<rparr>"] v(2)
    by (auto simp: free_ok_def view_update_def s')
  then show ?thesis
    by (intro view_keep_inv [OF assms(1) v(1), where h = "(qs_views s ! v)\<lparr>vh_released := True\<rparr>"])
       (auto simp: view_update_def s' split: if_splits)
qed

lemma retireView_inv:
  assumes "views_inv s" "retireView v s = Some s'"
  shows "views_inv s'"
proof -
  let ?h = "(qs_views s ! v)\<lparr>vh_batcher := None, vh_retired := True\<rparr>"
  let ?L = "case vh_batcher (qs_views s ! v) of None \<Rightarrow> qs_leaving s | Some b \<Rightarrow> b # qs_leaving s"
  have v: "v < length (qs_views s)" "\<not> vh_locked (qs_views s ! v)"
    and s': "s' = s\<lparr>qs_leaving := ?L, qs_views := (qs_views s)[v := ?h]\<rparr>"
    using assms(2) by (auto simp: retireView_def Let_def view_update_def split: if_splits)
  note d = views_invD [OF assms(1)]
  have j: "joined ((qs_views s)[v := ?h]) b = joined (qs_views s) b" for b by (rule joined_update [OF v(1)]) simp
  have "\<not> has_lock v (qs_calls s ! i)" if "i < length (qs_calls s)" for i
    using d(2) v count_if_pos [OF that, of "has_lock v"] by (auto simp: locks_ok_def)
  then have nl: "lock_of (c_pc (qs_calls s ! i)) \<noteq> Some v" if "i < length (qs_calls s)" for i using that by (simp add: has_lock_def)
  show ?thesis
  proof (rule views_invI)
    show "refs_ok (MaxAggregatedViews (qs_config s')) (qs_views s') (qs_batchers s') (qs_leaving s')"
      using refs_retire [OF d(1) v(1)] by (simp add: s')
    show "locks_ok (qs_views s') (qs_calls s')" using d(2) v by (simp add: s' locks_ok_def nth_list_update)
    show "pcs_ok (qs_views s') (length (qs_batchers s')) (qs_calls s')"
      unfolding pcs_ok_def
    proof (intro allI impI)
      fix i assume "i < length (qs_calls s')"
      then have i: "i < length (qs_calls s)" by (simp add: s')
      have "pc_ok (qs_views s') (length (qs_batchers s')) (c_pc (qs_calls s ! i))"
      proof (rule pc_ok_mono [OF d(3) [unfolded pcs_ok_def, rule_format, OF i]])
        fix x assume "lock_of (c_pc (qs_calls s ! i)) = Some x"
        then have "x \<noteq> v" using nl [OF i] by auto
        then show "vh_batcher (qs_views s' ! x) = vh_batcher (qs_views s ! x) \<and> vh_retired (qs_views s' ! x) = vh_retired (qs_views s ! x)"
          by (simp add: s')
      qed (simp_all add: s' j)
      then show "pc_ok (qs_views s') (length (qs_batchers s')) (c_pc (qs_calls s' ! i))" by (simp add: s')
    qed
    show "queries_ok (qs_views s') (qs_batchers s') (qs_queries s')"
      by (simp add: s', rule queries_ok_mono [OF d(5)]) (simp_all add: j)
    show "free_ok s'" using d(4) count_if_update [OF v(1), of "\<lambda>h. \<not> vh_released h" ?h] by (simp add: free_ok_def s')
  qed (use d(6-) in \<open>simp_all add: s'\<close>)
qed

section \<open>Steps that change batchers and query batches\<close>

lemma queries_inv: "views_inv s \<Longrightarrow> queries_ok (qs_views s) (qs_batchers s) qs \<Longrightarrow> views_inv (s\<lparr>qs_queries := qs\<rparr>)"
  by (simp add: views_inv_def free_ok_def)

lemma queries_ok_update:
  assumes "queries_ok vs bs qs" "qb_batcher x = qb_batcher (qs ! q)" "qb_ctx (qs ! q) \<noteq> Live \<longrightarrow> qb_ctx x \<noteq> Live"
  shows "queries_ok vs bs (qs[q := x])"
  unfolding queries_ok_def
proof (intro allI impI)
  fix i assume i: "i < length (qs[q := x])"
  show "qb_batcher (qs[q := x] ! i) < length bs \<and> (qb_batcher (qs[q := x] ! i) = 0 \<or> joined vs (qb_batcher (qs[q := x] ! i))) \<and>
      (bt_ctx (bs ! qb_batcher (qs[q := x] ! i)) \<noteq> Live \<longrightarrow> qb_ctx (qs[q := x] ! i) \<noteq> Live)"
    using assms(1) [unfolded queries_ok_def, rule_format, of i] i assms(2,3) by (cases "i = q") simp_all
qed

lemma ctx_cancel_ended [simp]: "ctx_cancel k c \<noteq> Live"
  by (simp add: ctx_cancel_def split: go_ctx.splits)

lemma ctx_inherit_ended: "ctx_inherit p c \<noteq> Live \<longleftrightarrow> p \<noteq> Live \<or> c \<noteq> Live"
  by (auto simp: ctx_inherit_def)

lemma batch_steps:
  "qb_batcher (submit q) = qb_batcher q" "qb_ctx (submit q) = qb_ctx q"
  "executeBegin q = Some q' \<Longrightarrow> qb_batcher q' = qb_batcher q \<and> qb_ctx q' = qb_ctx q"
  "executeAcquired e q = Some q' \<Longrightarrow> qb_batcher q' = qb_batcher q \<and> (qb_ctx q \<noteq> Live \<longrightarrow> qb_ctx q' \<noteq> Live)"
  "executeQuery w r q = Some q' \<Longrightarrow> qb_batcher q' = qb_batcher q \<and> (qb_ctx q \<noteq> Live \<longrightarrow> qb_ctx q' \<noteq> Live)"
  "addKeys ks q = (ok, q') \<Longrightarrow> qb_batcher q' = qb_batcher q \<and> qb_ctx q' = qb_ctx q"
  by (auto simp: submit_def executeBegin_def executeAcquired_def executeQuery_def executeFailed_def addKeys_def Let_def
      split: if_splits option.splits sum.splits)

lemma on_query_inv:
  assumes "views_inv s" "on_query q f s = Some s'"
    and "\<And>x. f (qs_queries s ! q) = Some x \<Longrightarrow> qb_batcher x = qb_batcher (qs_queries s ! q) \<and> (qb_ctx (qs_queries s ! q) \<noteq> Live \<longrightarrow> qb_ctx x \<noteq> Live)"
  shows "views_inv s'"
proof -
  obtain x where x: "f (qs_queries s ! q) = Some x" "s' = s\<lparr>qs_queries := (qs_queries s)[q := x]\<rparr>"
    using assms(2) by (auto simp: on_query_def query_update_def split: if_splits)
  then show ?thesis using queries_inv [OF assms(1)] queries_ok_update [OF views_invD(5) [OF assms(1)]] assms(3) by blast
qed

lemma leave_inv:
  assumes "views_inv s" "b \<in> set (qs_leaving s)"
  shows "views_inv (batcher_leave b (s\<lparr>qs_leaving := remove1 b (qs_leaving s)\<rparr>))"
proof -
  let ?b = "qs_batchers s ! b" and ?s = "batcher_leave b (s\<lparr>qs_leaving := remove1 b (qs_leaving s)\<rparr>)"
  let ?z = "bt_refCounter ?b - 1 = 0"
  let ?c = "if ?z then ctx_cancel None (bt_ctx ?b) else bt_ctx ?b"
  let ?x = "?b\<lparr>bt_refCounter := bt_refCounter ?b - 1, bt_ctx := ?c\<rparr>"
  note d = views_invD [OF assms(1)]
  have b: "b < length (qs_batchers s)" using refs_okD(2,4) [OF d(1)] assms(2) by blast
  define qs where "qs = (if ?z then map (\<lambda>q. if qb_batcher q = b then q\<lparr>qb_ctx := ctx_inherit ?c (qb_ctx q)\<rparr> else q) (qs_queries s) else qs_queries s)"
  have s': "qs_batchers ?s = (qs_batchers s)[b := ?x]" "qs_leaving ?s = remove1 b (qs_leaving s)" "qs_queries ?s = qs"
    "qs_views ?s = qs_views s" "qs_calls ?s = qs_calls s" "qs_config ?s = qs_config s" "qs_listing ?s = qs_listing s" "qs_ids ?s = qs_ids s"
    "qs_free ?s = qs_free s"
    using b by (simp_all add: batcher_leave_def batcher_cancel_def batcher_update_def Let_def qs_def)
  show ?thesis
  proof (rule views_invI)
    show "refs_ok (MaxAggregatedViews (qs_config ?s)) (qs_views ?s) (qs_batchers ?s) (qs_leaving ?s)"
      unfolding s' by (rule refs_leave [OF d(1) assms(2)]) simp_all
    show "locks_ok (qs_views ?s) (qs_calls ?s)" using d(2) by (simp add: s')
    show "pcs_ok (qs_views ?s) (length (qs_batchers ?s)) (qs_calls ?s)" using d(3) by (simp add: s')
    show "free_ok ?s" using d(4) by (simp add: free_ok_def s')
    show "queries_ok (qs_views ?s) (qs_batchers ?s) (qs_queries ?s)"
      unfolding s' queries_ok_def
    proof (intro allI impI)
      fix i assume i: "i < length qs"
      have l: "length qs = length (qs_queries s)" by (simp add: qs_def)
      have e: "qb_batcher (qs ! i) = qb_batcher (qs_queries s ! i)" "qb_ctx (qs_queries s ! i) \<noteq> Live \<Longrightarrow> qb_ctx (qs ! i) \<noteq> Live"
        "?z \<Longrightarrow> qb_batcher (qs_queries s ! i) = b \<Longrightarrow> qb_ctx (qs ! i) \<noteq> Live"
        using i l by (auto simp: qs_def ctx_inherit_ended ctx_inherit_def)
      show "qb_batcher (qs ! i) < length ((qs_batchers s)[b := ?x]) \<and> (qb_batcher (qs ! i) = 0 \<or> joined (qs_views s) (qb_batcher (qs ! i))) \<and>
          (bt_ctx ((qs_batchers s)[b := ?x] ! qb_batcher (qs ! i)) \<noteq> Live \<longrightarrow> qb_ctx (qs ! i) \<noteq> Live)"
        using d(5) [unfolded queries_ok_def, rule_format, of i] i l e b by (cases "qb_batcher (qs_queries s ! i) = b") (auto split: if_splits)
    qed
  qed (use d(6-) in \<open>simp_all add: s'\<close>)
qed

lemma serviceDone_inv:
  assumes "views_inv s"
  shows "views_inv (serviceDone s)"
proof -
  let ?s = "serviceDone s" and ?c = "ctx_cancel None (qs_ctx s)"
  let ?f = "\<lambda>h. h\<lparr>vh_ctx := ctx_inherit ?c (vh_ctx h)\<rparr>" and ?g = "\<lambda>b. b\<lparr>bt_ctx := ctx_inherit ?c (bt_ctx b)\<rparr>"
  let ?k = "\<lambda>q. q\<lparr>qb_ctx := ctx_inherit ?c (qb_ctx q)\<rparr>"
  note d = views_invD [OF assms]
  have s': "qs_views ?s = map ?f (qs_views s)" "qs_batchers ?s = map ?g (qs_batchers s)" "qs_queries ?s = map ?k (qs_queries s)"
    "qs_leaving ?s = qs_leaving s" "qs_calls ?s = qs_calls s" "qs_config ?s = qs_config s" "qs_listing ?s = qs_listing s" "qs_ids ?s = qs_ids s"
    "qs_free ?s = qs_free s"
    by (simp_all add: serviceDone_def Let_def)
  have j: "joined (map ?f (qs_views s)) b = joined (qs_views s) b" for b by (auto simp: joined_def)
  show ?thesis
  proof (rule views_invI)
    show "refs_ok (MaxAggregatedViews (qs_config ?s)) (qs_views ?s) (qs_batchers ?s) (qs_leaving ?s)"
      unfolding s' by (rule refs_batchers [OF refs_map_views [OF d(1)]]) (simp_all add: ctx_inherit_ended)
    show "locks_ok (qs_views ?s) (qs_calls ?s)" using d(2) by (simp add: s' locks_ok_def)
    show "pcs_ok (qs_views ?s) (length (qs_batchers ?s)) (qs_calls ?s)"
      unfolding s' by (rule pcs_mono [OF d(3)]) (simp_all add: j)
    show "free_ok ?s" using d(4) by (simp add: free_ok_def s' comp_def)
    show "queries_ok (qs_views ?s) (qs_batchers ?s) (qs_queries ?s)"
      using d(5) by (simp add: queries_ok_def s' j ctx_inherit_ended)
  qed (use d(6-) in \<open>simp_all add: s'\<close>)
qed

section \<open>Steps of requests\<close>

lemma pcs_update: "pcs_ok vs n cs \<Longrightarrow> pc_ok vs n (c_pc c) \<Longrightarrow> pcs_ok vs n (cs[i := c])"
  unfolding pcs_ok_def by (metis length_list_update nth_list_update_eq nth_list_update_neq)

lemma pcs_okD: "pcs_ok vs n cs \<Longrightarrow> i < length cs \<Longrightarrow> pc_ok vs n (c_pc (cs ! i))"
  by (simp add: pcs_ok_def)

text \<open>A step that keeps the lock of the request.\<close>

lemma call_keep_inv:
  assumes "views_inv s" "i < length (qs_calls s)" "lock_of (c_pc c) = lock_of (c_pc (qs_calls s ! i))"
    and "pc_ok (qs_views s) (length (qs_batchers s)) (c_pc c)"
  shows "views_inv (s\<lparr>qs_calls := (qs_calls s)[i := c]\<rparr>)"
proof -
  note d = views_invD [OF assms(1)]
  have "count_if (has_lock v) ((qs_calls s)[i := c]) = count_if (has_lock v) (qs_calls s)" for v
    using count_if_update [OF assms(2), of "has_lock v" c] assms(3) by (simp add: has_lock_def split: if_splits)
  then have "locks_ok (qs_views s) ((qs_calls s)[i := c])" using d(2) by (simp add: locks_ok_def)
  then show ?thesis using assms(1) pcs_update [OF d(3) assms(4)] by (simp add: views_inv_def free_ok_def)
qed

lemma goto_inv:
  assumes "views_inv s" "i < length (qs_calls s)" "lock_of pc = lock_of (c_pc (qs_calls s ! i))"
    and "pc_ok (qs_views s) (length (qs_batchers s)) pc"
  shows "views_inv (goto i pc s)"
  using call_keep_inv [OF assms(1,2), of "(qs_calls s ! i)\<lparr>c_pc := pc\<rparr>"] assms(3,4) by (simp add: goto_def call_update_def)

text \<open>A step that takes or releases the lock of a view.\<close>

lemma call_lock_inv:
  assumes "views_inv s" "i < length (qs_calls s)" "v < length (qs_views s)" "vh_locked (qs_views s ! v) = (\<not> l)"
    and "lock_of (c_pc (qs_calls s ! i)) = (if l then None else Some v)" "lock_of pc = (if l then Some v else None)"
    and "pc_ok (qs_views s) (length (qs_batchers s)) pc"
  shows "views_inv (goto i pc (view_update v (\<lambda>h. h\<lparr>vh_locked := l\<rparr>) s))"
proof -
  note d = views_invD [OF assms(1)]
  let ?h = "(qs_views s ! v)\<lparr>vh_locked := l\<rparr>" and ?c = "(qs_calls s ! i)\<lparr>c_pc := pc\<rparr>"
  let ?vs = "(qs_views s)[v := ?h]" and ?cs = "(qs_calls s)[i := ?c]"
  have s': "goto i pc (view_update v (\<lambda>h. h\<lparr>vh_locked := l\<rparr>) s) = s\<lparr>qs_views := ?vs, qs_calls := ?cs\<rparr>"
    by (simp add: goto_def call_update_def view_update_def)
  have j: "joined ?vs b = joined (qs_views s) b" for b by (rule joined_update [OF assms(3)]) simp
  have e: "vh_batcher (?vs ! x) = vh_batcher (qs_views s ! x)" "vh_retired (?vs ! x) = vh_retired (qs_views s ! x)" for x
    using assms(3) by (cases "x = v"; simp)+
  show ?thesis unfolding s'
  proof (rule views_invI)
    let ?s = "s\<lparr>qs_views := ?vs, qs_calls := ?cs\<rparr>"
    show "refs_ok (MaxAggregatedViews (qs_config ?s)) (qs_views ?s) (qs_batchers ?s) (qs_leaving ?s)"
      using refs_view_keep [OF d(1) assms(3), of ?h] by simp
    have "count_if (has_lock x) ?cs = (if vh_locked (?vs ! x) then 1 else 0)" if "x < length (qs_views s)" for x
      using d(2) [unfolded locks_ok_def, rule_format, OF that] count_if_update [OF assms(2), of "has_lock x" ?c] assms(3-6)
      by (cases "x = v"; cases l) (simp_all add: has_lock_def)
    then show "locks_ok (qs_views ?s) (qs_calls ?s)" by (simp add: locks_ok_def)
    have "pcs_ok ?vs (length (qs_batchers s)) (qs_calls s)"
      by (rule pcs_mono [OF d(3)]) (simp_all add: e j)
    moreover have "pc_ok ?vs (length (qs_batchers s)) pc" by (rule pc_ok_mono [OF assms(7)]) (simp_all add: e j)
    ultimately show "pcs_ok (qs_views ?s) (length (qs_batchers ?s)) (qs_calls ?s)" using pcs_update [of ?vs _ "qs_calls s" ?c i] by simp
    show "free_ok ?s" using d(4) count_if_update [OF assms(3), of "\<lambda>h. \<not> vh_released h" ?h] by (simp add: free_ok_def)
    show "queries_ok (qs_views ?s) (qs_batchers ?s) (qs_queries ?s)" by (simp, rule queries_ok_mono [OF d(5)]) (simp_all add: j)
  qed (use d(6-) in simp_all)
qed

lemma goto_unlock: "unlock v (goto i pc s) = goto i pc (view_update v (\<lambda>h. h\<lparr>vh_locked := False\<rparr>) s)"
  by (simp add: unlock_def goto_def call_update_def view_update_def)

lemma locked_by:
  assumes "views_inv s" "i < length (qs_calls s)" "lock_of (c_pc (qs_calls s ! i)) = Some v" "v < length (qs_views s)"
  shows "vh_locked (qs_views s ! v)" "j < length (qs_calls s) \<Longrightarrow> lock_of (c_pc (qs_calls s ! j)) = Some v \<Longrightarrow> j = i"
proof -
  have c: "count_if (has_lock v) (qs_calls s) = (if vh_locked (qs_views s ! v) then 1 else 0)"
    using views_invD(2) [OF assms(1)] assms(4) by (simp add: locks_ok_def)
  show "vh_locked (qs_views s ! v)" using c count_if_pos [OF assms(2), of "has_lock v"] assms(3) by (auto simp: has_lock_def split: if_splits)
  show "j = i" if "j < length (qs_calls s)" "lock_of (c_pc (qs_calls s ! j)) = Some v"
    using c count_if_two [OF assms(2) that(1), of "has_lock v"] assms(3) that(2) by (auto simp: has_lock_def split: if_splits)
qed

lemma join_inv:
  assumes "views_inv s" "i < length (qs_calls s)" "c_pc (qs_calls s ! i) = CAssign v (MUpdate (Some b))" "join b v s = (True, s')"
  shows "views_inv (goto i (CCheck v) s')"
proof -
  note d = views_invD [OF assms(1)]
  have p: "v < length (qs_views s)" "vh_batcher (qs_views s ! v) = None" "\<not> vh_retired (qs_views s ! v)" "0 < b" "b < length (qs_batchers s)"
    using pcs_okD [OF d(3) assms(2)] assms(3) by simp_all
  let ?h = "(qs_views s ! v)\<lparr>vh_batcher := Some b, vh_joined := Some b\<rparr>"
  let ?b = "(qs_batchers s ! b)\<lparr>bt_refCounter := bt_refCounter (qs_batchers s ! b) + 1\<rparr>" and ?c = "(qs_calls s ! i)\<lparr>c_pc := CCheck v\<rparr>"
  have lt: "bt_refCounter (qs_batchers s ! b) < MaxAggregatedViews (qs_config s)"
    and s': "goto i (CCheck v) s' = s\<lparr>qs_views := (qs_views s)[v := ?h], qs_batchers := (qs_batchers s)[b := ?b], qs_calls := (qs_calls s)[i := ?c]\<rparr>"
    using assms(4) by (auto simp: join_def Let_def goto_def call_update_def view_update_def batcher_update_def split: if_splits)
  have j: "joined ((qs_views s)[v := ?h]) x" if jx: "joined (qs_views s) x" for x
  proof -
    obtain y where y: "y < length (qs_views s)" "vh_joined (qs_views s ! y) = Some x" using jx by (auto simp: joined_def)
    then have "y \<noteq> v" using refs_okD(1) [OF d(1) p(1)] p(2,3) by auto
    then show ?thesis using y by (auto simp: joined_def intro!: exI [of _ y])
  qed
  have bc: "bt_ctx ((qs_batchers s)[b := ?b] ! x) = bt_ctx (qs_batchers s ! x)" for x using p(5) by (cases "x = b") simp_all
  show ?thesis unfolding s'
  proof (rule views_invI)
    let ?s = "s\<lparr>qs_views := (qs_views s)[v := ?h], qs_batchers := (qs_batchers s)[b := ?b], qs_calls := (qs_calls s)[i := ?c]\<rparr>"
    show "refs_ok (MaxAggregatedViews (qs_config ?s)) (qs_views ?s) (qs_batchers ?s) (qs_leaving ?s)"
      using refs_join [OF d(1) p(1,4,5,2,3) lt] by simp
    have "count_if (has_lock x) ((qs_calls s)[i := ?c]) = count_if (has_lock x) (qs_calls s)" for x
      using count_if_update [OF assms(2), of "has_lock x" ?c] assms(3) by (simp add: has_lock_def split: if_splits)
    moreover have "vh_locked ((qs_views s)[v := ?h] ! x) = vh_locked (qs_views s ! x)" for x using p(1) by (cases "x = v") simp_all
    ultimately show "locks_ok (qs_views ?s) (qs_calls ?s)" using d(2) by (simp add: locks_ok_def)
    show "pcs_ok (qs_views ?s) (length (qs_batchers ?s)) (qs_calls ?s)"
      unfolding pcs_ok_def
    proof (intro allI impI)
      fix k assume "k < length (qs_calls ?s)"
      then have k: "k < length (qs_calls s)" by simp
      show "pc_ok (qs_views ?s) (length (qs_batchers ?s)) (c_pc (qs_calls ?s ! k))"
      proof (cases "k = i")
        case False
        have "pc_ok ((qs_views s)[v := ?h]) (length (qs_batchers s)) (c_pc (qs_calls s ! k))"
        proof (rule pc_ok_mono [OF pcs_okD [OF d(3) k]])
          fix x assume "lock_of (c_pc (qs_calls s ! k)) = Some x"
          then have "x \<noteq> v" using locked_by(2) [OF assms(1,2) _ p(1) k] assms(3) False by auto
          then show "vh_batcher ((qs_views s)[v := ?h] ! x) = vh_batcher (qs_views s ! x) \<and> vh_retired ((qs_views s)[v := ?h] ! x) = vh_retired (qs_views s ! x)"
            by simp
        qed (use j in simp_all)
        then show ?thesis using False by simp
      qed (use p(1) k in simp)
    qed
    show "free_ok ?s" using d(4) count_if_update [OF p(1), of "\<lambda>h. \<not> vh_released h" ?h] by (simp add: free_ok_def)
    show "queries_ok (qs_views ?s) (qs_batchers ?s) (qs_queries ?s)" by (simp, rule queries_ok_mono [OF d(5)]) (use j bc in simp_all)
  qed (use d(6-) in simp_all)
qed

lemma mapStore_vals:
  assumes "mapStore key val n m = (m', assigned, val')" "\<And>k b. m k = Some b \<Longrightarrow> P b" "P n"
  shows "m' k = Some b \<Longrightarrow> P b" "val' = Some b \<Longrightarrow> P b" "\<not> assigned \<Longrightarrow> m' = m" "assigned \<Longrightarrow> m' = m(key \<mapsto> n) \<and> val' = Some n"
    "\<not> assigned \<Longrightarrow> val' = m key"
  using assms by (auto simp: mapStore_def split: option.splits if_splits)

lemma append_batcher_inv:
  assumes "views_inv s" "bt_refCounter x = 0" "\<And>k b. listing k = Some b \<Longrightarrow> 0 < b \<and> b < Suc (length (qs_batchers s))"
  shows "views_inv (s\<lparr>qs_listing := listing, qs_batchers := qs_batchers s @ [x]\<rparr>)"
proof (rule views_invI)
  note d = views_invD [OF assms(1)]
  let ?s = "s\<lparr>qs_listing := listing, qs_batchers := qs_batchers s @ [x]\<rparr>"
  show "refs_ok (MaxAggregatedViews (qs_config ?s)) (qs_views ?s) (qs_batchers ?s) (qs_leaving ?s)"
    by (simp, rule refs_batchers [OF d(1)]) (simp_all add: nth_append assms(2))
  show "locks_ok (qs_views ?s) (qs_calls ?s)" using d(2) by simp
  show "pcs_ok (qs_views ?s) (length (qs_batchers ?s)) (qs_calls ?s)" by (simp, rule pcs_mono [OF d(3)]) simp_all
  show "free_ok ?s" using d(4) by (simp add: free_ok_def)
  show "queries_ok (qs_views ?s) (qs_batchers ?s) (qs_queries ?s)" by (simp, rule queries_ok_mono [OF d(5)]) (simp_all add: nth_append)
  show "\<And>i v. qs_ids ?s i = Some v \<Longrightarrow> v < length (qs_views ?s)" using d(6) by simp
  show "\<And>k b. qs_listing ?s k = Some b \<Longrightarrow> 0 < b \<and> b < length (qs_batchers ?s)" using assms(3) by simp
qed simp

lemma updateOrCreate_inv:
  assumes "views_inv s" "i < length (qs_calls s)" "c_pc (qs_calls s ! i) = CAssign v pc"
  shows "views_inv (updateOrCreateBatcher i v pc s)"
proof -
  note d = views_invD [OF assms(1)]
  let ?key = "viewParametersKey (vh_params (qs_views s ! v))"
  have p: "v < length (qs_views s)" "vh_batcher (qs_views s ! v) = None" "\<not> vh_retired (qs_views s ! v)"
    "\<And>b. val_of pc = Some b \<Longrightarrow> 0 < b \<and> b < length (qs_batchers s)"
    using pcs_okD [OF d(3) assms(2)] assms(3) by simp_all
  have g: "views_inv (goto i (CAssign v pc') s)" if "\<And>b. val_of pc' = Some b \<Longrightarrow> 0 < b \<and> b < length (qs_batchers s)" for pc'
    by (rule goto_inv [OF assms(1,2)]) (use that p assms(3) in simp_all)
  show ?thesis
  proof (cases pc)
    case MLoad
    then show ?thesis using g [of "MUpdate (qs_listing s ?key)"] d(7) by (simp add: updateOrCreateBatcher_def Let_def)
  next
    case (MUpdate val)
    show ?thesis
    proof (cases val)
      case None
      then show ?thesis using MUpdate g [of "MStore None"] by (simp add: updateOrCreateBatcher_def Let_def)
    next
      case (Some b)
      obtain ok s1 where j: "join b v s = (ok, s1)" by (cases "join b v s")
      show ?thesis
      proof (cases ok)
        case True
        then show ?thesis
          using join_inv [OF assms(1,2), of v b s1] j assms(3) MUpdate Some by (simp add: updateOrCreateBatcher_def Let_def)
      next
        case False
        then have "s1 = s" using j by (auto simp: join_def Let_def split: if_splits)
        then show ?thesis using j False MUpdate Some g [of "MStore (Some b)"] p(4) by (simp add: updateOrCreateBatcher_def Let_def)
      qed
    qed
  next
    case (MStore val)
    obtain listing assigned val' where m: "mapStore ?key val (length (qs_batchers s)) (qs_listing s) = (listing, assigned, val')"
      by (metis prod_cases3)
    let ?x = "\<lparr>bt_ctx = qs_ctx s, bt_refCounter = 0, bt_latest = Map.empty\<rparr>"
    have vals: "\<And>k b. listing k = Some b \<Longrightarrow> 0 < b \<and> b < Suc (length (qs_batchers s))" "\<And>b. val' = Some b \<Longrightarrow> 0 < b \<and> b < Suc (length (qs_batchers s))"
      using mapStore_vals(1,2) [OF m, of "\<lambda>b. 0 < b \<and> b < Suc (length (qs_batchers s))"] d(7,8) less_SucI by blast+
    show ?thesis
    proof (cases assigned)
      case True
      let ?s = "s\<lparr>qs_listing := listing, qs_batchers := qs_batchers s @ [?x]\<rparr>"
      have "views_inv ?s" by (rule append_batcher_inv [OF assms(1)]) (use vals(1) in simp_all)
      then have "views_inv (goto i (CAssign v (MUpdate val')) ?s)"
        by (rule goto_inv) (use assms(2,3) p vals(2) in simp_all)
      then show ?thesis using True MStore m by (simp add: updateOrCreateBatcher_def Let_def)
    next
      case False
      then have "val' = qs_listing s ?key" using mapStore_vals(5) [OF m, of "\<lambda>b. True"] by simp
      then show ?thesis using False MStore m g [of "MUpdate val'"] d(7) by (simp add: updateOrCreateBatcher_def Let_def)
    qed
  qed
qed

lemma addNamespaceKeys_inv:
  assumes "views_inv s" "i < length (qs_calls s)" "c_pc (qs_calls s ! i) = CAdd b pc"
  shows "views_inv (batcher_addNamespaceKeys i b pc s)"
proof -
  note d = views_invD [OF assms(1)]
  obtain nsID keys where nk: "c_namespaces (qs_calls s ! i) ! length (c_batches (qs_calls s ! i)) = (nsID, keys)" by (metis prod.exhaust)
  have p: "b < length (qs_batchers s)" "b = 0 \<or> joined (qs_views s) b" using pcs_okD [OF d(3) assms(2)] assms(3) by simp_all
  have g: "views_inv (goto i (CAdd b pc') s')"
    if "views_inv s'" "qs_calls s' = qs_calls s" "qs_views s' = qs_views s" "length (qs_batchers s') = length (qs_batchers s)" for pc' s'
    by (rule goto_inv [OF that(1)]) (use that p assms(2,3) in simp_all)
  show ?thesis
  proof (cases pc)
    case MLoad
    then show ?thesis using g [OF assms(1)] nk by (simp add: batcher_addNamespaceKeys_def Let_def)
  next
    case (MUpdate val)
    show ?thesis
    proof (cases val)
      case None
      then show ?thesis using MUpdate g [OF assms(1)] nk by (simp add: batcher_addNamespaceKeys_def Let_def)
    next
      case (Some q)
      obtain ok q' where a: "addKeys keys (qs_queries s ! q) = (ok, q')" by (cases "addKeys keys (qs_queries s ! q)")
      show ?thesis
      proof (cases ok)
        case True
        let ?s = "s\<lparr>qs_queries := (qs_queries s)[q := q']\<rparr>"
        let ?c = "(qs_calls s ! i)\<lparr>c_batches := c_batches (qs_calls s ! i) @ [q],
          c_pc := (if Suc (length (c_batches (qs_calls s ! i))) = length (c_namespaces (qs_calls s ! i)) then CWait else CAdd b MLoad)\<rparr>"
        have "views_inv ?s" using queries_inv [OF assms(1) queries_ok_update [OF d(5)]] batch_steps(6) [OF a] by simp
        then have "views_inv (?s\<lparr>qs_calls := (qs_calls ?s)[i := ?c]\<rparr>)"
          by (rule call_keep_inv) (use assms(2,3) p in simp_all)
        then show ?thesis
          using True MUpdate Some a nk by (simp add: batcher_addNamespaceKeys_def Let_def call_update_def query_update_def)
      next
        case False
        then show ?thesis using MUpdate Some a nk g [OF assms(1)] by (simp add: batcher_addNamespaceKeys_def Let_def)
      qed
    qed
  next
    case (MStore val)
    let ?B = "qs_batchers s ! b"
    obtain latest assigned val' where m: "mapStore nsID val (length (qs_queries s)) (bt_latest ?B) = (latest, assigned, val')"
      by (metis prod_cases3)
    let ?q = "\<lparr>qb_batcher = b, qb_ctx = bt_ctx ?B, qb_nsID = nsID, qb_keys = [], qb_minSize = MinBatchKeys (qs_config s), qb_pc = Unsubmitted,
      qb_finalized = False, qb_result = None, qb_statusResult = None, qb_read = None\<rparr>"
    show ?thesis
    proof (cases assigned)
      case True
      let ?bs = "(qs_batchers s)[b := ?B\<lparr>bt_latest := latest\<rparr>]"
      let ?s = "s\<lparr>qs_queries := qs_queries s @ [?q], qs_batchers := ?bs\<rparr>"
      have same: "bt_refCounter (?bs ! x) = bt_refCounter (qs_batchers s ! x)" "bt_ctx (?bs ! x) = bt_ctx (qs_batchers s ! x)" for x
        using p(1) by (cases "x = b"; simp)+
      have "views_inv ?s"
      proof (rule views_invI)
        show "refs_ok (MaxAggregatedViews (qs_config ?s)) (qs_views ?s) (qs_batchers ?s) (qs_leaving ?s)"
          by (simp, rule refs_batchers [OF d(1)]) (simp_all add: same)
        have "queries_ok (qs_views s) ?bs (qs_queries s)" by (rule queries_ok_mono [OF d(5)]) (simp_all add: same)
        then show "queries_ok (qs_views ?s) (qs_batchers ?s) (qs_queries ?s)"
          using p by (auto simp: queries_ok_def nth_append less_Suc_eq same)
      qed (use d in \<open>simp_all add: free_ok_def\<close>)
      then have "views_inv (goto i (CAdd b (MUpdate val')) ?s)" by (rule g) simp_all
      then show ?thesis using True MStore m nk by (simp add: batcher_addNamespaceKeys_def Let_def batcher_update_def)
    next
      case False
      then show ?thesis using MStore m nk g [OF assms(1)] by (simp add: batcher_addNamespaceKeys_def Let_def)
    qed
  qed
qed

lemma callStep_inv:
  assumes "views_inv s" "i < length (qs_calls s)" "callStep i s = Some s'"
  shows "views_inv s'"
proof -
  note d = views_invD [OF assms(1)] and pc = pcs_okD [OF views_invD(3) [OF assms(1)] assms(2)]
  show ?thesis
  proof (cases "c_pc (qs_calls s ! i)")
    case CStart
    have "views_inv (goto i pc' s)" if "lock_of pc' = None" "pc_ok (qs_views s) (length (qs_batchers s)) pc'" for pc'
      by (rule goto_inv [OF assms(1,2)]) (use that CStart in simp_all)
    then show ?thesis using assms(3) CStart d(6,8) by (auto simp: callStep_def getBatcher_load_def split: option.splits)
  next
    case (CLock v)
    then have v: "v < length (qs_views s)" using pc by simp
    show ?thesis
    proof (cases "vh_retired (qs_views s ! v)")
      case True
      then have "s' = goto i (CReturned (Some ErrInvalidOrStaleView)) s"
        using assms(3) CLock by (auto simp: callStep_def getBatcher_lock_def Let_def split: if_splits)
      then show ?thesis using goto_inv [OF assms(1,2)] CLock by simp
    next
      case False
      let ?pc = "if vh_batcher (qs_views s ! v) = None then CAssign v MLoad else CCheck v"
      have "\<not> vh_locked (qs_views s ! v)" "s' = goto i ?pc (view_update v (\<lambda>h. h\<lparr>vh_locked := True\<rparr>) s)"
        using assms(3) CLock False by (auto simp: callStep_def getBatcher_lock_def Let_def split: if_splits)
      then show ?thesis using call_lock_inv [OF assms(1,2) v, of True ?pc] CLock False v by simp
    qed
  next
    case (CAssign v m)
    then show ?thesis using updateOrCreate_inv [OF assms(1,2)] assms(3) by (simp add: callStep_def)
  next
    case (CCheck v)
    then have v: "v < length (qs_views s)" "vh_batcher (qs_views s ! v) \<noteq> None" using pc by simp_all
    then obtain b where b: "vh_batcher (qs_views s ! v) = Some b" by auto
    have l: "vh_locked (qs_views s ! v)" using locked_by(1) [OF assms(1,2) _ v(1)] CCheck by simp
    have "joined (qs_views s) b" using refs_okD(1) [OF d(1) v(1)] b v(1) by (auto simp: joined_def split: if_splits)
    then have ok: "pc_ok (qs_views s) (length (qs_batchers s)) (CAdd b MLoad)" using refs_okD(2) [OF d(1)] by simp
    have "views_inv (unlock v (goto i pc' s))" if "lock_of pc' = None" "pc_ok (qs_views s) (length (qs_batchers s)) pc'" for pc'
      unfolding goto_unlock by (rule call_lock_inv [OF assms(1,2) v(1)]) (use that CCheck l in simp_all)
    then show ?thesis using assms(3) CCheck b ok by (auto simp: callStep_def getBatcher_check_def split: if_splits)
  next
    case (CAdd b m)
    then show ?thesis using addNamespaceKeys_inv [OF assms(1,2)] assms(3) by (simp add: callStep_def)
  next
    case CWait
    have "views_inv (s\<lparr>qs_calls := (qs_calls s)[i := c]\<rparr>)" if "c_pc c = CWait \<or> (\<exists>r. c_pc c = CReturned r)" for c
      by (rule call_keep_inv [OF assms(1,2)]) (use that CWait in auto)
    then show ?thesis
      using assms(3) CWait by (auto simp: callStep_def collectRows_def goto_def call_update_def Let_def split: option.splits sum.splits)
  next
    case (CReturned r)
    then show ?thesis using assms(3) by (simp add: callStep_def)
  qed
qed

lemma callDone_inv:
  assumes "views_inv s" "i < length (qs_calls s)" "callDone i e s = Some s'"
  shows "views_inv s'"
proof -
  note pc = pcs_okD [OF views_invD(3) [OF assms(1)] assms(2)]
  consider (assign) v val where "c_pc (qs_calls s ! i) = CAssign v (MUpdate val)" "s' = unlock v (goto i (CReturned (Some e)) s)"
    | (other) "lock_of (c_pc (qs_calls s ! i)) = None" "s' = goto i (CReturned (Some e)) s"
    using assms(3) by (auto simp: callDone_def split: call_pc.splits map_pc.splits)
  then show ?thesis
  proof cases
    case assign
    then have v: "v < length (qs_views s)" using pc by simp
    have l: "vh_locked (qs_views s ! v)" using locked_by(1) [OF assms(1,2) _ v] assign by simp
    show ?thesis unfolding assign(2) goto_unlock by (rule call_lock_inv [OF assms(1,2) v]) (use assign l in simp_all)
  next
    case other
    show ?thesis unfolding other(2) by (rule goto_inv [OF assms(1,2)]) (use other in simp_all)
  qed
qed

lemma newCall_inv:
  assumes "views_inv s"
  shows "views_inv (newCall view nss err s)"
proof -
  note d = views_invD [OF assms]
  let ?c = "\<lparr>c_view = view, c_namespaces = nss, c_batches = [], c_results = [], c_pc = (case err of None \<Rightarrow> CStart | Some e \<Rightarrow> CReturned (Some e))\<rparr>"
  have "locks_ok (qs_views s) (qs_calls s @ [?c])" using d(2) by (auto simp: locks_ok_def has_lock_def split: option.splits)
  moreover have "pcs_ok (qs_views s) (length (qs_batchers s)) (qs_calls s @ [?c])"
    using d(3) by (auto simp: pcs_ok_def nth_append less_Suc_eq split: option.splits)
  ultimately show ?thesis using assms by (simp add: views_inv_def newCall_def free_ok_def)
qed

lemma query_do_inv:
  assumes "views_inv s" "query_do w mv s = Some s'"
  shows "views_inv s'"
proof (cases mv)
  case (BeginView i p)
  then show ?thesis using assms makeView_inv by auto
next
  case (EndView i)
  show ?thesis
  proof (cases "qs_ids s i")
    case (Some v)
    have "v < length (qs_views s)" using views_invD(6) [OF assms(1) Some] .
    then have "views_inv (view_update v (\<lambda>h. h\<lparr>vh_ctx := ctx_cancel None (vh_ctx h)\<rparr>) (s\<lparr>qs_ids := (qs_ids s)(i := None)\<rparr>))"
      by (rule view_ctx_inv [OF assms(1)]) (simp split: if_splits)
    then show ?thesis using assms(2) EndView Some by (auto simp: removeViewID_def)
  qed (use assms EndView in \<open>auto simp: removeViewID_def\<close>)
next
  case (ViewTimeout v)
  then have "v < length (qs_views s)" "s' = view_update v (\<lambda>h. h\<lparr>vh_ctx := ctx_timeout (vh_ctx h)\<rparr>) s"
    using assms(2) by (auto split: if_splits)
  then show ?thesis using view_ctx_inv [OF assms(1), of v "qs_ids s" ctx_timeout] by simp
next
  case (CancelJoined v)
  then have "v < length (qs_views s)" "s' = view_update v (\<lambda>h. h\<lparr>vh_ctx := ctx_cancel None (vh_ctx h)\<rparr>) s"
    using assms(2) by (auto split: if_splits)
  then show ?thesis using view_ctx_inv [OF assms(1), of v "qs_ids s" "ctx_cancel None"] by simp
next
  case (Leave b)
  then have "b \<in> set (qs_leaving s)" "s' = batcher_leave b (s\<lparr>qs_leaving := remove1 b (qs_leaving s)\<rparr>)"
    using assms(2) by (auto split: if_splits)
  then show ?thesis using leave_inv [OF assms(1)] by simp
next
  case (Unlist k b)
  then have "s' = s\<lparr>qs_listing := (if qs_listing s k = Some b then (qs_listing s)(k := None) else qs_listing s)\<rparr>" using assms(2) by simp
  then show ?thesis using assms(1) by (simp add: views_inv_def free_ok_def)
next
  case (SubmitTimer q)
  then have "on_query q (\<lambda>x. Some (submit x)) s = Some s'" using assms(2) by simp
  then show ?thesis by (rule on_query_inv [OF assms(1)]) (auto simp: batch_steps(1,2))
next
  case (ExecuteBegin q)
  then have "on_query q executeBegin s = Some s'" using assms(2) by simp
  then show ?thesis by (rule on_query_inv [OF assms(1)]) (use batch_steps(3) in metis)
next
  case (ExecuteAcquired q e)
  then have "on_query q (executeAcquired e) s = Some s'" using assms(2) by simp
  then show ?thesis by (rule on_query_inv [OF assms(1)]) (rule batch_steps(4))
next
  case (ExecuteQuery q r)
  then have "on_query q (executeQuery w r) s = Some s'" using assms(2) by simp
  then show ?thesis by (rule on_query_inv [OF assms(1)]) (rule batch_steps(5))
next
  case (CallGetRows v nss)
  then show ?thesis using assms newCall_inv [OF assms(1)] by (simp add: GetRows_def) blast
next
  case (CallGetTransactionStatus v ids)
  then show ?thesis using assms newCall_inv [OF assms(1)] by (simp add: GetTransactionStatus_def) blast
next
  case (CallDone i e)
  then show ?thesis using assms callDone_inv [OF assms(1)] by (simp split: if_splits)
next
  case (CallStep i)
  then show ?thesis using assms callStep_inv [OF assms(1)] by (simp split: if_splits)
next
  case (ReleaseView v)
  then show ?thesis using assms releaseView_inv [OF assms(1)] by simp
next
  case (RetireView v)
  then show ?thesis using assms retireView_inv [OF assms(1)] by simp
next
  case ServiceDone
  then show ?thesis using assms serviceDone_inv [OF assms(1)] by simp
qed

lemma query_reachable_inv: "query_reachable w s \<Longrightarrow> views_inv s"
proof (induction rule: query_reachable.induct)
  case (start w cfg)
  show ?case
    by (auto simp: newService_def views_inv_def refs_ok_def joined_def locks_ok_def pcs_ok_def free_ok_def queries_ok_def)
next
  case (step w s mv s')
  then show ?case using query_do_inv by blast
qed

section \<open>Views and batchers in every reachable state\<close>

fun query_run :: "wire \<Rightarrow> query_move list \<Rightarrow> viewsBatcher \<Rightarrow> viewsBatcher option" where
  "query_run w [] s = Some s"
| "query_run w (mv # mvs) s = (case query_do w mv s of None \<Rightarrow> None | Some s' \<Rightarrow> query_run w mvs s')"

lemma query_run_reachable: "query_reachable w s \<Longrightarrow> query_run w mvs s = Some s' \<Longrightarrow> query_reachable w s'"
  by (induction mvs arbitrary: s) (auto split: option.splits intro: query_reachable.step)

lemma query_run_append:
  "query_run w (xs @ ys) s = (case query_run w xs s of None \<Rightarrow> None | Some s' \<Rightarrow> query_run w ys s')"
  by (induction xs arbitrary: s) (auto split: option.splits)

text \<open>A view of key \<open>k\<close> of namespace \<open>a\<close>: a client begins the view and asks for the row.\<close>

definition demo_query_config :: query_config where
  "demo_query_config = \<lparr>MinBatchKeys = 5, MaxAggregatedViews = 3, MaxActiveViews = 2, MaxViewTimeout = 1000, MaxRequestKeys = 10\<rparr>"

definition demo_given :: "query_move list" where
  "demo_given = [BeginView ''v'' \<lparr>vp_isoLevel = 0, vp_nonDeferrable = False, vp_timeoutMilliseconds = 0\<rparr>,
     CallGetRows (Some ''v'') [(''a'', [''k''])]] @ replicate 7 (CallStep 0)"

definition demo_waiting :: "query_move list" where
  "demo_waiting = demo_given @ replicate 4 (CallStep 0)"

definition demo_ending :: "query_move list" where
  "demo_ending = [EndView ''v'', ReleaseView 0, RetireView 0]"

definition query_demo :: "query_move list \<Rightarrow> viewsBatcher" where
  "query_demo mvs = the (query_run ref_wire mvs (newService demo_query_config))"

lemma query_demo_reachable:
  assumes "\<not> Option.is_none (query_run ref_wire mvs (newService demo_query_config))"
  shows "query_reachable ref_wire (query_demo mvs)"
  using assms query_run_reachable [OF query_reachable.start] by (cases "query_run ref_wire mvs (newService demo_query_config)") (auto simp: query_demo_def)

text \<open>
  C33: Whatever requests and views do, and in whichever order time-outs, cancellations and the functions
  that run when contexts end interleave: with a limit on views, the free slots and the views that have
  not ended add up to it; the reference count of a batcher is the number of views assigned to it plus
  those about to leave it, at most \<open>MaxAggregatedViews\<close>; a view is assigned to at most one batcher and
  by one request at a time. A batcher that queries have been added to and that no view is assigned to or
  about to leave has ended, and so have its queries: no database transaction outlives its views.
\<close>

theorem query_views_released:
  assumes "query_reachable w s"
  shows "(0 < MaxActiveViews (qs_config s) \<longrightarrow>
      qs_free s + length (filter (\<lambda>h. \<not> vh_released h) (qs_views s)) = MaxActiveViews (qs_config s)) \<and>
    (\<forall>b < length (qs_batchers s).
       bt_refCounter (qs_batchers s ! b) = length (filter (\<lambda>h. vh_batcher h = Some b) (qs_views s)) + count_list (qs_leaving s) b \<and>
       bt_refCounter (qs_batchers s ! b) \<le> MaxAggregatedViews (qs_config s)) \<and>
    (\<forall>v < length (qs_views s). length (filter (\<lambda>c. lock_of (c_pc c) = Some v) (qs_calls s)) \<le> 1) \<and>
    (\<forall>q \<in> set (qs_queries s). qb_batcher q \<noteq> 0 \<longrightarrow> qb_batcher q \<notin> set (qs_leaving s) \<longrightarrow>
       (\<forall>h \<in> set (qs_views s). vh_batcher h \<noteq> Some (qb_batcher q)) \<longrightarrow>
       bt_ctx (qs_batchers s ! qb_batcher q) \<noteq> Live \<and> qb_ctx q \<noteq> Live)"
proof (intro conjI impI allI ballI)
  note inv = query_reachable_inv [OF assms]
  note d = views_invD [OF inv] and r = refs_okD [OF views_invD(1) [OF inv]]
  show "qs_free s + length (filter (\<lambda>h. \<not> vh_released h) (qs_views s)) = MaxActiveViews (qs_config s)" if "0 < MaxActiveViews (qs_config s)"
    using d(4) that by (simp add: free_ok_def count_if_def)
  show "bt_refCounter (qs_batchers s ! b) = length (filter (\<lambda>h. vh_batcher h = Some b) (qs_views s)) + count_list (qs_leaving s) b"
    if "b < length (qs_batchers s)" for b
    using r(3) [OF that] by (simp add: count_if_def holds_batcher_def [abs_def])
  show "bt_refCounter (qs_batchers s ! b) \<le> MaxAggregatedViews (qs_config s)" if "b < length (qs_batchers s)" for b
    using r(5) that by simp
  show "length (filter (\<lambda>c. lock_of (c_pc c) = Some v) (qs_calls s)) \<le> 1" if "v < length (qs_views s)" for v
    using d(2) that by (auto simp: locks_ok_def count_if_def has_lock_def [abs_def] split: if_splits)
  fix q assume q: "q \<in> set (qs_queries s)" "qb_batcher q \<noteq> 0" "qb_batcher q \<notin> set (qs_leaving s)"
    "\<forall>h \<in> set (qs_views s). vh_batcher h \<noteq> Some (qb_batcher q)"
  have b: "qb_batcher q < length (qs_batchers s)" "joined (qs_views s) (qb_batcher q)"
    "bt_ctx (qs_batchers s ! qb_batcher q) \<noteq> Live \<longrightarrow> qb_ctx q \<noteq> Live"
    using d(5) q(1,2) by (auto simp: queries_ok_def in_set_conv_nth)
  have "count_if (holds_batcher (qb_batcher q)) (qs_views s) = 0"
    using q(4) by (simp add: count_if_def holds_batcher_def filter_empty_conv)
  moreover have "count_list (qs_leaving s) (qb_batcher q) = 0" using q(3) by simp
  ultimately have "bt_refCounter (qs_batchers s ! qb_batcher q) = 0" using r(3) [OF b(1)] by simp
  then show "bt_ctx (qs_batchers s ! qb_batcher q) \<noteq> Live" using r(6) [OF b(2)] by simp
  then show "qb_ctx q \<noteq> Live" using b(3) by simp
qed

theorem query_views_released_witness:
  "qs_free (query_demo demo_waiting) + length (filter (\<lambda>h. \<not> vh_released h) (qs_views (query_demo demo_waiting))) = 2 \<and>
   bt_refCounter (qs_batchers (query_demo demo_waiting) ! 1) =
     length (filter (\<lambda>h. vh_batcher h = Some 1) (qs_views (query_demo demo_waiting))) + count_list (qs_leaving (query_demo demo_waiting)) 1"
proof -
  have run: "\<not> Option.is_none (query_run ref_wire demo_waiting (newService demo_query_config))" by code_simp
  have conf: "MaxActiveViews (qs_config (query_demo demo_waiting)) = 2" "1 < length (qs_batchers (query_demo demo_waiting))"
    by code_simp+
  show ?thesis using query_views_released [OF query_demo_reachable [OF run]] conf by auto
qed

end
