(* ===== verification/Query_Answers.thy ===== *)
theory Query_Answers
  imports Query_Views
begin

text \<open>
  Answers of the query service: what a request that succeeds has got, what happens to a request whose
  view ends while it waits, and to one whose batcher ends before it has added its keys.
\<close>

section \<open>What a query reads\<close>

definition rowOf :: "database \<Rightarrow> string \<Rightarrow> bytes \<Rightarrow> Row option" where
  "rowOf db nsID k =
     (case db_ns db nsID of
        None \<Rightarrow> None
      | Some t \<Rightarrow> map_option (\<lambda>r. \<lparr>Row_Key = k, Row_Value = row_value r, Row_Version = word_of_nat (row_version r)\<rparr>) (t k))"

definition statusOf :: "wire \<Rightarrow> database \<Rightarrow> bytes \<Rightarrow> TxStatus option" where
  "statusOf w db k =
     (case tx_status db k of
        None \<Rightarrow> None
      | Some (status, height) \<Rightarrow>
          (case NewHeightFromBytes w height of
             Inl e \<Rightarrow> None
           | Inr (ht, _) \<Rightarrow> Some \<lparr>st_ref = \<lparr>ref_block_num = h_block_num ht, ref_tx_id = k, ref_tx_num = h_tx_num ht\<rparr>, st_status = status\<rparr>))"

definition answer :: "wire \<Rightarrow> database \<Rightarrow> string \<Rightarrow> bytes list \<Rightarrow> Row list \<times> TxStatus list" where
  "answer w db nsID keys =
     (if nsID \<noteq> txStatusNsID then (List.map_filter (rowOf db nsID) keys, []) else ([], List.map_filter (statusOf w db) keys))"

lemma set_uniqueKeys: "set (uniqueKeys keys) = set keys"
proof -
  have "set (fold (\<lambda>key unique. if key \<in> set unique then unique else unique @ [key]) keys acc) = set acc \<union> set keys" for acc
    by (induction keys arbitrary: acc) auto
  then show ?thesis by (simp add: uniqueKeys_def)
qed

lemma fold_rows:
  assumes "\<And>k r. f k = Some r \<Longrightarrow> key r = k"
  shows "fold (\<lambda>r m. m(key r \<mapsto> r)) (List.map_filter f ks) m k = (if k \<in> set ks \<and> f k \<noteq> None then f k else m k)"
proof (induction ks arbitrary: m)
  case (Cons a ks)
  then show ?case using assms [of a] by (cases "f a") (auto simp: map_filter_simps)
qed (simp add: map_filter_simps)

lemma unsafeQueryRows_rows:
  "unsafeQueryRows db nsID keys = Inr rows \<Longrightarrow> rows = List.map_filter (rowOf db nsID) keys"
  by (auto simp: unsafeQueryRows_def rowOf_def [abs_def] split: option.splits)

lemma readTxStatusRow_rows:
  "readTxStatusRow w db k acc = Inr acc' \<Longrightarrow> acc' = acc @ (case statusOf w db k of None \<Rightarrow> [] | Some x \<Rightarrow> [x])"
  by (auto simp: readTxStatusRow_def statusOf_def split: sum.splits option.splits prod.splits)

lemma unsafeQueryTxStatus_rows:
  assumes "unsafeQueryTxStatus w db ks = Inr rows"
  shows "rows = List.map_filter (statusOf w db) ks"
proof -
  have "loop_err (readTxStatusRow w db) ks acc = Inr rows \<Longrightarrow> rows = acc @ List.map_filter (statusOf w db) ks" for acc
  proof (induction ks arbitrary: acc)
    case (Cons k ks)
    then obtain acc' where a: "readTxStatusRow w db k acc = Inr acc'" "loop_err (readTxStatusRow w db) ks acc' = Inr rows"
      by (auto split: sum.splits)
    then show ?case
      using readTxStatusRow_rows [OF a(1)] Cons.IH [OF a(2)] by (simp add: map_filter_simps split: option.splits)
  qed (simp add: map_filter_simps)
  from this [of "[]"] assms show ?thesis by (simp add: unsafeQueryTxStatus_def)
qed

section \<open>Query batches\<close>

definition batch_ok :: "wire \<Rightarrow> namespaceQueryBatch \<Rightarrow> bool" where
  "batch_ok w q \<longleftrightarrow>
     (case qb_read q of
        None \<Rightarrow> qb_result q = None \<and> qb_statusResult q = None
      | Some db \<Rightarrow> qb_finalized q \<and> qb_pc q = Finished \<and>
          (if qb_nsID q \<noteq> txStatusNsID
           then qb_statusResult q = None \<and> (\<exists>m. qb_result q = Some m \<and> (\<forall>k \<in> set (qb_keys q). m k = rowOf db (qb_nsID q) k))
           else qb_result q = None \<and> (\<exists>m. qb_statusResult q = Some m \<and> (\<forall>k \<in> set (qb_keys q). m k = statusOf w db k)))) \<and>
     (qb_pc q = Querying \<longrightarrow> qb_finalized q)"

text \<open>A query batch keeps its namespace and batcher, only gets more keys, and keeps what it has read.\<close>

definition later :: "namespaceQueryBatch \<Rightarrow> namespaceQueryBatch \<Rightarrow> bool" where
  "later q q' \<longleftrightarrow> qb_nsID q' = qb_nsID q \<and> qb_batcher q' = qb_batcher q \<and> set (qb_keys q) \<subseteq> set (qb_keys q') \<and>
     (\<forall>db. qb_read q = Some db \<longrightarrow> qb_read q' = Some db) \<and>
     (qb_read q' = None \<and> (\<exists>e. qb_ctx q' = Ended e ContextCanceled) \<longrightarrow> (\<exists>e. qb_ctx q = Ended e ContextCanceled))"

lemma later_refl: "later q q"
  by (simp add: later_def)

lemma submit_ok: "batch_ok w q \<Longrightarrow> batch_ok w (submit q) \<and> later q (submit q)"
  by (auto simp: batch_ok_def later_def submit_def split: option.splits)

lemma executeBegin_ok: "batch_ok w q \<Longrightarrow> executeBegin q = Some q' \<Longrightarrow> batch_ok w q' \<and> later q q'"
  by (auto simp: batch_ok_def later_def executeBegin_def split: option.splits if_splits)

lemma executeAcquired_ok: "batch_ok w q \<Longrightarrow> executeAcquired e q = Some q' \<Longrightarrow> batch_ok w q' \<and> later q q'"
  by (auto simp: batch_ok_def later_def executeAcquired_def ctx_cancel_def split: option.splits if_splits go_ctx.splits)

lemma addKeys_ok: "batch_ok w q \<Longrightarrow> addKeys ks q = (ok, q') \<Longrightarrow> batch_ok w q' \<and> later q q' \<and> (ok \<longrightarrow> set ks \<subseteq> set (qb_keys q'))"
  by (auto simp: batch_ok_def later_def addKeys_def submit_def Let_def split: option.splits if_splits)

lemma executeFailed_ok: "batch_ok w q \<Longrightarrow> qb_pc q = Querying \<Longrightarrow> batch_ok w (executeFailed e q) \<and> later q (executeFailed e q)"
  by (auto simp: batch_ok_def later_def executeFailed_def ctx_cancel_def split: option.splits go_ctx.splits)

lemma executeQuery_ok:
  assumes "batch_ok w q" "executeQuery w r q = Some q'"
  shows "batch_ok w q' \<and> later q q'"
proof -
  have pc: "qb_pc q = Querying" using assms(2) by (simp add: executeQuery_def split: if_splits)
  then have q: "qb_read q = None" "qb_result q = None" "qb_statusResult q = None" "qb_finalized q"
    using assms(1) by (auto simp: batch_ok_def split: option.splits)
  note failed = executeFailed_ok [OF assms(1) pc]
  show ?thesis
  proof (cases r)
    case (Inl e)
    then show ?thesis using assms(2) failed [of e] pc by (auto simp: executeQuery_def)
  next
    case (Inr db)
    show ?thesis
    proof (cases "qb_nsID q = txStatusNsID")
      case False
      show ?thesis
      proof (cases "unsafeQueryRows db (qb_nsID q) (uniqueKeys (qb_keys q))")
        case (Inl e)
        then show ?thesis using assms(2) failed [of e] pc \<open>r = Inr db\<close> False by (auto simp: executeQuery_def)
      next
        case (Inr rows)
        let ?m = "fold (\<lambda>r m. m(Row_Key r \<mapsto> r)) rows Map.empty"
        have "?m k = rowOf db (qb_nsID q) k" if "k \<in> set (qb_keys q)" for k
          unfolding unsafeQueryRows_rows [OF Inr]
          by (subst fold_rows) (use that in \<open>auto simp: set_uniqueKeys rowOf_def split: option.splits\<close>)
        moreover have "q' = q\<lparr>qb_result := Some ?m, qb_read := Some db, qb_ctx := ctx_cancel None (qb_ctx q), qb_pc := Finished\<rparr>"
          using assms(2) pc \<open>r = Inr db\<close> False Inr by (simp add: executeQuery_def)
        ultimately show ?thesis using q False by (simp add: batch_ok_def later_def)
      qed
    next
      case True
      show ?thesis
      proof (cases "unsafeQueryTxStatus w db (uniqueKeys (qb_keys q))")
        case (Inl e)
        then show ?thesis using assms(2) failed [of e] pc \<open>r = Inr db\<close> True by (auto simp: executeQuery_def)
      next
        case (Inr rows)
        let ?m = "fold (\<lambda>r m. m(ref_tx_id (st_ref r) \<mapsto> r)) rows Map.empty"
        have "?m k = statusOf w db k" if "k \<in> set (qb_keys q)" for k
          unfolding unsafeQueryTxStatus_rows [OF Inr]
          by (subst fold_rows) (use that in \<open>auto simp: set_uniqueKeys statusOf_def split: option.splits sum.splits prod.splits\<close>)
        moreover have "q' = q\<lparr>qb_statusResult := Some ?m, qb_read := Some db, qb_ctx := ctx_cancel None (qb_ctx q), qb_pc := Finished\<rparr>"
          using assms(2) pc \<open>r = Inr db\<close> True Inr by (simp add: executeQuery_def)
        ultimately show ?thesis using q True by (simp add: batch_ok_def later_def)
      qed
    qed
  qed
qed

section \<open>Requests\<close>

definition answered :: "wire \<Rightarrow> namespaceQueryBatch list \<Rightarrow> batcher list \<Rightarrow> string \<times> bytes list \<Rightarrow> nat \<Rightarrow> Row list \<times> TxStatus list \<Rightarrow> bool" where
  "answered w qs bs ns q res \<longleftrightarrow>
     (\<exists>db. qb_read (qs ! q) = Some db \<and> res = answer w db (fst ns) (snd ns)) \<or>
     res = ([], []) \<and> bt_ctx (bs ! qb_batcher (qs ! q)) \<noteq> Live"

definition added :: "namespaceQueryBatch list \<Rightarrow> nat \<Rightarrow> string \<times> bytes list \<Rightarrow> nat \<Rightarrow> bool" where
  "added qs n ns q \<longleftrightarrow> q < length qs \<and> qb_nsID (qs ! q) = fst ns \<and> set (snd ns) \<subseteq> set (qb_keys (qs ! q)) \<and> qb_batcher (qs ! q) < n"

fun call_pc_ok :: "namespaceQueryBatch list \<Rightarrow> call \<Rightarrow> call_pc \<Rightarrow> bool" where
  "call_pc_ok qs c (CAdd b pc) \<longleftrightarrow> length (c_batches c) < length (c_namespaces c) \<and> c_results c = [] \<and>
     (\<forall>q. val_of pc = Some q \<longrightarrow> q < length qs \<and> qb_nsID (qs ! q) = fst (c_namespaces c ! length (c_batches c)) \<and> qb_batcher (qs ! q) = b)"
| "call_pc_ok qs c CWait \<longleftrightarrow> length (c_batches c) = length (c_namespaces c) \<and> length (c_results c) < length (c_namespaces c)"
| "call_pc_ok qs c (CReturned None) \<longleftrightarrow> length (c_results c) = length (c_namespaces c)"
| "call_pc_ok qs c (CReturned (Some e)) \<longleftrightarrow> True"
| "call_pc_ok qs c _ \<longleftrightarrow> c_batches c = [] \<and> c_results c = [] \<and> c_namespaces c \<noteq> []"

definition call_ok :: "wire \<Rightarrow> namespaceQueryBatch list \<Rightarrow> batcher list \<Rightarrow> call \<Rightarrow> bool" where
  "call_ok w qs bs c \<longleftrightarrow>
     length (c_results c) \<le> length (c_batches c) \<and> length (c_batches c) \<le> length (c_namespaces c) \<and>
     (\<forall>j < length (c_batches c). added qs (length bs) (c_namespaces c ! j) (c_batches c ! j)) \<and>
     (\<forall>j < length (c_results c). answered w qs bs (c_namespaces c ! j) (c_batches c ! j) (c_results c ! j)) \<and>
     call_pc_ok qs c (c_pc c)"

definition batches_ok :: "wire \<Rightarrow> namespaceQueryBatch list \<Rightarrow> batcher list \<Rightarrow> bool" where
  "batches_ok w qs bs \<longleftrightarrow>
     (\<forall>q < length qs. batch_ok w (qs ! q) \<and> qb_batcher (qs ! q) < length bs \<and>
        (qb_read (qs ! q) = None \<and> (\<exists>e. qb_ctx (qs ! q) = Ended e ContextCanceled) \<longrightarrow> bt_ctx (bs ! qb_batcher (qs ! q)) \<noteq> Live)) \<and>
     (\<forall>b < length bs. \<forall>nsID q. bt_latest (bs ! b) nsID = Some q \<longrightarrow> q < length qs \<and> qb_nsID (qs ! q) = nsID \<and> qb_batcher (qs ! q) = b)"

definition calls_ok :: "wire \<Rightarrow> namespaceQueryBatch list \<Rightarrow> batcher list \<Rightarrow> call list \<Rightarrow> bool" where
  "calls_ok w qs bs cs \<longleftrightarrow> (\<forall>i < length cs. call_ok w qs bs (cs ! i))"

definition answers_inv :: "wire \<Rightarrow> viewsBatcher \<Rightarrow> bool" where
  "answers_inv w s \<longleftrightarrow> batches_ok w (qs_queries s) (qs_batchers s) \<and> calls_ok w (qs_queries s) (qs_batchers s) (qs_calls s)"

text \<open>What can happen to the query batches and to the batchers.\<close>

definition evolves :: "namespaceQueryBatch list \<Rightarrow> batcher list \<Rightarrow> namespaceQueryBatch list \<Rightarrow> batcher list \<Rightarrow> bool" where
  "evolves qs bs qs' bs' \<longleftrightarrow> length qs \<le> length qs' \<and> length bs \<le> length bs' \<and>
     (\<forall>q < length qs. qb_nsID (qs' ! q) = qb_nsID (qs ! q) \<and> qb_batcher (qs' ! q) = qb_batcher (qs ! q) \<and>
        set (qb_keys (qs ! q)) \<subseteq> set (qb_keys (qs' ! q)) \<and> (\<forall>db. qb_read (qs ! q) = Some db \<longrightarrow> qb_read (qs' ! q) = Some db)) \<and>
     (\<forall>b < length bs. bt_ctx (bs ! b) \<noteq> Live \<longrightarrow> bt_ctx (bs' ! b) \<noteq> Live)"

lemma evolvesD:
  assumes "evolves qs bs qs' bs'"
  shows "length qs \<le> length qs'" "length bs \<le> length bs'"
    "q < length qs \<Longrightarrow> qb_nsID (qs' ! q) = qb_nsID (qs ! q)" "q < length qs \<Longrightarrow> qb_batcher (qs' ! q) = qb_batcher (qs ! q)"
    "q < length qs \<Longrightarrow> set (qb_keys (qs ! q)) \<subseteq> set (qb_keys (qs' ! q))"
    "q < length qs \<Longrightarrow> qb_read (qs ! q) = Some db \<Longrightarrow> qb_read (qs' ! q) = Some db"
    "b < length bs \<Longrightarrow> bt_ctx (bs ! b) \<noteq> Live \<Longrightarrow> bt_ctx (bs' ! b) \<noteq> Live"
  using assms unfolding evolves_def by blast+

lemma added_mono: "added qs (length bs) ns q \<Longrightarrow> evolves qs bs qs' bs' \<Longrightarrow> added qs' (length bs') ns q"
  using evolvesD(1-5) [of qs bs qs' bs'] unfolding added_def by (metis less_le_trans order_trans)

lemma answered_mono:
  assumes "answered w qs bs ns q res" "added qs (length bs) ns q" "evolves qs bs qs' bs'"
  shows "answered w qs' bs' ns q res"
  using assms(1,2) evolvesD(4,6,7) [OF assms(3)] unfolding answered_def added_def by metis

lemma call_pc_ok_mono:
  assumes "call_pc_ok qs c pc" "evolves qs bs qs' bs'"
  shows "call_pc_ok qs' c pc"
  using assms(1) evolvesD(1,3,4) [OF assms(2)]
  by (cases "(qs, c, pc)" rule: call_pc_ok.cases) (auto intro: less_le_trans)

lemma call_ok_mono:
  assumes "call_ok w qs bs c" "evolves qs bs qs' bs'"
  shows "call_ok w qs' bs' c"
proof -
  have "added qs (length bs) (c_namespaces c ! j) (c_batches c ! j)" if "j < length (c_batches c)" for j
    using assms(1) that by (simp add: call_ok_def)
  moreover have "length (c_results c) \<le> length (c_batches c)" using assms(1) by (simp add: call_ok_def)
  ultimately show ?thesis
    using assms(1) added_mono [OF _ assms(2)] answered_mono [OF _ _ assms(2)] call_pc_ok_mono [OF _ assms(2)]
    unfolding call_ok_def by (metis less_le_trans)
qed

lemma calls_ok_mono: "calls_ok w qs bs cs \<Longrightarrow> evolves qs bs qs' bs' \<Longrightarrow> calls_ok w qs' bs' cs"
  unfolding calls_ok_def using call_ok_mono by blast

lemma calls_ok_update: "calls_ok w qs bs cs \<Longrightarrow> call_ok w qs bs c \<Longrightarrow> calls_ok w qs bs (cs[i := c])"
  unfolding calls_ok_def by (metis length_list_update nth_list_update_eq nth_list_update_neq)

lemma evolves_refl: "evolves qs bs qs bs"
  by (simp add: evolves_def)

lemma batches_okD:
  assumes "batches_ok w qs bs"
  shows "q < length qs \<Longrightarrow> batch_ok w (qs ! q)" "q < length qs \<Longrightarrow> qb_batcher (qs ! q) < length bs"
    "q < length qs \<Longrightarrow> qb_read (qs ! q) = None \<Longrightarrow> qb_ctx (qs ! q) = Ended e ContextCanceled \<Longrightarrow> bt_ctx (bs ! qb_batcher (qs ! q)) \<noteq> Live"
    "b < length bs \<Longrightarrow> bt_latest (bs ! b) nsID = Some q \<Longrightarrow> q < length qs \<and> qb_nsID (qs ! q) = nsID \<and> qb_batcher (qs ! q) = b"
  using assms unfolding batches_ok_def by blast+

lemma batches_okI:
  assumes "\<And>q. q < length qs \<Longrightarrow> batch_ok w (qs ! q)" "\<And>q. q < length qs \<Longrightarrow> qb_batcher (qs ! q) < length bs"
    "\<And>q e. q < length qs \<Longrightarrow> qb_read (qs ! q) = None \<Longrightarrow> qb_ctx (qs ! q) = Ended e ContextCanceled \<Longrightarrow> bt_ctx (bs ! qb_batcher (qs ! q)) \<noteq> Live"
    "\<And>b nsID q. b < length bs \<Longrightarrow> bt_latest (bs ! b) nsID = Some q \<Longrightarrow> q < length qs \<and> qb_nsID (qs ! q) = nsID \<and> qb_batcher (qs ! q) = b"
  shows "batches_ok w qs bs"
  unfolding batches_ok_def using assms by blast

text \<open>A step of one query batch.\<close>

lemma query_step_ok:
  assumes "batches_ok w qs bs" "batch_ok w x" "later (qs ! q) x"
  shows "batches_ok w (qs[q := x]) bs" "evolves qs bs (qs[q := x]) bs"
proof -
  note b = batches_okD [OF assms(1)] and l = assms(3) [unfolded later_def]
  show "batches_ok w (qs[q := x]) bs"
  proof (rule batches_okI)
    fix i assume i: "i < length (qs[q := x])"
    show "batch_ok w (qs[q := x] ! i)" using b(1) [of i] i assms(2) by (cases "i = q") simp_all
    show "qb_batcher (qs[q := x] ! i) < length bs" using b(2) [of i] i l by (cases "i = q") simp_all
    fix e assume "qb_read (qs[q := x] ! i) = None" "qb_ctx (qs[q := x] ! i) = Ended e ContextCanceled"
    then show "bt_ctx (bs ! qb_batcher (qs[q := x] ! i)) \<noteq> Live"
      using b(3) [of i] i l by (cases "i = q") (auto dest: spec [of _ "the (qb_read (qs ! q))"] split: option.splits)
  next
    fix y nsID i assume "y < length bs" "bt_latest (bs ! y) nsID = Some i"
    then show "i < length (qs[q := x]) \<and> qb_nsID (qs[q := x] ! i) = nsID \<and> qb_batcher (qs[q := x] ! i) = y"
      using b(4) [of y nsID i] l by (cases "i = q") auto
  qed
  show "evolves qs bs (qs[q := x]) bs"
    unfolding evolves_def
  proof (intro conjI allI impI)
    fix i assume i: "i < length qs"
    show "qb_nsID (qs[q := x] ! i) = qb_nsID (qs ! i)" "qb_batcher (qs[q := x] ! i) = qb_batcher (qs ! i)"
      "set (qb_keys (qs ! i)) \<subseteq> set (qb_keys (qs[q := x] ! i))" using i l by (cases "i = q"; simp)+
    show "qb_read (qs[q := x] ! i) = Some db" if "qb_read (qs ! i) = Some db" for db using i l that by (cases "i = q") simp_all
  qed simp_all
qed

text \<open>Contexts of batchers end, and with them those of their query batches.\<close>

lemma ctx_step_ok:
  assumes "batches_ok w qs bs" "length qs' = length qs" "length bs' = length bs"
    and "\<And>b. b < length bs \<Longrightarrow> bt_latest (bs' ! b) = bt_latest (bs ! b) \<and> (bt_ctx (bs ! b) \<noteq> Live \<longrightarrow> bt_ctx (bs' ! b) \<noteq> Live)"
    and "\<And>q. q < length qs \<Longrightarrow> \<exists>c. qs' ! q = (qs ! q)\<lparr>qb_ctx := c\<rparr> \<and> (c = qb_ctx (qs ! q) \<or> bt_ctx (bs' ! qb_batcher (qs ! q)) \<noteq> Live)"
  shows "batches_ok w qs' bs'" "evolves qs bs qs' bs'"
proof -
  note b = batches_okD [OF assms(1)]
  have e: "qb_nsID (qs' ! q) = qb_nsID (qs ! q)" "qb_batcher (qs' ! q) = qb_batcher (qs ! q)" "qb_keys (qs' ! q) = qb_keys (qs ! q)"
    "qb_read (qs' ! q) = qb_read (qs ! q)" "batch_ok w (qs' ! q) = batch_ok w (qs ! q)"
    "qb_ctx (qs' ! q) = qb_ctx (qs ! q) \<or> bt_ctx (bs' ! qb_batcher (qs ! q)) \<noteq> Live" if "q < length qs" for q
    using assms(5) [OF that] by (auto simp: batch_ok_def cong: option.case_cong)
  show "batches_ok w qs' bs'"
  proof (rule batches_okI)
    fix q assume q: "q < length qs'"
    then have q': "q < length qs" by (simp add: assms(2))
    show "batch_ok w (qs' ! q)" using b(1) [OF q'] e(5) [OF q'] by simp
    show "qb_batcher (qs' ! q) < length bs'" using b(2) [OF q'] e(2) [OF q'] assms(3) by simp
    show "bt_ctx (bs' ! qb_batcher (qs' ! q)) \<noteq> Live" if "qb_read (qs' ! q) = None" "qb_ctx (qs' ! q) = Ended x ContextCanceled" for x
      using b(2,3) [OF q'] e [OF q'] assms(4) that by metis
  next
    fix y nsID i assume "y < length bs'" "bt_latest (bs' ! y) nsID = Some i"
    then show "i < length qs' \<and> qb_nsID (qs' ! i) = nsID \<and> qb_batcher (qs' ! i) = y"
      using b(4) [of y nsID i] e(1,2) [of i] assms(2,3,4) by metis
  qed
  show "evolves qs bs qs' bs'" unfolding evolves_def using e assms(2-4) by simp
qed

lemma append_batcher_ok:
  assumes "batches_ok w qs bs" "bt_latest x = Map.empty"
  shows "batches_ok w qs (bs @ [x])" "evolves qs bs qs (bs @ [x])"
proof -
  note b = batches_okD [OF assms(1)]
  show "batches_ok w qs (bs @ [x])"
  proof (rule batches_okI)
    fix q assume q: "q < length qs"
    show "batch_ok w (qs ! q)" "qb_batcher (qs ! q) < length (bs @ [x])" using b(1,2) [OF q] by simp_all
    show "bt_ctx ((bs @ [x]) ! qb_batcher (qs ! q)) \<noteq> Live" if "qb_read (qs ! q) = None" "qb_ctx (qs ! q) = Ended e ContextCanceled" for e
      using b(2,3) [OF q] that by (simp add: nth_append)
  next
    fix y nsID i assume "y < length (bs @ [x])" "bt_latest ((bs @ [x]) ! y) nsID = Some i"
    then show "i < length qs \<and> qb_nsID (qs ! i) = nsID \<and> qb_batcher (qs ! i) = y"
      using b(4) [of y nsID i] assms(2) by (auto simp: nth_append less_Suc_eq split: if_splits)
  qed
  show "evolves qs bs qs (bs @ [x])" by (simp add: evolves_def nth_append)
qed

lemma append_query_ok:
  fixes nsID m
  assumes "batches_ok w qs bs" "b < length bs"
  defines "x \<equiv> \<lparr>qb_batcher = b, qb_ctx = bt_ctx (bs ! b), qb_nsID = nsID, qb_keys = [], qb_minSize = m, qb_pc = Unsubmitted,
      qb_finalized = False, qb_result = None, qb_statusResult = None, qb_read = None\<rparr>"
    and "y \<equiv> (bs ! b)\<lparr>bt_latest := (bt_latest (bs ! b))(nsID \<mapsto> length qs)\<rparr>"
  shows "batches_ok w (qs @ [x]) (bs[b := y])" "evolves qs bs (qs @ [x]) (bs[b := y])"
proof -
  note d = batches_okD [OF assms(1)]
  have c: "bt_ctx (bs[b := y] ! i) = bt_ctx (bs ! i)" for i using assms(2) by (cases "i = b") (simp_all add: y_def)
  have x: "batch_ok w x" "qb_batcher x = b" "qb_nsID x = nsID" "qb_ctx x = bt_ctx (bs ! b)" by (simp_all add: x_def batch_ok_def)
  show "batches_ok w (qs @ [x]) (bs[b := y])"
  proof (rule batches_okI)
    fix q assume q: "q < length (qs @ [x])"
    show "batch_ok w ((qs @ [x]) ! q)" "qb_batcher ((qs @ [x]) ! q) < length (bs[b := y])"
      using d(1,2) [of q] q x assms(2) by (auto simp: nth_append less_Suc_eq)
    show "bt_ctx (bs[b := y] ! qb_batcher ((qs @ [x]) ! q)) \<noteq> Live"
      if "qb_read ((qs @ [x]) ! q) = None" "qb_ctx ((qs @ [x]) ! q) = Ended e ContextCanceled" for e
      using d(3) [of q e] q x that by (auto simp: c nth_append less_Suc_eq split: if_splits)
  next
    fix z ns q assume z: "z < length (bs[b := y])" "bt_latest (bs[b := y] ! z) ns = Some q"
    then show "q < length (qs @ [x]) \<and> qb_nsID ((qs @ [x]) ! q) = ns \<and> qb_batcher ((qs @ [x]) ! q) = z"
      using d(4) [of z ns q] assms(2) x by (cases "z = b") (auto simp: y_def nth_append split: if_splits)
  qed
  show "evolves qs bs (qs @ [x]) (bs[b := y])" by (simp add: evolves_def nth_append c)
qed

section \<open>Steps\<close>

lemma answers_frame:
  "answers_inv w s \<Longrightarrow> qs_queries s' = qs_queries s \<Longrightarrow> qs_batchers s' = qs_batchers s \<Longrightarrow> qs_calls s' = qs_calls s \<Longrightarrow> answers_inv w s'"
  by (simp add: answers_inv_def)

lemma answers_invI:
  assumes "answers_inv w s" "batches_ok w (qs_queries s') (qs_batchers s')"
    "evolves (qs_queries s) (qs_batchers s) (qs_queries s') (qs_batchers s')" "qs_calls s' = qs_calls s"
  shows "answers_inv w s'"
  using assms calls_ok_mono by (auto simp: answers_inv_def)

lemma answers_update:
  "answers_inv w s \<Longrightarrow> call_ok w (qs_queries s) (qs_batchers s) c \<Longrightarrow> answers_inv w (s\<lparr>qs_calls := (qs_calls s)[i := c]\<rparr>)"
  using calls_ok_update by (auto simp: answers_inv_def)

lemma answers_call: "answers_inv w s \<Longrightarrow> i < length (qs_calls s) \<Longrightarrow> call_ok w (qs_queries s) (qs_batchers s) (qs_calls s ! i)"
  by (simp add: answers_inv_def calls_ok_def)

lemma answers_goto:
  assumes "answers_inv w s" "i < length (qs_calls s)" "call_pc_ok (qs_queries s) (qs_calls s ! i) pc"
  shows "answers_inv w (goto i pc s)"
proof -
  have p: "call_pc_ok qs (c\<lparr>c_pc := pc\<rparr>) pc' = call_pc_ok qs c pc'" for qs c pc'
    by (cases "(qs, c, pc')" rule: call_pc_ok.cases) simp_all
  have "call_ok w (qs_queries s) (qs_batchers s) ((qs_calls s ! i)\<lparr>c_pc := pc\<rparr>)"
    using answers_call [OF assms(1,2)] assms(3) by (simp add: call_ok_def p)
  then show ?thesis using answers_update [OF assms(1)] by (simp add: goto_def call_update_def)
qed

lemma answers_view_update: "answers_inv w s \<Longrightarrow> answers_inv w (view_update v f s)"
  by (erule answers_frame) (simp_all add: view_update_def)

lemma answers_on_query:
  assumes "answers_inv w s" "on_query q f s = Some s'"
    and "\<And>x. q < length (qs_queries s) \<Longrightarrow> f (qs_queries s ! q) = Some x \<Longrightarrow> batch_ok w x \<and> later (qs_queries s ! q) x"
  shows "answers_inv w s'"
proof -
  obtain x where x: "q < length (qs_queries s)" "f (qs_queries s ! q) = Some x" "s' = s\<lparr>qs_queries := (qs_queries s)[q := x]\<rparr>"
    using assms(2) by (auto simp: on_query_def query_update_def split: if_splits)
  have b: "batches_ok w (qs_queries s) (qs_batchers s)" using assms(1) by (simp add: answers_inv_def)
  show ?thesis
    by (rule answers_invI [OF assms(1)]) (use query_step_ok [OF b] assms(3) [OF x(1,2)] x(3) in simp_all)
qed

lemma answers_leave:
  assumes "answers_inv w s" "b < length (qs_batchers s)"
  shows "answers_inv w (batcher_leave b (s\<lparr>qs_leaving := L\<rparr>))"
proof -
  let ?s = "batcher_leave b (s\<lparr>qs_leaving := L\<rparr>)" and ?b = "qs_batchers s ! b"
  have b: "batches_ok w (qs_queries s) (qs_batchers s)" using assms by (simp add: answers_inv_def)
  let ?z = "bt_refCounter ?b - 1 = 0" and ?c = "ctx_cancel None (bt_ctx ?b)"
  have s': "qs_batchers ?s = (qs_batchers s)[b := ?b\<lparr>bt_refCounter := bt_refCounter ?b - 1, bt_ctx := (if ?z then ?c else bt_ctx ?b)\<rparr>]"
    "qs_queries ?s = map (\<lambda>q. if ?z \<and> qb_batcher q = b then q\<lparr>qb_ctx := ctx_inherit ?c (qb_ctx q)\<rparr> else q) (qs_queries s)" "qs_calls ?s = qs_calls s"
    using assms(2) by (simp_all add: batcher_leave_def batcher_cancel_def batcher_update_def Let_def)
  have ctx: "\<exists>c. qs_queries ?s ! q = (qs_queries s ! q)\<lparr>qb_ctx := c\<rparr> \<and>
      (c = qb_ctx (qs_queries s ! q) \<or> bt_ctx (qs_batchers ?s ! qb_batcher (qs_queries s ! q)) \<noteq> Live)" if "q < length (qs_queries s)" for q
    by (rule exI [of _ "qb_ctx (qs_queries ?s ! q)"]) (use that assms(2) in \<open>simp add: s'\<close>)
  have bts: "bt_latest (qs_batchers ?s ! x) = bt_latest (qs_batchers s ! x) \<and> (bt_ctx (qs_batchers s ! x) \<noteq> Live \<longrightarrow> bt_ctx (qs_batchers ?s ! x) \<noteq> Live)"
    if "x < length (qs_batchers s)" for x
    using that by (cases "x = b") (simp_all add: s')
  show ?thesis
    by (rule answers_invI [OF assms(1) ctx_step_ok [OF b _ _ bts ctx]]) (simp_all add: s')
qed

lemma answers_serviceDone:
  assumes "answers_inv w s"
  shows "answers_inv w (serviceDone s)"
proof -
  let ?s = "serviceDone s" and ?c = "ctx_cancel None (qs_ctx s)"
  have b: "batches_ok w (qs_queries s) (qs_batchers s)" using assms by (simp add: answers_inv_def)
  have s': "qs_batchers ?s = map (\<lambda>b. b\<lparr>bt_ctx := ctx_inherit ?c (bt_ctx b)\<rparr>) (qs_batchers s)"
    "qs_queries ?s = map (\<lambda>q. q\<lparr>qb_ctx := ctx_inherit ?c (qb_ctx q)\<rparr>) (qs_queries s)" "qs_calls ?s = qs_calls s"
    by (simp_all add: serviceDone_def Let_def)
  have ctx: "\<exists>c. qs_queries ?s ! q = (qs_queries s ! q)\<lparr>qb_ctx := c\<rparr> \<and>
      (c = qb_ctx (qs_queries s ! q) \<or> bt_ctx (qs_batchers ?s ! qb_batcher (qs_queries s ! q)) \<noteq> Live)" if "q < length (qs_queries s)" for q
    by (rule exI [of _ "qb_ctx (qs_queries ?s ! q)"]) (use that batches_okD(2) [OF b that] in \<open>simp add: s' ctx_inherit_ended\<close>)
  have bts: "bt_latest (qs_batchers ?s ! x) = bt_latest (qs_batchers s ! x) \<and> (bt_ctx (qs_batchers s ! x) \<noteq> Live \<longrightarrow> bt_ctx (qs_batchers ?s ! x) \<noteq> Live)"
    if "x < length (qs_batchers s)" for x
    using that by (simp add: s' ctx_inherit_ended)
  show ?thesis
    by (rule answers_invI [OF assms ctx_step_ok [OF b _ _ bts ctx]]) (simp_all add: s')
qed

lemma answers_newCall:
  assumes "answers_inv w s" "err = None \<Longrightarrow> nss \<noteq> []"
  shows "answers_inv w (newCall view nss err s)"
  using assms by (auto simp: answers_inv_def calls_ok_def newCall_def nth_append less_Suc_eq call_ok_def split: option.splits)

text \<open>The rows of a batch whose context has ended without an error.\<close>

lemma waitForRows_answered:
  assumes "batches_ok w qs bs" "added qs (length bs) ns q" "waitForRows (snd ns) (qs ! q) = Some (Inr res)"
  shows "answered w qs bs ns q res"
proof -
  let ?q = "qs ! q"
  have q: "q < length qs" "qb_nsID ?q = fst ns" "set (snd ns) \<subseteq> set (qb_keys ?q)" using assms(2) by (simp_all add: added_def)
  obtain e where e: "qb_ctx ?q = Ended e ContextCanceled"
    and res: "res = (case qb_result ?q of None \<Rightarrow> [] | Some m \<Rightarrow> List.map_filter m (snd ns),
      case qb_statusResult ?q of None \<Rightarrow> [] | Some m \<Rightarrow> List.map_filter m (snd ns))"
    using assms(3) by (auto simp: waitForRows_def split: go_ctx.splits if_splits)
  have ok: "batch_ok w ?q" using batches_okD(1) [OF assms(1) q(1)] .
  have flt: "List.map_filter m (snd ns) = List.map_filter f (snd ns)" if "\<forall>k \<in> set (qb_keys ?q). m k = f k" for m and f :: "bytes \<Rightarrow> 'x option"
    using that q(3) by (auto simp: List.map_filter_def intro!: map_cong filter_cong)
  show ?thesis
  proof (cases "qb_read ?q")
    case None
    then show ?thesis using ok res batches_okD(3) [OF assms(1) q(1) None e] by (simp add: answered_def batch_ok_def)
  next
    case (Some db)
    show ?thesis
    proof (cases "qb_nsID ?q = txStatusNsID")
      case True
      then obtain m where "qb_result ?q = None" "qb_statusResult ?q = Some m" "\<forall>k \<in> set (qb_keys ?q). m k = statusOf w db k"
        using ok Some by (auto simp: batch_ok_def)
      then show ?thesis using Some True res flt [of m "statusOf w db"] q(2) by (simp add: answered_def answer_def)
    next
      case False
      then obtain m where "qb_statusResult ?q = None" "qb_result ?q = Some m" "\<forall>k \<in> set (qb_keys ?q). m k = rowOf db (qb_nsID ?q) k"
        using ok Some by (auto simp: batch_ok_def)
      then show ?thesis using Some False res flt [of m "rowOf db (qb_nsID ?q)"] q(2) by (simp add: answered_def answer_def)
    qed
  qed
qed

lemma answers_join:
  assumes "answers_inv w s" "join b v s = (ok, s')" "b < length (qs_batchers s)"
  shows "answers_inv w s'" "qs_queries s' = qs_queries s" "qs_calls s' = qs_calls s"
proof -
  let ?b = "qs_batchers s ! b"
  show e: "qs_queries s' = qs_queries s" "qs_calls s' = qs_calls s"
    using assms(2) by (auto simp: join_def Let_def view_update_def batcher_update_def split: if_splits)
  have "qs_batchers s' = qs_batchers s \<or> qs_batchers s' = (qs_batchers s)[b := ?b\<lparr>bt_refCounter := bt_refCounter ?b + 1\<rparr>]"
    using assms(2) by (auto simp: join_def Let_def view_update_def batcher_update_def split: if_splits)
  then have l: "length (qs_batchers s') = length (qs_batchers s)"
    and bts: "\<And>x. bt_latest (qs_batchers s' ! x) = bt_latest (qs_batchers s ! x) \<and> (bt_ctx (qs_batchers s ! x) \<noteq> Live \<longrightarrow> bt_ctx (qs_batchers s' ! x) \<noteq> Live)"
    using assms(3) by (auto simp: nth_list_update split: if_splits)
  have b: "batches_ok w (qs_queries s) (qs_batchers s)" using assms(1) by (simp add: answers_inv_def)
  have ctx: "\<exists>c. qs_queries s' ! q = (qs_queries s ! q)\<lparr>qb_ctx := c\<rparr> \<and>
      (c = qb_ctx (qs_queries s ! q) \<or> bt_ctx (qs_batchers s' ! qb_batcher (qs_queries s ! q)) \<noteq> Live)" for q
    by (rule exI [of _ "qb_ctx (qs_queries s ! q)"]) (simp add: e)
  show "answers_inv w s'"
    by (rule answers_invI [OF assms(1) ctx_step_ok [OF b _ l bts ctx]]) (simp_all add: e)
qed

lemma answers_updateOrCreate:
  assumes "views_inv s" "answers_inv w s" "i < length (qs_calls s)" "c_pc (qs_calls s ! i) = CAssign v pc"
  shows "answers_inv w (updateOrCreateBatcher i v pc s)"
proof -
  have ns: "c_batches (qs_calls s ! i) = [] \<and> c_results (qs_calls s ! i) = [] \<and> c_namespaces (qs_calls s ! i) \<noteq> []"
    using answers_call [OF assms(2,3)] assms(4) by (simp add: call_ok_def)
  have g: "answers_inv w (goto i pc' s')" if "answers_inv w s'" "qs_calls s' = qs_calls s" "pc' = CCheck v \<or> (\<exists>x. pc' = CAssign v x)" for pc' s'
    using answers_goto [OF that(1), of i pc'] that(2,3) assms(3) ns by auto
  have b: "batches_ok w (qs_queries s) (qs_batchers s)" using assms(2) by (simp add: answers_inv_def)
  show ?thesis
  proof (cases pc)
    case MLoad
    then show ?thesis using g [OF assms(2)] by (simp add: updateOrCreateBatcher_def Let_def)
  next
    case (MUpdate val)
    show ?thesis
    proof (cases val)
      case None
      then show ?thesis using MUpdate g [OF assms(2)] by (simp add: updateOrCreateBatcher_def Let_def)
    next
      case (Some x)
      obtain ok s1 where j: "join x v s = (ok, s1)" by (cases "join x v s")
      have "x < length (qs_batchers s)" using pcs_okD [OF views_invD(3) [OF assms(1)] assms(3)] assms(4) MUpdate Some by simp
      then have "answers_inv w s1" "qs_calls s1 = qs_calls s" using answers_join [OF assms(2) j] by simp_all
      then show ?thesis using g MUpdate Some j by (cases ok) (simp_all add: updateOrCreateBatcher_def Let_def)
    qed
  next
    case (MStore val)
    obtain listing assigned val' where m: "mapStore (viewParametersKey (vh_params (qs_views s ! v))) val (length (qs_batchers s)) (qs_listing s) = (listing, assigned, val')"
      by (metis prod_cases3)
    let ?x = "\<lparr>bt_ctx = qs_ctx s, bt_refCounter = 0, bt_latest = Map.empty\<rparr>"
    let ?s = "s\<lparr>qs_listing := listing, qs_batchers := qs_batchers s @ [?x]\<rparr>"
    have "answers_inv w ?s"
      by (rule answers_invI [OF assms(2)]) (use append_batcher_ok [OF b, of ?x] in simp_all)
    then show ?thesis using MStore m g g [OF assms(2)] by (cases assigned) (simp_all add: updateOrCreateBatcher_def Let_def)
  qed
qed

lemma answers_addNamespaceKeys:
  assumes "views_inv s" "answers_inv w s" "i < length (qs_calls s)" "c_pc (qs_calls s ! i) = CAdd b pc"
  shows "answers_inv w (batcher_addNamespaceKeys i b pc s)"
proof -
  let ?c = "qs_calls s ! i" and ?qs = "qs_queries s"
  obtain nsID keys where nk: "c_namespaces ?c ! length (c_batches ?c) = (nsID, keys)" by (metis prod.exhaust)
  have b: "batches_ok w ?qs (qs_batchers s)" using assms(2) by (simp add: answers_inv_def)
  note d = batches_okD [OF b] and ok = answers_call [OF assms(2,3)]
  have pc: "length (c_batches ?c) < length (c_namespaces ?c)" "c_results ?c = []"
    "\<And>q. val_of pc = Some q \<Longrightarrow> q < length ?qs \<and> qb_nsID (?qs ! q) = nsID \<and> qb_batcher (?qs ! q) = b"
    using ok assms(4) nk by (simp_all add: call_ok_def)
  have bb: "b < length (qs_batchers s)" using pcs_okD [OF views_invD(3) [OF assms(1)] assms(3)] assms(4) by simp
  have g: "answers_inv w (goto i (CAdd b pc') s')"
    if "answers_inv w s'" "qs_calls s' = qs_calls s"
      "\<And>q. val_of pc' = Some q \<Longrightarrow> q < length (qs_queries s') \<and> qb_nsID (qs_queries s' ! q) = nsID \<and> qb_batcher (qs_queries s' ! q) = b" for pc' s'
    by (rule answers_goto [OF that(1)]) (use that assms(3) pc nk in simp_all)
  show ?thesis
  proof (cases pc)
    case MLoad
    then show ?thesis using g [OF assms(2), of "MUpdate (bt_latest (qs_batchers s ! b) nsID)"] d(4) [OF bb] nk by (simp add: batcher_addNamespaceKeys_def Let_def)
  next
    case (MUpdate val)
    show ?thesis
    proof (cases val)
      case None
      then show ?thesis using MUpdate g [OF assms(2), of "MStore None"] nk by (simp add: batcher_addNamespaceKeys_def Let_def)
    next
      case (Some q)
      then have q: "q < length ?qs" "qb_nsID (?qs ! q) = nsID" "qb_batcher (?qs ! q) = b" using pc(3) MUpdate by simp_all
      obtain added' q' where a: "addKeys keys (?qs ! q) = (added', q')" by (cases "addKeys keys (?qs ! q)")
      note k = addKeys_ok [OF d(1) [OF q(1)] a]
      show ?thesis
      proof (cases added')
        case True
        let ?s = "s\<lparr>qs_queries := ?qs[q := q']\<rparr>"
        let ?c' = "?c\<lparr>c_batches := c_batches ?c @ [q],
          c_pc := (if Suc (length (c_batches ?c)) = length (c_namespaces ?c) then CWait else CAdd b MLoad)\<rparr>"
        have ev: "evolves ?qs (qs_batchers s) (?qs[q := q']) (qs_batchers s)" using query_step_ok(2) [OF b] k by blast
        have s: "answers_inv w ?s" by (rule answers_invI [OF assms(2)]) (use query_step_ok(1) [OF b] k ev in simp_all)
        have ok': "call_ok w (?qs[q := q']) (qs_batchers s) ?c" by (rule call_ok_mono [OF ok ev])
        have "added (?qs[q := q']) (length (qs_batchers s)) (nsID, keys) q"
          using q k True bb by (simp add: added_def later_def)
        then have "added (?qs[q := q']) (length (qs_batchers s)) (c_namespaces ?c ! j) ((c_batches ?c @ [q]) ! j)" if "j < Suc (length (c_batches ?c))" for j
          using ok' that nk by (auto simp: call_ok_def nth_append less_Suc_eq)
        then have "call_ok w (?qs[q := q']) (qs_batchers s) ?c'" using pc by (auto simp: call_ok_def)
        then show ?thesis
          using answers_update [OF s, of ?c' i] True MUpdate Some a nk by (simp add: batcher_addNamespaceKeys_def Let_def call_update_def query_update_def)
      next
        case False
        then show ?thesis using MUpdate Some a nk g [OF assms(2), of "MStore (Some q)"] q by (simp add: batcher_addNamespaceKeys_def Let_def)
      qed
    qed
  next
    case (MStore val)
    let ?B = "qs_batchers s ! b"
    obtain latest assigned val' where m: "mapStore nsID val (length ?qs) (bt_latest ?B) = (latest, assigned, val')" by (metis prod_cases3)
    show ?thesis
    proof (cases assigned)
      case True
      then have l: "latest = (bt_latest ?B)(nsID \<mapsto> length ?qs)" "val' = Some (length ?qs)" using mapStore_vals(4) [OF m, of "\<lambda>b. True"] by simp_all
      let ?q = "\<lparr>qb_batcher = b, qb_ctx = bt_ctx ?B, qb_nsID = nsID, qb_keys = [], qb_minSize = MinBatchKeys (qs_config s), qb_pc = Unsubmitted,
        qb_finalized = False, qb_result = None, qb_statusResult = None, qb_read = None\<rparr>"
      let ?s = "s\<lparr>qs_queries := ?qs @ [?q], qs_batchers := (qs_batchers s)[b := ?B\<lparr>bt_latest := latest\<rparr>]\<rparr>"
      have "answers_inv w ?s"
        by (rule answers_invI [OF assms(2)]) (use append_query_ok [OF b bb, of nsID "MinBatchKeys (qs_config s)"] l in simp_all)
      then have "answers_inv w (goto i (CAdd b (MUpdate val')) ?s)" by (rule g) (simp_all add: l nth_append)
      then show ?thesis using True MStore m nk by (simp add: batcher_addNamespaceKeys_def Let_def batcher_update_def)
    next
      case False
      then have "val' = bt_latest ?B nsID" using mapStore_vals(5) [OF m, of "\<lambda>b. True"] by simp
      then show ?thesis using False MStore m nk g [OF assms(2), of "MUpdate val'"] d(4) [OF bb] by (simp add: batcher_addNamespaceKeys_def Let_def)
    qed
  qed
qed

lemma answers_callStep:
  assumes "views_inv s" "answers_inv w s" "i < length (qs_calls s)" "callStep i s = Some s'"
  shows "answers_inv w s'"
proof -
  let ?c = "qs_calls s ! i"
  note ok = answers_call [OF assms(2,3)]
  show ?thesis
  proof (cases "c_pc ?c")
    case CStart
    then have "c_batches ?c = [] \<and> c_results ?c = [] \<and> c_namespaces ?c \<noteq> []" using ok by (simp add: call_ok_def)
    then show ?thesis using assms(4) CStart answers_goto [OF assms(2,3)] by (auto simp: callStep_def getBatcher_load_def split: option.splits)
  next
    case (CLock v)
    then have n: "c_batches ?c = [] \<and> c_results ?c = [] \<and> c_namespaces ?c \<noteq> []" using ok by (simp add: call_ok_def)
    have "answers_inv w (goto i pc (view_update v f s))" if "call_pc_ok (qs_queries s) ?c pc" for pc f
      using answers_goto [OF answers_view_update [OF assms(2)], where pc = pc and v1 = v and f1 = f and i = i] assms(3) that by (simp add: view_update_def)
    then show ?thesis
      using assms(4) CLock answers_goto [OF assms(2,3)] n by (auto simp: callStep_def getBatcher_lock_def Let_def split: if_splits)
  next
    case (CAssign v m)
    then show ?thesis using answers_updateOrCreate [OF assms(1-3)] assms(4) by (simp add: callStep_def)
  next
    case (CCheck v)
    then have "c_batches ?c = [] \<and> c_results ?c = [] \<and> c_namespaces ?c \<noteq> []" using ok by (simp add: call_ok_def)
    then have "answers_inv w (unlock v (goto i pc s))" if "pc = CReturned (Some e) \<or> pc = CAdd b MLoad" for pc e b
      unfolding unlock_def using answers_view_update [OF answers_goto [OF assms(2,3), of pc]] that by auto
    then show ?thesis using assms(2,4) CCheck by (auto simp: callStep_def getBatcher_check_def split: option.splits if_splits)
  next
    case (CAdd b m)
    then show ?thesis using answers_addNamespaceKeys [OF assms(1-3)] assms(4) by (simp add: callStep_def)
  next
    case CWait
    let ?j = "length (c_results ?c)"
    have n: "length (c_batches ?c) = length (c_namespaces ?c)" "?j < length (c_namespaces ?c)" using ok CWait by (simp_all add: call_ok_def)
    then have a: "added (qs_queries s) (length (qs_batchers s)) (c_namespaces ?c ! ?j) (c_batches ?c ! ?j)" using ok by (simp add: call_ok_def)
    have b: "batches_ok w (qs_queries s) (qs_batchers s)" using assms(2) by (simp add: answers_inv_def)
    show ?thesis
    proof (cases "waitForRows (snd (c_namespaces ?c ! ?j)) (qs_queries s ! (c_batches ?c ! ?j))")
      case None
      then show ?thesis using assms(4) CWait by (simp add: callStep_def collectRows_def Let_def)
    next
      case (Some r)
      show ?thesis
      proof (cases r)
        case (Inl e)
        then have "s' = goto i (CReturned (Some e)) s" using assms(4) CWait Some by (simp add: callStep_def collectRows_def Let_def)
        then show ?thesis using answers_goto [OF assms(2,3)] by simp
      next
        case (Inr res)
        let ?c' = "?c\<lparr>c_results := c_results ?c @ [res], c_pc := (if Suc ?j = length (c_namespaces ?c) then CReturned None else CWait)\<rparr>"
        have "answered w (qs_queries s) (qs_batchers s) (c_namespaces ?c ! ?j) (c_batches ?c ! ?j) res"
          by (rule waitForRows_answered [OF b a]) (use Some Inr in simp)
        then have "call_ok w (qs_queries s) (qs_batchers s) ?c'"
          using ok n by (auto simp: call_ok_def nth_append less_Suc_eq)
        moreover have "s' = s\<lparr>qs_calls := (qs_calls s)[i := ?c']\<rparr>"
          using assms(4) CWait Some Inr by (simp add: callStep_def collectRows_def call_update_def Let_def)
        ultimately show ?thesis using answers_update [OF assms(2)] by simp
      qed
    qed
  next
    case (CReturned r)
    then show ?thesis using assms(4) by (simp add: callStep_def)
  qed
qed

lemma answers_callDone:
  assumes "answers_inv w s" "i < length (qs_calls s)" "callDone i e s = Some s'"
  shows "answers_inv w s'"
  using assms(3) answers_goto [OF assms(1,2), of "CReturned (Some e)"] answers_view_update [OF answers_goto [OF assms(1,2), of "CReturned (Some e)"]]
  by (auto simp: callDone_def unlock_def split: call_pc.splits map_pc.splits)

lemma unchanged:
  "qs_queries (snd (makeView i p s)) = qs_queries s \<and> qs_batchers (snd (makeView i p s)) = qs_batchers s \<and> qs_calls (snd (makeView i p s)) = qs_calls s"
  "qs_queries (snd (removeViewID i s)) = qs_queries s \<and> qs_batchers (snd (removeViewID i s)) = qs_batchers s \<and> qs_calls (snd (removeViewID i s)) = qs_calls s"
  "releaseView v s = Some s' \<Longrightarrow> qs_queries s' = qs_queries s \<and> qs_batchers s' = qs_batchers s \<and> qs_calls s' = qs_calls s"
  "retireView v s = Some s' \<Longrightarrow> qs_queries s' = qs_queries s \<and> qs_batchers s' = qs_batchers s \<and> qs_calls s' = qs_calls s"
  by (auto simp: makeView_def removeViewID_def releaseView_def retireView_def view_update_def Let_def split: option.splits if_splits)

lemma query_do_answers:
  assumes "views_inv s" "answers_inv w s" "query_do w mv s = Some s'"
  shows "answers_inv w s'"
proof -
  have bk: "batch_ok w (qs_queries s ! q)" if "q < length (qs_queries s)" for q
    using assms(2) batches_okD(1) that by (auto simp: answers_inv_def)
  show ?thesis
  proof (cases mv)
    case (BeginView i p)
    then show ?thesis using assms(3) answers_frame [OF assms(2)] unchanged(1) by auto
  next
    case (EndView i)
    then show ?thesis using assms(3) answers_frame [OF assms(2)] unchanged(2) by auto
  next
    case (ViewTimeout v)
    then show ?thesis using assms(3) answers_view_update [OF assms(2)] by (auto split: if_splits)
  next
    case (CancelJoined v)
    then have "s' = view_update v (\<lambda>h. h\<lparr>vh_ctx := ctx_cancel None (vh_ctx h)\<rparr>) s" using assms(3) by (auto split: if_splits)
    then show ?thesis using answers_view_update [OF assms(2)] by simp
  next
    case (ReleaseView v)
    then show ?thesis using assms(3) answers_frame [OF assms(2)] unchanged(3) by auto
  next
    case (RetireView v)
    then show ?thesis using assms(3) answers_frame [OF assms(2)] unchanged(4) by auto
  next
    case (Leave b)
    then have b: "b \<in> set (qs_leaving s)" "s' = batcher_leave b (s\<lparr>qs_leaving := remove1 b (qs_leaving s)\<rparr>)"
      using assms(3) by (auto split: if_splits)
    have "b < length (qs_batchers s)" using refs_okD(2,4) [OF views_invD(1) [OF assms(1)]] b(1) by blast
    then show ?thesis using answers_leave [OF assms(2)] b(2) by simp
  next
    case (Unlist k b)
    then show ?thesis using assms(3) answers_frame [OF assms(2)] by auto
  next
    case (SubmitTimer q)
    then have "on_query q (\<lambda>x. Some (submit x)) s = Some s'" using assms(3) by simp
    then show ?thesis
      by (rule answers_on_query [OF assms(2)]) (use submit_ok [OF bk] in auto)
  next
    case (ExecuteBegin q)
    then have "on_query q executeBegin s = Some s'" using assms(3) by simp
    then show ?thesis
      by (rule answers_on_query [OF assms(2)]) (use executeBegin_ok [OF bk] in blast)
  next
    case (ExecuteAcquired q e)
    then have "on_query q (executeAcquired e) s = Some s'" using assms(3) by simp
    then show ?thesis
      by (rule answers_on_query [OF assms(2)]) (use executeAcquired_ok [OF bk] in blast)
  next
    case (ExecuteQuery q r)
    then have "on_query q (executeQuery w r) s = Some s'" using assms(3) by simp
    then show ?thesis
      by (rule answers_on_query [OF assms(2)]) (use executeQuery_ok [OF bk] in blast)
  next
    case (CallGetRows v nss)
    then show ?thesis using assms(3) answers_newCall [OF assms(2)] by (auto simp: GetRows_def split: if_splits option.splits)
  next
    case (CallGetTransactionStatus v ids)
    then show ?thesis using assms(3) answers_newCall [OF assms(2)] by (auto simp: GetTransactionStatus_def)
  next
    case (CallDone i e)
    then show ?thesis using assms(3) answers_callDone [OF assms(2)] by (simp split: if_splits)
  next
    case (CallStep i)
    then show ?thesis using assms(3) answers_callStep [OF assms(1,2)] by (simp split: if_splits)
  next
    case ServiceDone
    then show ?thesis using assms(3) answers_serviceDone [OF assms(2)] by simp
  qed
qed

lemma query_reachable_answers: "query_reachable w s \<Longrightarrow> answers_inv w s"
proof (induction rule: query_reachable.induct)
  case (start w cfg)
  show ?case by (simp add: newService_def answers_inv_def batches_ok_def calls_ok_def)
next
  case (step w s mv s')
  then show ?case using query_do_answers query_reachable_inv by blast
qed

section \<open>Answers\<close>


text \<open>
  C35: A request waits for the rows of its last namespace, and the query of its batch has not been
  executed. When the only view left on the batcher ends (it was ended by its client, or timed out) the
  request does not get the error for a stale view: its next step returns success with no rows.
\<close>

theorem ended_view_answers_empty:
  assumes "query_reachable w s" "i < length (qs_calls s)" "c_pc (qs_calls s ! i) = CWait"
  defines "c \<equiv> qs_calls s ! i"
  defines "q \<equiv> qs_queries s ! (c_batches c ! length (c_results c))"
  assumes "Suc (length (c_results c)) = length (c_namespaces c)" "qb_ctx q = Live" "qb_read q = None"
    and "qb_batcher q \<in> set (qs_leaving s)" "bt_refCounter (qs_batchers s ! qb_batcher q) = 1"
  shows "\<exists>s1 s2. query_do w (Leave (qb_batcher q)) s = Some s1 \<and> query_do w (CallStep i) s1 = Some s2 \<and>
    c_pc (qs_calls s2 ! i) = CReturned None \<and> c_results (qs_calls s2 ! i) = c_results c @ [([], [])]"
proof -
  note inv = query_reachable_inv [OF assms(1)] and ans = query_reachable_answers [OF assms(1)]
  let ?k = "c_batches c ! length (c_results c)" and ?b = "qb_batcher q"
  let ?s = "batcher_leave ?b (s\<lparr>qs_leaving := remove1 ?b (qs_leaving s)\<rparr>)"
  have ok: "call_ok w (qs_queries s) (qs_batchers s) c" unfolding c_def by (rule answers_call [OF ans assms(2)])
  then have k: "?k < length (qs_queries s)" using assms(3,6) by (auto simp: call_ok_def added_def c_def)
  have batch: "batch_ok w q" using ans batches_okD(1) [OF _ k] by (auto simp: answers_inv_def q_def)
  have b: "?b < length (qs_batchers s)" "bt_ctx (qs_batchers s ! ?b) = Live"
    using views_invD(5) [OF inv] k assms(7) by (auto simp: queries_ok_def q_def)
  have s': "qs_calls ?s = qs_calls s" "qs_queries ?s ! ?k = q\<lparr>qb_ctx := Ended ContextCanceled ContextCanceled\<rparr>"
    using b k assms(7,10)
    by (simp_all add: batcher_leave_def batcher_cancel_def batcher_update_def Let_def ctx_cancel_def ctx_inherit_def q_def)
  have "waitForRows (snd (c_namespaces c ! length (c_results c))) (qs_queries ?s ! ?k) = Some (Inr ([], []))"
    using batch assms(8) by (simp add: s' waitForRows_def batch_ok_def)
  then have "callStep i ?s = Some (call_update i (\<lambda>c. c\<lparr>c_results := c_results c @ [([], [])], c_pc := CReturned None\<rparr>) ?s)"
    using assms(3,6) by (simp add: callStep_def collectRows_def Let_def s' c_def call_update_def)
  then show ?thesis using assms(2,9) by (auto simp: s' call_update_def c_def)
qed

section \<open>A request whose batcher ends\<close>

definition ended :: "viewsBatcher \<Rightarrow> nat \<Rightarrow> bool" where
  "ended s b \<longleftrightarrow> b < length (qs_batchers s) \<and> bt_ctx (qs_batchers s ! b) \<noteq> Live"

lemma ended_frame: "ended s b \<Longrightarrow> qs_batchers s' = qs_batchers s \<Longrightarrow> ended s' b"
  by (simp add: ended_def)

lemma ended_batcher_update: "ended s b \<Longrightarrow> (\<And>x. bt_ctx x \<noteq> Live \<Longrightarrow> bt_ctx (f x) \<noteq> Live) \<Longrightarrow> ended (batcher_update b' f s) b"
  by (cases "b = b'") (simp_all add: ended_def batcher_update_def)

lemma ended_goto: "ended (goto i pc s) b = ended s b" "ended (call_update i f s) b = ended s b" "ended (view_update v g s) b = ended s b"
  "ended (query_update q h s) b = ended s b" "ended (unlock v s) b = ended s b"
  by (simp_all add: ended_def goto_def call_update_def view_update_def query_update_def unlock_def)

lemma ended_leave: "ended s b \<Longrightarrow> ended (batcher_leave b' (s\<lparr>qs_leaving := L\<rparr>)) b"
  by (cases "b = b'") (auto simp: ended_def batcher_leave_def batcher_cancel_def batcher_update_def Let_def)

lemma ended_join: "ended s b \<Longrightarrow> join b' v s = (ok, s') \<Longrightarrow> ended s' b"
  by (cases "b = b'") (auto simp: join_def Let_def ended_goto ended_batcher_update split: if_splits)

lemma ended_updateOrCreate: "ended s b \<Longrightarrow> ended (updateOrCreateBatcher i v pc s) b"
  using ended_join [of s b]
  by (auto simp: updateOrCreateBatcher_def Let_def ended_goto split: map_pc.splits option.splits prod.splits bool.splits)
     (auto simp: ended_def nth_append)

lemma ended_batcher_addNamespaceKeys: "ended s b \<Longrightarrow> ended (batcher_addNamespaceKeys i b' pc s) b"
  by (auto simp: batcher_addNamespaceKeys_def Let_def ended_goto split: map_pc.splits option.splits prod.splits bool.splits)
     (cases "b = b'"; auto simp: ended_def batcher_update_def)+

lemma ended_callStep: "ended s b \<Longrightarrow> callStep i s = Some s' \<Longrightarrow> ended s' b"
  by (auto simp: callStep_def getBatcher_load_def getBatcher_lock_def getBatcher_check_def collectRows_def Let_def ended_goto
      ended_updateOrCreate ended_batcher_addNamespaceKeys split: call_pc.splits option.splits if_splits sum.splits)

lemma ended_step:
  assumes "ended s b" "query_do w mv s = Some s'"
  shows "ended s' b"
proof (cases mv)
  case (Leave x)
  then show ?thesis using assms ended_leave by (auto split: if_splits)
next
  case (CallStep i)
  then show ?thesis using assms ended_callStep by (auto split: if_splits)
next
  case (CallDone i e)
  then show ?thesis using assms by (auto simp: callDone_def ended_goto split: if_splits call_pc.splits map_pc.splits)
next
  case ServiceDone
  then show ?thesis using assms by (auto simp: ended_def serviceDone_def Let_def ctx_inherit_def)
next
  case (CancelJoined v)
  then have "s' = view_update v (\<lambda>h. h\<lparr>vh_ctx := ctx_cancel None (vh_ctx h)\<rparr>) s" using assms(2) by (auto split: if_splits)
  then show ?thesis using assms(1) by (simp add: ended_goto)
qed (use assms in \<open>auto simp: ended_def makeView_def removeViewID_def releaseView_def retireView_def view_update_def query_update_def
    on_query_def GetRows_def GetTransactionStatus_def newCall_def Let_def split: if_splits option.splits\<close>)

lemma calls_unlock: "qs_calls (unlock v s) = qs_calls s" "qs_calls (batcher_leave b s) = qs_calls s"
  "qs_calls (view_update v g s) = qs_calls s" "qs_calls (query_update q h s) = qs_calls s" "qs_calls (batcher_update b k s) = qs_calls s"
  by (simp_all add: unlock_def batcher_leave_def batcher_cancel_def view_update_def query_update_def batcher_update_def Let_def)

lemma calls_join: "join b v s = (ok, s') \<Longrightarrow> qs_calls s' = qs_calls s"
  by (auto simp: join_def Let_def calls_unlock split: if_splits)

lemma calls_other: "j \<noteq> i \<Longrightarrow> qs_calls (goto j pc s) ! i = qs_calls s ! i" "j \<noteq> i \<Longrightarrow> qs_calls (call_update j f s) ! i = qs_calls s ! i"
  "length (qs_calls (goto j pc s)) = length (qs_calls s)" "length (qs_calls (call_update j f s)) = length (qs_calls s)"
  by (simp_all add: goto_def call_update_def)

lemma callStep_other:
  assumes "callStep j s = Some s'" "j \<noteq> i"
  shows "qs_calls s' ! i = qs_calls s ! i \<and> length (qs_calls s') = length (qs_calls s)"
proof (cases "c_pc (qs_calls s ! j)")
  case (CAssign v pc)
  then show ?thesis using assms
    by (auto simp: callStep_def updateOrCreateBatcher_def Let_def calls_other dest: calls_join
        split: map_pc.splits option.splits prod.splits bool.splits)
next
  case (CAdd b pc)
  then show ?thesis using assms
    by (auto simp: callStep_def batcher_addNamespaceKeys_def Let_def calls_other calls_unlock
        split: map_pc.splits option.splits prod.splits bool.splits)
qed (use assms in \<open>auto simp: callStep_def getBatcher_load_def getBatcher_lock_def getBatcher_check_def collectRows_def Let_def
    calls_other calls_unlock split: option.splits if_splits sum.splits\<close>)

lemma query_do_other:
  assumes "query_do w mv s = Some s'" "i < length (qs_calls s)" "mv \<noteq> CallStep i" "\<And>e. mv \<noteq> CallDone i e"
  shows "qs_calls s' ! i = qs_calls s ! i \<and> i < length (qs_calls s')"
proof (cases mv)
  case (CallStep j)
  then show ?thesis using assms callStep_other [of j s s' i] by (auto split: if_splits)
next
  case (CallDone j e)
  then have "j \<noteq> i" using assms(4) by auto
  then show ?thesis using assms(1,2) CallDone
    by (auto simp: callDone_def calls_other calls_unlock split: if_splits call_pc.splits map_pc.splits)
qed (use assms in \<open>auto simp: makeView_def removeViewID_def releaseView_def retireView_def serviceDone_def on_query_def GetRows_def
    GetTransactionStatus_def newCall_def Let_def nth_append calls_unlock split: if_splits option.splits\<close>)

definition spins :: "viewsBatcher \<Rightarrow> nat \<Rightarrow> nat \<Rightarrow> bool" where
  "spins s i b \<longleftrightarrow> i < length (qs_calls s) \<and> ended s b \<and> (\<exists>pc. c_pc (qs_calls s ! i) = CAdd b pc)"

lemma batcher_addNamespaceKeys_spins:
  assumes "query_reachable w s" "i < length (qs_calls s)" "ended s b" "c_pc (qs_calls s ! i) = CAdd b pc"
  shows "\<exists>pc'. c_pc (qs_calls (batcher_addNamespaceKeys i b pc s) ! i) = CAdd b pc' \<and>
    i < length (qs_calls (batcher_addNamespaceKeys i b pc s)) \<and>
    c_batches (qs_calls (batcher_addNamespaceKeys i b pc s) ! i) = c_batches (qs_calls s ! i)"
proof -
  have ok: "call_pc_ok (qs_queries s) (qs_calls s ! i) (CAdd b pc)"
    using answers_call [OF query_reachable_answers [OF assms(1)] assms(2)] assms(4) by (simp add: call_ok_def)
  have "addKeys keys (qs_queries s ! q) = (False, qs_queries s ! q)" if "pc = MUpdate (Some q)" for keys q
  proof -
    have "q < length (qs_queries s)" "qb_batcher (qs_queries s ! q) = b" using ok that by auto
    then have "qb_ctx (qs_queries s ! q) \<noteq> Live"
      using views_invD(5) [OF query_reachable_inv [OF assms(1)]] assms(3) by (auto simp: queries_ok_def ended_def)
    then show ?thesis by (simp add: addKeys_def)
  qed
  then show ?thesis using assms(2)
    by (auto simp: batcher_addNamespaceKeys_def Let_def goto_def call_update_def calls_unlock batcher_update_def
        split: map_pc.splits option.splits prod.splits bool.splits)
qed

lemma spins_step:
  assumes "query_reachable w s" "spins s i b" "query_do w mv s = Some s'" "\<And>e. mv \<noteq> CallDone i e"
  shows "spins s' i b \<and> c_batches (qs_calls s' ! i) = c_batches (qs_calls s ! i)"
proof -
  obtain pc where pc: "i < length (qs_calls s)" "ended s b" "c_pc (qs_calls s ! i) = CAdd b pc" using assms(2) by (auto simp: spins_def)
  have e: "ended s' b" by (rule ended_step [OF pc(2) assms(3)])
  show ?thesis
  proof (cases "mv = CallStep i")
    case True
    then have "s' = batcher_addNamespaceKeys i b pc s" using assms(3) pc by (simp add: callStep_def)
    then show ?thesis using batcher_addNamespaceKeys_spins [OF assms(1) pc] e by (auto simp: spins_def)
  next
    case False
    then show ?thesis using query_do_other [OF assms(3) pc(1)] assms(4) e pc by (auto simp: spins_def)
  qed
qed

lemma spins_run:
  assumes "query_reachable w s" "spins s i b" "query_run w mvs s = Some s'" "\<And>e. CallDone i e \<notin> set mvs"
  shows "spins s' i b \<and> c_batches (qs_calls s' ! i) = c_batches (qs_calls s ! i)"
  using assms
proof (induction mvs arbitrary: s)
  case (Cons mv mvs)
  obtain s1 where s1: "query_do w mv s = Some s1" "query_run w mvs s1 = Some s'" using Cons.prems(3) by (auto split: option.splits)
  have st: "spins s1 i b \<and> c_batches (qs_calls s1 ! i) = c_batches (qs_calls s ! i)"
    using spins_step [OF Cons.prems(1,2) s1(1)] Cons.prems(4) by auto
  have "spins s' i b \<and> c_batches (qs_calls s' ! i) = c_batches (qs_calls s1 ! i)"
    using Cons.IH [OF query_reachable.step [OF Cons.prems(1) s1(1)] _ s1(2)] st Cons.prems(4) by auto
  then show ?case using st by simp
qed simp

text \<open>
  C36: A request that has been given a batcher and adds the keys of a namespace to it, when the batcher
  has ended in the meantime (its view was ended or timed out), never gets further: whatever the service
  and other requests do, it keeps creating batches that refuse its keys. It neither returns an error nor
  reaches the next namespace until its own context ends, and its next step is always enabled.
\<close>

theorem ended_batcher_spins:
  assumes "query_reachable w s" "i < length (qs_calls s)" "c_pc (qs_calls s ! i) = CAdd b pc"
    and "b < length (qs_batchers s)" "bt_ctx (qs_batchers s ! b) \<noteq> Live"
    and "query_run w mvs s = Some s'" "\<And>e. CallDone i e \<notin> set mvs"
  shows "(\<exists>pc'. c_pc (qs_calls s' ! i) = CAdd b pc') \<and> c_batches (qs_calls s' ! i) = c_batches (qs_calls s ! i) \<and>
    query_do w (CallStep i) s' \<noteq> None"
proof -
  have "spins s i b" using assms(2-5) by (auto simp: spins_def ended_def)
  from spins_run [OF assms(1) this assms(6,7)] show ?thesis by (auto simp: spins_def callStep_def)
qed

section \<open>Concrete runs\<close>

definition demo_query_db :: database where
  "demo_query_db = \<lparr>db_ns = [''a'' \<mapsto> [''k'' \<mapsto> \<lparr>row_value = ''v'', row_version = 3\<rparr>]], tx_status = Map.empty,
     metadata = Map.empty, clones = Map.empty\<rparr>"

definition demo_answered :: "query_move list" where
  "demo_answered = demo_waiting @ [SubmitTimer 0, ExecuteBegin 0, ExecuteAcquired 0 None, ExecuteQuery 0 (Inr demo_query_db), CallStep 0]"


theorem ended_view_answers_empty_witness:
  "\<exists>s1 s2. query_do ref_wire (Leave 1) (query_demo (demo_waiting @ demo_ending)) = Some s1 \<and>
     query_do ref_wire (CallStep 0) s1 = Some s2 \<and> c_pc (qs_calls s2 ! 0) = CReturned None \<and> c_results (qs_calls s2 ! 0) = [([], [])]"
proof -
  let ?s = "query_demo (demo_waiting @ demo_ending)"
  let ?q = "qs_queries ?s ! (c_batches (qs_calls ?s ! 0) ! length (c_results (qs_calls ?s ! 0)))"
  have run: "\<not> Option.is_none (query_run ref_wire (demo_waiting @ demo_ending) (newService demo_query_config))" by code_simp
  have b: "qb_batcher ?q = 1" "c_results (qs_calls ?s ! 0) = []" by code_simp+
  have hyp: "0 < length (qs_calls ?s)" "c_pc (qs_calls ?s ! 0) = CWait"
    "Suc (length (c_results (qs_calls ?s ! 0))) = length (c_namespaces (qs_calls ?s ! 0))" "qb_ctx ?q = Live"
    "qb_batcher ?q \<in> set (qs_leaving ?s)" "bt_refCounter (qs_batchers ?s ! qb_batcher ?q) = 1" by code_simp+
  have "Option.is_none (qb_read ?q)" by code_simp
  then have read: "qb_read ?q = None" by (simp only: Option.is_none_def)
  show ?thesis
    using ended_view_answers_empty [OF query_demo_reachable [OF run] hyp(1-4) read hyp(5,6)] unfolding b(1) unfolding b(2) append_Nil .
qed

definition demo_ended :: "query_move list" where
  "demo_ended = demo_given @ demo_ending @ [Leave 1]"

lemma query_demo_append:
  assumes "\<not> Option.is_none (query_run ref_wire (mvs @ mvs') (newService demo_query_config))"
    and "\<not> Option.is_none (query_run ref_wire mvs (newService demo_query_config))"
  shows "query_run ref_wire mvs' (query_demo mvs) = Some (query_demo (mvs @ mvs'))"
  using assms by (auto simp: query_demo_def query_run_append Option.is_none_def)

theorem ended_batcher_spins_witness:
  "(\<exists>pc. c_pc (qs_calls (query_demo (demo_ended @ replicate 20 (CallStep 0))) ! 0) = CAdd 1 pc) \<and>
   c_batches (qs_calls (query_demo (demo_ended @ replicate 20 (CallStep 0))) ! 0) = []"
proof -
  have run: "\<not> Option.is_none (query_run ref_wire demo_ended (newService demo_query_config))" by code_simp
  have all: "\<not> Option.is_none (query_run ref_wire (demo_ended @ replicate 20 (CallStep 0)) (newService demo_query_config))" by code_simp
  have hyp: "0 < length (qs_calls (query_demo demo_ended))" "c_pc (qs_calls (query_demo demo_ended) ! 0) = CAdd 1 MLoad"
    "1 < length (qs_batchers (query_demo demo_ended))" "bt_ctx (qs_batchers (query_demo demo_ended) ! 1) \<noteq> Live"
    "c_batches (qs_calls (query_demo demo_ended) ! 0) = []" by code_simp+
  have none: "CallDone 0 e \<notin> set (replicate 20 (CallStep 0))" for e by (simp only: set_replicate_conv_if) simp
  show ?thesis
    using ended_batcher_spins [OF query_demo_reachable [OF run] hyp(1-4) query_demo_append [OF all run] none] unfolding hyp(5) by blast
qed

end
