(* ===== verification/Spec2Isabelle.thy ===== *)
theory Spec2Isabelle
  imports Dep_Graph_Props VC_Runs Verifier Sidecar_Relay_Props Notifier_Props Query_Answers
begin

text \<open>
  A verification development for the committer of Hyperledger Fabric-X.

  \<^bold>\<open>The program.\<close> The sidecar receives ordered blocks, checks the form of their transactions and maps
  each block to a batch for the coordinator. The coordinator keeps the transactions in a dependency graph
  and hands out those that do not depend on earlier ones; verifiers check their signatures against the
  policies of the namespaces, and validator-committers check the versions they have read, write to the
  state database and report a status for each transaction. The statuses free the dependent transactions
  of the graph and travel back to the sidecar, whose relay emits a block once all its transactions have a
  status and whose notifier tells the clients that wait for them. The query service answers reads from the
  same database.

  \<^bold>\<open>Conventions.\<close> A Go string or byte slice is a \<open>string\<close>, \<open>uint64\<close> and \<open>uint32\<close> are words; a Go map that
  the code ranges over is an association list with one entry per key, other maps are HOL maps. Objects
  that are shared behind pointers are in heaps and addressed by numbers. Operations that fail return a
  sum or an option; a panic is an error value. Goroutines are program counters of a step relation in which
  one step is one critical section, one channel operation or one atomic operation. Packages outside of
  the repository are arguments: the records \<open>wire\<close> (\<open>Messages\<close>), \<open>protowire\<close> and \<open>protoutil\<close> (\<open>Envelope\<close>)
  and \<open>fabric\<close> (\<open>Policy\<close>). What a theorem needs of them is a named law, and \<open>Wire_Instance\<close> and the
  witnesses give instances that satisfy the laws.

  \<^bold>\<open>Foundations.\<close>
  \<^item> \<open>Committer_Prelude\<close>: names of types, Go maps, slices as sets, loops with early return.
  \<^item> \<open>Map_Views\<close>: multisets of the entries of a map, independent of the order of ranging.
  \<^item> \<open>Messages\<close>, \<open>Wire_Instance\<close>: the messages (\<open>api/servicepb\<close>) and the external coding functions.
  \<^item> \<open>Ordered_Encoding\<close>: \<open>utils/encoding.go\<close>, \<open>api/servicepb/height.go\<close>, \<open>checkpoint_key.go\<close>. Heights
    decode to what was encoded and keep their order as bytes; a checkpoint key is not unique for its block.
  \<^item> \<open>Slots\<close>: \<open>utils/slots.go\<close>.

  \<^bold>\<open>Coordinator: dependency graph\<close> (\<open>service/coordinator/dependencygraph\<close>). \<open>Dep_Detector\<close> models the
  composite keys and the detector; the locale \<open>conflict_index\<close> states what the graph relies on and the
  detector is an interpretation of it. \<open>Dep_Graph\<close> models nodes, local construction and the manager with
  all interleavings of its goroutines (\<open>dg_step\<close>). \<open>Dep_Graph_Correct\<close> has the invariants,
  \<open>Dep_Graph_Props\<close> what they give: isolation, order, progress, each node handed out once, the bound on
  waiting nodes, an empty detector at the end, the order of batches; and the run in which a transaction
  that lists a read key twice breaks isolation.

  \<^bold>\<open>Sidecar\<close> (\<open>service/sidecar\<close>, \<open>utils/serialization/envelope.go\<close>).
  \<^item> \<open>Envelope\<close>: extraction of fields at the level of the wire format; it returns on every input and agrees
    with unmarshalling everything.
  \<^item> \<open>Sidecar_Mapping\<close>, \<open>Sidecar_Mapping_Props\<close>: \<open>mapping.go\<close>, \<open>tx_id_dedup.go\<close>. What the form checks
    accept, the two duplicate checks are equivalent, parsing may be split among workers in any way, each
    message gets exactly one outcome.
  \<^item> \<open>Sidecar_Inflight\<close>: \<open>in_flight_blocks.go\<close>, a growing ring that refines a window of consecutive
    blocks; the locale \<open>block_window\<close> is the contract with the relay.
  \<^item> \<open>Sidecar_Relay\<close>, \<open>Sidecar_Relay_Props\<close>: \<open>relay.go\<close>, one session; blocks are emitted in order, without
    gaps, with a status for each transaction.
  \<^item> \<open>Notifier\<close>, \<open>Notifier_Props\<close>: \<open>notify.go\<close>. Slots, gauges and timers agree with the subscriptions,
    statuses reach all subscribers; a message that was rejected in mapping makes the building of events
    panic.

  \<^bold>\<open>Verifier\<close> (\<open>service/verifier\<close>, \<open>utils/signature\<close>). \<open>Policy\<close> models policies and signature checks,
  \<open>Verifier\<close> the verifiers of the namespaces, their updates and the batching of results: when a request is
  valid, what an update changes, that all results are in some batch; and two policies that lead to a panic.

  \<^bold>\<open>State database\<close> (\<open>utils/statedb\<close>). \<open>State_DB\<close> models the tables and stored functions, \<open>Snapshot_State\<close>
  the records of snapshots and the deletion of clones: terminal records are stable, only clones that are
  not in use are dropped, deletion is idempotent.

  \<^bold>\<open>Validator-committer\<close> (\<open>service/vc\<close>). \<open>VC_Preparer\<close>, \<open>VC_Database\<close>, \<open>VC_Validator\<close>, \<open>VC_Committer\<close> model
  the stages of the pipeline. \<open>VC_Views\<close>, \<open>VC_Mvcc\<close>, \<open>VC_Prepared\<close>, \<open>VC_Commit_Loop\<close> and \<open>VC_Typed\<close> have
  the lemmas about the maps of a batch, the version checks, the attempts of the commit and well-formed
  databases. \<open>VC_Batch\<close> and \<open>VC_Runs\<close> conclude: each batch is answered, without the internal errors of the
  loop, and each database that a sequence of batches reaches is well-formed again.

  \<^bold>\<open>Query service\<close> (\<open>service/query\<close>). \<open>Query_Service\<close> models views, batchers, query batches and requests
  with all interleavings (\<open>query_do\<close>). \<open>Query_Views\<close> shows that slots and reference counts are exact and
  that a batcher ends with its last view. \<open>Query_Answers\<close> shows that a request that succeeds has the rows
  of one read of the database for each namespace, unless its batcher has ended; that it then may succeed
  with no rows; and that a request that adds keys to a batcher that has ended does not return by itself.

  \<^bold>\<open>Bounds.\<close> The number \<open>1024\<close> of attempts of \<open>commitLoop\<close> is the limit in \<open>committer.go\<close>; four attempts are
  shown to be enough. The scan of an envelope and the cutting of result batches are partial functions
  (\<open>None\<close> is an endless loop) that are shown to return. No other definition has a bound or fuel: the
  step relations are about runs of every length.

  \<^bold>\<open>Not modelled.\<close> The managers of the coordinator that connect it to verifiers and validator-committers,
  the start-up and recovery of the sidecar, the snapshot hasher and the delivery of blocks mostly move
  messages between streams, ledgers and the modelled parts. Connections, TLS, retries after a lost
  connection, metrics, the load generator, command line, mocks and test support are left out, and so are
  the signature algorithms, the Fabric configuration libraries and the isolation of concurrent database
  transactions: a commit is one step on the tables, and a query reads one state of them. Metrics, log
  texts and the cancellation of contexts are left out of the step relations, except in the query service,
  where contexts decide the outcome of a request.
\<close>

end
